(* ===== verification/Prelude.thy ===== *)
theory Prelude
  imports Main "HOL-Library.AList"
begin

text \<open>
  The prelude of the development: the result and effect types every component uses, the
  lemma collections, and the facts on lists and association lists they share.

  A Python call that may raise is a value of \<open>'e + 'a\<close>, \<open>Inl\<close> for the exception. A call
  that also changes a state \<open>'s\<close> (a Redis server, a database) is a function
  \<open>'s \<Rightarrow> ('e + 'a) \<times> 's\<close>: the state is returned on both branches, because an
  exception does not undo what was done before it.
\<close>

named_theorems io_simps "reduction of sequenced effects"
named_theorems codec_simps "decoding of what was encoded"
named_theorems store_simps "views of the outbox after an operation"

type_synonym ('s, 'e, 'a) io = "'s \<Rightarrow> ('e + 'a) \<times> 's"

section \<open>Results\<close>

definition res_bind :: "'e + 'a \<Rightarrow> ('a \<Rightarrow> 'e + 'b) \<Rightarrow> 'e + 'b" where
  "res_bind m f = (case m of Inl e \<Rightarrow> Inl e | Inr a \<Rightarrow> f a)"

lemma res_bind_simps [simp, io_simps]:
  "res_bind (Inl e) f = Inl e"
  "res_bind (Inr a) f = f a"
  by (simp_all add: res_bind_def)

lemma res_bind_Inr_conv:
  "res_bind m f = Inr b \<longleftrightarrow> (\<exists>a. m = Inr a \<and> f a = Inr b)"
  by (cases m) simp_all

lemma res_bind_cong [fundef_cong]:
  "m = m' \<Longrightarrow> (\<And>a. m' = Inr a \<Longrightarrow> f a = g a) \<Longrightarrow> res_bind m f = res_bind m' g"
  by (cases m') simp_all

section \<open>Effects\<close>

definition io_ret :: "'a \<Rightarrow> ('s, 'e, 'a) io" where
  "io_ret a s = (Inr a, s)"

definition io_raise :: "'e \<Rightarrow> ('s, 'e, 'a) io" where
  "io_raise e s = (Inl e, s)"

definition io_bind :: "('s, 'e, 'a) io \<Rightarrow> ('a \<Rightarrow> ('s, 'e, 'b) io) \<Rightarrow> ('s, 'e, 'b) io" where
  "io_bind m f s = (case m s of (Inl e, s') \<Rightarrow> (Inl e, s') | (Inr a, s') \<Rightarrow> f a s')"

definition io_lift :: "'e + 'a \<Rightarrow> ('s, 'e, 'a) io" where
  "io_lift r s = (r, s)"

lemma io_basic_simps [simp, io_simps]:
  "io_ret a s = (Inr a, s)"
  "io_raise e s = (Inl e, s)"
  "io_lift r s = (r, s)"
  by (simp_all add: io_ret_def io_raise_def io_lift_def)

lemma io_bind_Inl [io_simps]: "m s = (Inl e, s') \<Longrightarrow> io_bind m f s = (Inl e, s')"
  by (simp add: io_bind_def)

lemma io_bind_Inr [io_simps]: "m s = (Inr a, s') \<Longrightarrow> io_bind m f s = f a s'"
  by (simp add: io_bind_def)

section \<open>Lists and association lists\<close>

lemma takeWhile_append_stop:
  "list_all P xs \<Longrightarrow> (case ys of [] \<Rightarrow> True | y # _ \<Rightarrow> \<not> P y) \<Longrightarrow>
   takeWhile P (xs @ ys) = xs"
  by (induction xs) (auto split: list.splits)

lemma dropWhile_append_stop:
  "list_all P xs \<Longrightarrow> (case ys of [] \<Rightarrow> True | y # _ \<Rightarrow> \<not> P y) \<Longrightarrow>
   dropWhile P (xs @ ys) = ys"
  by (induction xs) (auto split: list.splits)

lemma update_fresh: "k \<notin> fst ` set al \<Longrightarrow> AList.update k v al = al @ [(k, v)]"
  by (induction al) auto

text \<open>Building a Python dict from key/value pairs: a later duplicate overwrites in place.\<close>

definition dict_of :: "('k \<times> 'v) list \<Rightarrow> ('k \<times> 'v) list" where
  "dict_of ps = foldl (\<lambda>d kv. AList.update (fst kv) (snd kv) d) [] ps"

lemma foldl_update_distinct:
  "distinct (map fst (acc @ ps)) \<Longrightarrow>
   foldl (\<lambda>d kv. AList.update (fst kv) (snd kv) d) acc ps = acc @ ps"
proof (induction ps arbitrary: acc)
  case (Cons p ps)
  then have "AList.update (fst p) (snd p) acc = acc @ [p]"
    by (subst update_fresh) auto
  with Cons show ?case by simp
qed simp

lemma dict_of_distinct [simp]: "distinct (map fst ps) \<Longrightarrow> dict_of ps = ps"
  by (simp add: dict_of_def foldl_update_distinct)

lemma filter_map_distinct_unique:
  assumes "distinct (map f xs)" "x \<in> set xs" "y \<in> set xs" "f x = f y"
  shows "x = y"
  using assms by (meson distinct_map inj_on_def)

lemma find_distinct:
  assumes "distinct (map f xs)" "x \<in> set xs"
  shows "find (\<lambda>y. f y = f x) xs = Some x"
  using assms by (induction xs) (auto simp: image_iff)

text \<open>A list without the element at an index.\<close>

definition drop_nth :: "nat \<Rightarrow> 'a list \<Rightarrow> 'a list" where
  "drop_nth i xs = take i xs @ drop (Suc i) xs"

lemma length_drop_nth [simp]: "i < length xs \<Longrightarrow> Suc (length (drop_nth i xs)) = length xs"
  by (simp add: drop_nth_def)

lemma drop_nth_map: "map f (drop_nth i xs) = drop_nth i (map f xs)"
  by (simp add: drop_nth_def take_map drop_map)

lemma sum_drop_nth:
  fixes f :: "'a \<Rightarrow> 'b :: comm_monoid_add"
  assumes "i < length xs"
  shows "sum_list (map f xs) = f (xs ! i) + sum_list (map f (drop_nth i xs))"
    and "sum_list (map f (xs[i := x])) = f x + sum_list (map f (drop_nth i xs))"
proof -
  show "sum_list (map f xs) = f (xs ! i) + sum_list (map f (drop_nth i xs))"
    by (subst id_take_nth_drop [OF assms]) (simp add: drop_nth_def ac_simps)
  show "sum_list (map f (xs[i := x])) = f x + sum_list (map f (drop_nth i xs))"
    by (simp add: upd_conv_take_nth_drop [OF assms] drop_nth_def ac_simps)
qed

lemma set_drop_nth: "set (drop_nth i xs) \<subseteq> set xs"
  by (auto simp: drop_nth_def dest: in_set_takeD in_set_dropD)

end
