(* ===== verification/Runs.thy ===== *)
theory Runs
  imports Main
begin

text \<open>
  Runs of a step relation, and the two ways the development reasons about them: a predicate that
  every step keeps, and a simulation by the steps of a specification. A component with a step
  relation interprets the interfaces; their consequences for runs are proved here once.
\<close>

section \<open>Runs\<close>

text \<open>A run and its events, in order.\<close>

inductive run_of :: "('s \<Rightarrow> 'e \<Rightarrow> 's \<Rightarrow> bool) \<Rightarrow> 's \<Rightarrow> 'e list \<Rightarrow> 's \<Rightarrow> bool" for step s where
  run_nil [simp, intro]: "run_of step s [] s"
| run_snoc [intro]: "run_of step s es t \<Longrightarrow> step t e u \<Longrightarrow> run_of step s (es @ [e]) u"

lemma run_single: "step s e t \<Longrightarrow> run_of step s [e] t"
  using run_snoc [OF run_nil] by simp

lemma run_trans: "run_of step t fs u \<Longrightarrow> run_of step s es t \<Longrightarrow> run_of step s (es @ fs) u"
  by (induction rule: run_of.induct) (auto simp flip: append_assoc)

lemma run_cons: "step s e t \<Longrightarrow> run_of step t es u \<Longrightarrow> run_of step s (e # es) u"
  using run_trans [OF _ run_single] by fastforce

lemma run_mono: "run_of step s es t \<Longrightarrow> (\<And>s e t. step s e t \<Longrightarrow> step' s e t) \<Longrightarrow> run_of step' s es t"
  by (induction rule: run_of.induct) auto

text \<open>The first step after which a predicate fails.\<close>

lemma run_first_failure:
  assumes "run_of step s es t" "P s" "\<not> P t"
  shows "\<exists>fs u e v gs. es = fs @ e # gs \<and> run_of step s fs u \<and> P u \<and> step u e v \<and> \<not> P v \<and> run_of step v gs t"
  using assms
proof (induction rule: run_of.induct)
  case (run_snoc es t e u)
  show ?case
  proof (cases "P t")
    case True
    with run_snoc show ?thesis by blast
  next
    case False
    with run_snoc obtain fs v e' w gs where "es = fs @ e' # gs" "run_of step s fs v" "P v" "step v e' w" "\<not> P w"
      "run_of step w gs t"
      by blast
    with run_snoc.hyps(2) show ?thesis
      by (intro exI [of _ fs] exI [of _ v] exI [of _ e'] exI [of _ w] exI [of _ "gs @ [e]"]) auto
  qed
qed simp

section \<open>Interfaces\<close>

text \<open>A predicate on states that every step keeps.\<close>

locale step_invariant =
  fixes step :: "'s \<Rightarrow> 'e \<Rightarrow> 's \<Rightarrow> bool"
    and good :: "'s \<Rightarrow> bool"
  assumes step_keeps: "good s \<Longrightarrow> step s e t \<Longrightarrow> good t"
begin

lemma run_keeps: "run_of step s es t \<Longrightarrow> good s \<Longrightarrow> good t"
  by (induction rule: run_of.induct) (auto intro: step_keeps)

end

text \<open>A part of a system: every step of the whole is, for the part, the steps of some events, or none.\<close>

locale projection =
  fixes step :: "'s \<Rightarrow> 'e \<Rightarrow> 's \<Rightarrow> bool"
    and part :: "'a \<Rightarrow> 'f \<Rightarrow> 'a \<Rightarrow> bool"
    and sight :: "'s \<Rightarrow> 'a"
    and sees :: "'e \<Rightarrow> 'f list"
  assumes step_seen: "step s e t \<Longrightarrow> run_of part (sight s) (sees e) (sight t)"
begin

lemma run_seen: "run_of step s es t \<Longrightarrow> run_of part (sight s) (concat (map sees es)) (sight t)"
  by (induction rule: run_of.induct) (auto intro: run_trans step_seen)

end

text \<open>A simulation: every step is matched by a step of the specification with the same event.\<close>

locale simulation =
  fixes step :: "'s \<Rightarrow> 'e \<Rightarrow> 's \<Rightarrow> bool"
    and spec :: "'a \<Rightarrow> 'e \<Rightarrow> 'a \<Rightarrow> bool"
    and rel :: "'s \<Rightarrow> 'a \<Rightarrow> bool"
  assumes step_matched: "rel s a \<Longrightarrow> step s e t \<Longrightarrow> \<exists>b. spec a e b \<and> rel t b"
begin

lemma run_matched: "run_of step s es t \<Longrightarrow> rel s a \<Longrightarrow> \<exists>b. run_of spec a es b \<and> rel t b"
proof (induction rule: run_of.induct)
  case (run_snoc es t e u)
  then obtain b where "run_of spec a es b" "rel t b" by blast
  moreover from this step_matched run_snoc.hyps(2) obtain d where "spec b e d" "rel u d" by blast
  ultimately show ?case by blast
qed blast

text \<open>What the specification keeps, the implementation keeps of the abstract state.\<close>

lemma run_transfers:
  assumes "run_of step s es t" "rel s a" "step_invariant spec kept" "kept a"
  shows "\<exists>b. rel t b \<and> kept b"
  using run_matched [OF assms(1,2)] step_invariant.run_keeps [OF assms(3) _ assms(4)] by blast

end

text \<open>A simulation by a function on states that satisfy an invariant.\<close>

locale refinement_map = step_invariant +
  fixes spec :: "'c \<Rightarrow> 'b \<Rightarrow> 'c \<Rightarrow> bool"
    and spec_of :: "'a \<Rightarrow> 'c"
  assumes step_abs: "good s \<Longrightarrow> step s e t \<Longrightarrow> spec (spec_of s) e (spec_of t)"

sublocale refinement_map \<subseteq> simulation step spec "\<lambda>s a. good s \<and> a = spec_of s"
  by unfold_locales (auto intro: step_keeps step_abs)

context refinement_map
begin

lemma run_abs: "run_of step s es t \<Longrightarrow> good s \<Longrightarrow> run_of spec (spec_of s) es (spec_of t)"
  using run_matched by fastforce

end

end
