(* ===== verification/Bags.thy ===== *)
theory Bags
  imports Prelude Runs "HOL-Library.Multiset"
begin

text \<open>
  Facts on multisets that the accounts of deliveries, tasks and calls share, and the interface of
  such an account: what the states hold, what the events bring in and what they take out.
\<close>

lemma mset_drop_nth: "i < length xs \<Longrightarrow> mset xs = add_mset (xs ! i) (mset (drop_nth i xs))"
  by (subst id_take_nth_drop [of i xs]) (simp_all add: drop_nth_def)

lemma distinct_submset:
  assumes "mset xs \<subseteq># mset ys" "distinct ys"
  shows "distinct xs"
proof -
  obtain M where "mset ys = mset xs + M" using assms(1) by (metis mset_subset_eq_exists_conv)
  moreover obtain zs where "mset zs = M" using ex_mset by blast
  ultimately have "mset ys = mset (xs @ zs)" by simp
  then show ?thesis using assms(2) by (metis distinct_append mset_eq_imp_distinct_iff)
qed

lemma mset_map_filter: "mset xs \<subseteq># mset ys \<Longrightarrow> mset (List.map_filter f xs) \<subseteq># mset (List.map_filter f ys)"
  unfolding List.map_filter_def mset_map mset_filter
  by (intro image_mset_subseteq_mono multiset_filter_mono)

lemma sum_filter_subset: "(\<Sum>x\<leftarrow>filter P xs. f x) \<subseteq># (\<Sum>x\<leftarrow>xs. f x :: 'a multiset)"
  by (induction xs) (simp_all add: subset_mset.add_increasing)

lemma distinct_subset_mset:
  assumes "distinct xs" "set xs \<subseteq> set ys"
  shows "mset xs \<subseteq># mset ys"
proof -
  have "mset xs = mset_set (set xs)" using assms(1) by (simp add: mset_set_set)
  also have "\<dots> \<subseteq># mset_set (set ys)" using assms(2) by (simp add: subset_imp_msubset_mset_set)
  also have "\<dots> = mset (remdups ys)" by (metis distinct_remdups mset_set_set set_remdups)
  also have "\<dots> \<subseteq># mset ys" by (rule mset_remdups_subset_eq)
  finally show ?thesis .
qed

text \<open>What the events bring in covers what they take out and what is held in the end.\<close>

locale account =
  fixes step :: "'s \<Rightarrow> 'e \<Rightarrow> 's \<Rightarrow> bool"
    and stock :: "'s \<Rightarrow> 'b multiset"
    and takes :: "'e \<Rightarrow> 'b list"
    and gives :: "'e \<Rightarrow> 'b list"
  assumes step_account: "step s e t \<Longrightarrow> mset (gives e) + stock t \<subseteq># stock s + mset (takes e)"
begin

lemma run_account:
  assumes "run_of step s es t"
  shows "mset (concat (map gives es)) + stock t \<subseteq># stock s + mset (concat (map takes es))"
  using assms
proof (induction rule: run_of.induct)
  case (run_snoc es t e u)
  have "mset (concat (map gives (es @ [e]))) + stock u =
      mset (concat (map gives es)) + (mset (gives e) + stock u)"
    by (simp add: ac_simps)
  also have "\<dots> \<subseteq># mset (concat (map gives es)) + (stock t + mset (takes e))"
    using step_account [OF run_snoc.hyps(2)] by simp
  also have "\<dots> \<subseteq># stock s + mset (concat (map takes es)) + mset (takes e)"
    using run_snoc.IH by (simp add: add.assoc [symmetric])
  finally show ?case by (simp add: add.assoc)
qed simp

end

end
