(* ===== verification/PyText.thy ===== *)
theory PyText
  imports Prelude
begin

text \<open>
  The pieces of Python's text handling the program uses: decimal numerals (\<open>str(n)\<close>,
  \<open>int(s)\<close>), fixed-width fields of an ISO date, \<open>str.split\<close>, UTF-8 decoding of a reply.

  A Python \<open>str\<close> is a \<open>string\<close>, a list of \<open>char\<close>: its code points are those below 256.
  Every text RelayQ itself writes (keys, JSON with \<open>ensure_ascii\<close>, ISO dates, numerals) is
  ASCII. Nothing here has source lines of its own.
\<close>

section \<open>Digits\<close>

definition digit :: "nat \<Rightarrow> char" where
  "digit k = char_of (48 + k)"

definition digit_val :: "char \<Rightarrow> nat" where
  "digit_val c = of_char c - 48"

definition is_digit :: "char \<Rightarrow> bool" where
  "is_digit c \<longleftrightarrow> 48 \<le> (of_char c :: nat) \<and> (of_char c :: nat) \<le> 57"

lemma of_char_digit [simp]: "k < 10 \<Longrightarrow> (of_char (digit k) :: nat) = 48 + k"
  by (simp add: digit_def)

lemma digit_val_digit [simp]: "k < 10 \<Longrightarrow> digit_val (digit k) = k"
  by (simp add: digit_val_def)

lemma is_digit_digit [simp]: "k < 10 \<Longrightarrow> is_digit (digit k)"
  by (simp add: is_digit_def)

lemma digit_digit_val: "is_digit c \<Longrightarrow> digit (digit_val c) = c"
  by (simp add: is_digit_def digit_def digit_val_def)

definition digits_val :: "string \<Rightarrow> nat" where
  "digits_val s = foldl (\<lambda>a c. 10 * a + digit_val c) 0 s"

lemma digits_val_snoc [simp]: "digits_val (s @ [c]) = 10 * digits_val s + digit_val c"
  by (simp add: digits_val_def)

lemma digits_val_Nil [simp]: "digits_val [] = 0"
  by (simp add: digits_val_def)

section \<open>Decimal numerals\<close>

fun nat_str :: "nat \<Rightarrow> string" where
  "nat_str n = (if n < 10 then [digit n] else nat_str (n div 10) @ [digit (n mod 10)])"

declare nat_str.simps [simp del]

lemma nat_str_small: "n < 10 \<Longrightarrow> nat_str n = [digit n]"
  by (simp add: nat_str.simps)

lemma nat_str_big: "\<not> n < 10 \<Longrightarrow> nat_str n = nat_str (n div 10) @ [digit (n mod 10)]"
  by (subst nat_str.simps) simp

lemma digits_val_nat_str [simp, codec_simps]: "digits_val (nat_str n) = n"
proof (induction n rule: nat_str.induct)
  case (1 n)
  show ?case
  proof (cases "n < 10")
    case True
    then show ?thesis by (simp add: nat_str_small digits_val_def)
  next
    case False
    then show ?thesis using 1 by (simp add: nat_str_big)
  qed
qed

lemma nat_str_not_Nil [simp]: "nat_str n \<noteq> []"
  by (subst nat_str.simps) simp

lemma nat_str_digits [simp]: "list_all is_digit (nat_str n)"
proof (induction n rule: nat_str.induct)
  case (1 n)
  then show ?case by (cases "n < 10") (simp_all add: nat_str_small nat_str_big)
qed

lemma nat_str_inj [simp]: "nat_str m = nat_str n \<longleftrightarrow> m = n"
  by (metis digits_val_nat_str)

lemma nat_str_hd_zero: "hd (nat_str n) = digit 0 \<Longrightarrow> n = 0"
proof (induction n rule: nat_str.induct)
  case (1 n)
  show ?case
  proof (cases "n < 10")
    case True
    with "1.prems" have "digit n = digit 0" by (simp add: nat_str_small)
    then have "digit_val (digit n) = digit_val (digit 0)" by simp
    with True show ?thesis by simp
  next
    case False
    from "1.prems" have "hd (nat_str (n div 10)) = digit 0"
      by (simp only: nat_str_big [OF False] hd_append2 [OF nat_str_not_Nil])
    with "1.IH" False have "n div 10 = 0" by blast
    with False show ?thesis by simp
  qed
qed

definition int_str :: "int \<Rightarrow> string" where
  "int_str i = (if i < 0 then CHR ''-'' # nat_str (nat (- i)) else nat_str (nat i))"

section \<open>Fixed-width fields\<close>

fun digs :: "nat \<Rightarrow> nat \<Rightarrow> string" where
  "digs 0 n = []"
| "digs (Suc k) n = digs k (n div 10) @ [digit (n mod 10)]"

text \<open>Reading \<open>k\<close> digits, and a given character, off the front of a text.\<close>

definition read_digs :: "nat \<Rightarrow> string \<Rightarrow> (nat \<times> string) option" where
  "read_digs k s =
     (if k \<le> length s \<and> list_all is_digit (take k s)
      then Some (digits_val (take k s), drop k s) else None)"

fun read_char :: "char \<Rightarrow> string \<Rightarrow> string option" where
  "read_char c [] = None"
| "read_char c (x # xs) = (if x = c then Some xs else None)"

lemma length_digs [simp]: "length (digs k n) = k"
  by (induction k n rule: digs.induct) simp_all

lemma digs_digits [simp]: "list_all is_digit (digs k n)"
  by (induction k n rule: digs.induct) simp_all

lemma digits_val_digs: "digits_val (digs k n) = n mod 10 ^ k"
proof (induction k n rule: digs.induct)
  case (2 k n)
  have "n mod (10 * 10 ^ k) = 10 * (n div 10 mod 10 ^ k) + n mod 10"
    by (rule mod_mult2_eq)
  with 2 show ?case by simp
qed simp

lemma read_digs_digs [simp, codec_simps]:
  "n < 10 ^ k \<Longrightarrow> read_digs k (digs k n @ rest) = Some (n, rest)"
  by (simp add: read_digs_def digits_val_digs)

section \<open>Splitting and joining\<close>

text \<open>\<open>s.split(c)\<close> for a one-character separator.\<close>

fun split_on :: "char \<Rightarrow> string \<Rightarrow> string list" where
  "split_on c [] = [[]]"
| "split_on c (x # xs) =
     (if x = c then [] # split_on c xs
      else (case split_on c xs of [] \<Rightarrow> [[x]] | y # ys \<Rightarrow> (x # y) # ys))"

lemma split_on_not_Nil [simp]: "split_on c s \<noteq> []"
  by (induction s) (auto split: list.splits)

lemma split_on_free: "c \<notin> set s \<Longrightarrow> split_on c s = [s]"
  by (induction s) auto

lemma split_on_first: "c \<notin> set a \<Longrightarrow> split_on c (a @ c # b) = a # split_on c b"
  by (induction a) auto

section \<open>Text that Redis returns\<close>

text \<open>
  A reply of redis-py is a \<open>str\<close> when the client decodes responses (both clients of the
  repository are built so) and \<open>bytes\<close> otherwise; the transport accepts both. \<open>bytes.decode\<close>
  covers the code points of the model's text; other byte sequences are rejected.
\<close>

datatype rtext = RStr string | RBytes string

fun utf8_decode :: "string \<Rightarrow> string option" where
  "utf8_decode [] = Some []"
| "utf8_decode (b # bs) =
     (if (of_char b :: nat) < 128 then map_option ((#) b) (utf8_decode bs)
      else if of_char b = (194 :: nat) \<or> of_char b = (195 :: nat) then
        (case bs of
           [] \<Rightarrow> None
         | b' # bs' \<Rightarrow>
             if 128 \<le> (of_char b' :: nat) \<and> (of_char b' :: nat) < 192
             then map_option ((#) (char_of ((of_char b - 192) * 64 + (of_char b' - 128 :: nat))))
                    (utf8_decode bs')
             else None)
      else None)"

definition is_ascii :: "string \<Rightarrow> bool" where
  "is_ascii s = list_all (\<lambda>c. (of_char c :: nat) < 128) s"

lemma is_ascii_simps [simp]:
  "is_ascii []"
  "is_ascii (c # s) \<longleftrightarrow> (of_char c :: nat) < 128 \<and> is_ascii s"
  "is_ascii (s @ t) \<longleftrightarrow> is_ascii s \<and> is_ascii t"
  by (simp_all add: is_ascii_def)

lemma utf8_decode_ascii [simp, codec_simps]: "is_ascii s \<Longrightarrow> utf8_decode s = Some s"
  by (induction s) simp_all

lemma is_ascii_digits: "list_all is_digit s \<Longrightarrow> is_ascii s"
  by (induction s) (auto simp: is_digit_def)

lemma is_ascii_nat_str [simp]: "is_ascii (nat_str n)"
  by (rule is_ascii_digits) simp

lemma is_ascii_digs [simp]: "is_ascii (digs k n)"
  by (rule is_ascii_digits) simp

lemma is_ascii_int_str [simp]: "is_ascii (int_str i)"
  by (simp add: int_str_def)

section \<open>Searching\<close>

text \<open>\<open>s.startswith(w)\<close> and \<open>w in s\<close>.\<close>

fun starts_with :: "string \<Rightarrow> string \<Rightarrow> bool" where
  "starts_with [] s = True"
| "starts_with (x # xs) [] = False"
| "starts_with (x # xs) (y # ys) = (x = y \<and> starts_with xs ys)"

fun contains :: "string \<Rightarrow> string \<Rightarrow> bool" where
  "contains w [] = (w = [])"
| "contains w (c # s) = (starts_with w (c # s) \<or> contains w s)"

lemma starts_with_append [simp]: "starts_with w (w @ s)"
  by (induction w) simp_all

lemma contains_append [simp]: "contains w (a @ w @ b)"
proof (induction a)
  case Nil
  show ?case by (cases "w @ b") (auto dest: sym simp del: append_is_Nil_conv)
qed simp

end
