(* ===== verification/Errors.thy ===== *)
theory Errors
  imports PyText Complex_Main
begin

text \<open>
  The exceptions of the program: the four of \<open>relayq/domain/errors.py\<close>, \<open>AdmissionBlocked\<close>
  of \<open>relayq/worker/admission.py\<close>, and the Python and library exceptions the code raises or
  catches by class. An exception carries the attributes its class stores.

  \<open>IllTyped\<close> is not a Python exception. Python checks no field types when it builds a \<open>Job\<close>;
  the model's \<open>Job\<close> is typed, and a field whose JSON value has another type than the dataclass
  declares has this outcome, which no property of the development is about.

  A Python \<open>float\<close> of the program (a delay, a timeout, a clock reading) is a \<open>rat\<close>. How a
  float prints is not part of the model: the messages that contain one take the printing
  function as an argument.
\<close>

datatype exn =
    QueueFull string int int              \<comment> \<open>queue, depth, max_depth\<close>
  | JobTimeout string rat                 \<comment> \<open>job_id, timeout_seconds\<close>
  | CircuitOpen string rat                \<comment> \<open>name, failure_ratio\<close>
  | IdempotencyConflict string            \<comment> \<open>idempotency_key\<close>
  | AdmissionBlocked string string        \<comment> \<open>queue, reason\<close>
  | KeyError string
  | JSONDecodeError
  | ValueError string
  | TypeError string
  | AttributeError string
  | OverflowError
  | UnicodeDecodeError
  | TimeoutError
  | CancelledError
  | IntegrityError string                 \<comment> \<open>sqlite3, a UNIQUE or PRIMARY KEY constraint\<close>
  | OperationalError string               \<comment> \<open>sqlite3, a lock or a transaction state\<close>
  | ResponseError string                  \<comment> \<open>redis, an error reply\<close>
  | ConnectionError string                \<comment> \<open>redis, the server is not reachable\<close>
  | DataError string                      \<comment> \<open>redis, an argument the client refuses\<close>
  | HandlerError string string            \<comment> \<open>class and message of what user code raises\<close>
  | IllTyped string                       \<comment> \<open>a value outside the types of the model\<close>

section \<open>Classes\<close>

text \<open>
  \<open>except Exception\<close> catches everything but \<open>CancelledError\<close>, which derives from
  \<open>BaseException\<close> directly.
\<close>

definition is_exception :: "exn \<Rightarrow> bool" where
  "is_exception e \<longleftrightarrow> e \<noteq> CancelledError"

lemma is_exception_simps [simp]:
  "\<not> is_exception CancelledError"
  "e \<noteq> CancelledError \<Longrightarrow> is_exception e"
  by (simp_all add: is_exception_def)

text \<open>\<open>type(exc).__name__\<close>.\<close>

fun exn_name :: "exn \<Rightarrow> string" where
  "exn_name (QueueFull _ _ _) = ''QueueFull''"
| "exn_name (JobTimeout _ _) = ''JobTimeout''"
| "exn_name (CircuitOpen _ _) = ''CircuitOpen''"
| "exn_name (IdempotencyConflict _) = ''IdempotencyConflict''"
| "exn_name (AdmissionBlocked _ _) = ''AdmissionBlocked''"
| "exn_name (KeyError _) = ''KeyError''"
| "exn_name JSONDecodeError = ''JSONDecodeError''"
| "exn_name (ValueError _) = ''ValueError''"
| "exn_name (TypeError _) = ''TypeError''"
| "exn_name (AttributeError _) = ''AttributeError''"
| "exn_name OverflowError = ''OverflowError''"
| "exn_name UnicodeDecodeError = ''UnicodeDecodeError''"
| "exn_name TimeoutError = ''TimeoutError''"
| "exn_name CancelledError = ''CancelledError''"
| "exn_name (IntegrityError _) = ''IntegrityError''"
| "exn_name (OperationalError _) = ''OperationalError''"
| "exn_name (ResponseError _) = ''ResponseError''"
| "exn_name (ConnectionError _) = ''ConnectionError''"
| "exn_name (DataError _) = ''DataError''"
| "exn_name (HandlerError c _) = c"
| "exn_name (IllTyped _) = ''IllTyped''"

section \<open>Messages\<close>

definition queue_full_msg :: "string \<Rightarrow> int \<Rightarrow> int \<Rightarrow> string" where
  "queue_full_msg q depth max_depth =
     ''queue '' @ [CHR 39] @ q @ [CHR 39] @ '' at capacity '' @
     int_str depth @ ''/'' @ int_str max_depth"

definition job_timeout_msg :: "(rat \<Rightarrow> string) \<Rightarrow> string \<Rightarrow> rat \<Rightarrow> string" where
  "job_timeout_msg show_float job_id timeout_seconds =
     ''job '' @ [CHR 39] @ job_id @ [CHR 39] @ '' timed out after '' @
     show_float timeout_seconds @ ''s''"

definition circuit_open_msg :: "(rat \<Rightarrow> string) \<Rightarrow> string \<Rightarrow> rat \<Rightarrow> string" where
  "circuit_open_msg show_ratio name failure_ratio =
     ''circuit breaker open for '' @ [CHR 39] @ name @ [CHR 39] @
     '' (failure ratio '' @ show_ratio failure_ratio @ '')''"

definition idempotency_msg :: "string \<Rightarrow> string" where
  "idempotency_msg key =
     ''idempotency key '' @ [CHR 39] @ key @ [CHR 39] @ '' already exists''"

definition admission_msg :: "string \<Rightarrow> string \<Rightarrow> string" where
  "admission_msg q reason =
     ''Admission blocked for queue '' @ [CHR 39] @ q @ [CHR 39] @ '': '' @ reason"

text \<open>
  \<open>str(exc)\<close>. The library exceptions print the message they were built with; the two without
  an attribute of the model (\<open>JSONDecodeError\<close>, \<open>UnicodeDecodeError\<close>) print positions the
  model does not keep, and never reach a message of the program.
\<close>

fun exn_str :: "(rat \<Rightarrow> string) \<Rightarrow> exn \<Rightarrow> string" where
  "exn_str sf (QueueFull q d m) = queue_full_msg q d m"
| "exn_str sf (JobTimeout j t) = job_timeout_msg sf j t"
| "exn_str sf (CircuitOpen n r) = circuit_open_msg sf n r"
| "exn_str sf (IdempotencyConflict k) = idempotency_msg k"
| "exn_str sf (AdmissionBlocked q r) = admission_msg q r"
| "exn_str sf (KeyError k) = [CHR 39] @ k @ [CHR 39]"
| "exn_str sf (ValueError m) = m"
| "exn_str sf (TypeError m) = m"
| "exn_str sf (AttributeError m) = m"
| "exn_str sf (IntegrityError m) = m"
| "exn_str sf (OperationalError m) = m"
| "exn_str sf (ResponseError m) = m"
| "exn_str sf (ConnectionError m) = m"
| "exn_str sf (DataError m) = m"
| "exn_str sf (HandlerError c m) = m"
| "exn_str sf _ = []"

end
