(* ===== verification/PyTime.thy ===== *)
theory PyTime
  imports PyText
begin

text \<open>
  The \<open>datetime\<close> values the program stores and prints: \<open>isoformat\<close> and its inverse
  \<open>fromisoformat\<close>, for naive times and for times with an offset of whole minutes. The parser
  accepts the format \<open>isoformat\<close> prints and checks the ranges the \<open>datetime\<close> constructor
  checks; the other ISO 8601 spellings that Python also accepts are rejected, since nothing in
  the repository writes them.
\<close>

record py_datetime =
  year :: nat
  month :: nat
  day :: nat
  hour :: nat
  minute :: nat
  second :: nat
  microsecond :: nat
  utcoffset :: "int option"  \<comment> \<open>in minutes; None for a naive time\<close>

definition is_leap :: "nat \<Rightarrow> bool" where
  "is_leap y \<longleftrightarrow> y mod 4 = 0 \<and> (y mod 100 \<noteq> 0 \<or> y mod 400 = 0)"

definition days_in_month :: "nat \<Rightarrow> nat \<Rightarrow> nat" where
  "days_in_month y m =
     (if m = 2 then (if is_leap y then 29 else 28)
      else if m \<in> {4, 6, 9, 11} then 30 else 31)"

definition valid_offset :: "int option \<Rightarrow> bool" where
  "valid_offset z = (case z of None \<Rightarrow> True | Some off \<Rightarrow> - 1440 < off \<and> off < 1440)"

definition valid_datetime :: "py_datetime \<Rightarrow> bool" where
  "valid_datetime t \<longleftrightarrow>
     1 \<le> year t \<and> year t \<le> 9999 \<and> 1 \<le> month t \<and> month t \<le> 12 \<and>
     1 \<le> day t \<and> day t \<le> days_in_month (year t) (month t) \<and>
     hour t < 24 \<and> minute t < 60 \<and> second t < 60 \<and> microsecond t < 1000000 \<and>
     valid_offset (utcoffset t)"

text \<open>\<open>FakeClock.BASE_TIME\<close>, midnight UTC of the first of January 2025.\<close>

definition base_time :: py_datetime where
  "base_time = \<lparr>year = 2025, month = 1, day = 1, hour = 0, minute = 0, second = 0,
     microsecond = 0, utcoffset = Some 0\<rparr>"

section \<open>Printing\<close>

definition iso_offset :: "int option \<Rightarrow> string" where
  "iso_offset z = (case z of None \<Rightarrow> [] | Some off \<Rightarrow>
     (if off < 0 then CHR ''-'' else CHR ''+'') #
     digs 2 (nat \<bar>off\<bar> div 60) @ CHR '':'' # digs 2 (nat \<bar>off\<bar> mod 60))"

definition iso_micro :: "nat \<Rightarrow> string" where
  "iso_micro us = (if us = 0 then [] else CHR ''.'' # digs 6 us)"

definition isoformat :: "py_datetime \<Rightarrow> string" where
  "isoformat t =
     digs 4 (year t) @ CHR ''-'' # digs 2 (month t) @ CHR ''-'' # digs 2 (day t) @
     CHR ''T'' # digs 2 (hour t) @ CHR '':'' # digs 2 (minute t) @ CHR '':'' #
     digs 2 (second t) @ iso_micro (microsecond t) @ iso_offset (utcoffset t)"

section \<open>Parsing\<close>

definition parse_offset :: "string \<Rightarrow> int option option" where
  "parse_offset s = (case s of [] \<Rightarrow> Some None | c # r \<Rightarrow>
     if c = CHR ''+'' \<or> c = CHR ''-'' then
       Option.bind (read_digs 2 r) (\<lambda>(h, r).
       Option.bind (read_char CHR '':'' r) (\<lambda>r.
       Option.bind (read_digs 2 r) (\<lambda>(m, r).
         if r = [] \<and> m < 60
         then Some (Some (if c = CHR ''-'' then - int (h * 60 + m) else int (h * 60 + m)))
         else None)))
     else None)"

definition parse_micro :: "string \<Rightarrow> (nat \<times> string) option" where
  "parse_micro s = (case s of [] \<Rightarrow> Some (0, []) | c # r \<Rightarrow>
     if c = CHR ''.'' then read_digs 6 r else Some (0, s))"

definition fromisoformat :: "string \<Rightarrow> py_datetime option" where
  "fromisoformat s =
     Option.bind (read_digs 4 s) (\<lambda>(y, s).
     Option.bind (read_char CHR ''-'' s) (\<lambda>s.
     Option.bind (read_digs 2 s) (\<lambda>(mo, s).
     Option.bind (read_char CHR ''-'' s) (\<lambda>s.
     Option.bind (read_digs 2 s) (\<lambda>(d, s).
     Option.bind (read_char CHR ''T'' s) (\<lambda>s.
     Option.bind (read_digs 2 s) (\<lambda>(h, s).
     Option.bind (read_char CHR '':'' s) (\<lambda>s.
     Option.bind (read_digs 2 s) (\<lambda>(mi, s).
     Option.bind (read_char CHR '':'' s) (\<lambda>s.
     Option.bind (read_digs 2 s) (\<lambda>(sec, s).
     Option.bind (parse_micro s) (\<lambda>(us, s).
     Option.bind (parse_offset s) (\<lambda>z.
       let t = \<lparr>year = y, month = mo, day = d, hour = h, minute = mi, second = sec,
                microsecond = us, utcoffset = z\<rparr>
       in if valid_datetime t then Some t else None)))))))))))))"

section \<open>The round trip\<close>

lemma days_in_month_le: "days_in_month y m \<le> 31"
  by (simp add: days_in_month_def)

lemma parse_offset_iso [simp, codec_simps]:
  assumes "valid_offset z"
  shows "parse_offset (iso_offset z) = Some z"
proof (cases z)
  case (Some off)
  with assms have "nat \<bar>off\<bar> div 60 < 100" "nat \<bar>off\<bar> mod 60 < 100"
    by (auto simp: valid_offset_def)
  moreover have "(nat \<bar>off\<bar> div 60) * 60 + nat \<bar>off\<bar> mod 60 = nat \<bar>off\<bar>"
    by simp
  ultimately show ?thesis
    using Some read_digs_digs [of "nat \<bar>off\<bar> mod 60" 2 "[]"]
    by (simp add: parse_offset_def iso_offset_def del: read_digs_digs add: read_digs_digs [of _ 2])
qed (simp add: parse_offset_def iso_offset_def)

lemma iso_offset_no_dot: "\<exists>c r. iso_offset z = [] \<or> iso_offset z = c # r \<and> c \<noteq> CHR ''.''"
  by (auto simp: iso_offset_def split: option.splits)

lemma parse_micro_iso [simp, codec_simps]:
  assumes "us < 1000000"
  shows "parse_micro (iso_micro us @ iso_offset z) = Some (us, iso_offset z)"
  using assms iso_offset_no_dot [of z]
  by (auto simp: parse_micro_def iso_micro_def split: list.splits)

lemma fromisoformat_isoformat [simp, codec_simps]:
  assumes "valid_datetime t"
  shows "fromisoformat (isoformat t) = Some t"
proof -
  have "day t \<le> 31" using assms days_in_month_le order_trans
    by (fastforce simp: valid_datetime_def)
  with assms show ?thesis
    by (simp add: fromisoformat_def isoformat_def valid_datetime_def)
qed

lemma is_ascii_isoformat [simp]: "is_ascii (isoformat t)"
  by (simp add: isoformat_def iso_micro_def iso_offset_def split: option.split)

lemma valid_base_time [simp]: "valid_datetime base_time"
  by (simp add: valid_datetime_def base_time_def days_in_month_def valid_offset_def)

end
