(* ===== verification/Codec.thy ===== *)
theory Codec
  imports Errors
begin

text \<open>
  The interface of everything that writes a value in one representation and reads it back: an
  encoder and a decoder, both of which may raise, with the law that decoding undoes encoding on
  the values that satisfy \<open>ok\<close>. Codecs compose: the text of a job is the JSON text of its dict.
\<close>

locale codec =
  fixes enc :: "'a \<Rightarrow> exn + 'b"
    and dec :: "'b \<Rightarrow> exn + 'a"
    and ok :: "'a \<Rightarrow> bool"
  assumes round: "ok a \<Longrightarrow> res_bind (enc a) dec = Inr a"
begin

lemma encodes:
  assumes "ok a"
  obtains b where "enc a = Inr b" "dec b = Inr a"
  using round [OF assms] by (auto simp: res_bind_Inr_conv)

lemma dec_enc: "ok a \<Longrightarrow> enc a = Inr b \<Longrightarrow> dec b = Inr a"
  using round by force

lemma enc_inj: "ok a \<Longrightarrow> ok a' \<Longrightarrow> enc a = enc a' \<Longrightarrow> a = a'"
  by (metis encodes dec_enc sum.inject(2))

text \<open>Reading a batch: every value that was written is read back, in order.\<close>

lemma dec_batch:
  assumes "list_all2 (\<lambda>a b. ok a \<and> enc a = Inr b) xs ys"
  shows "map dec ys = map Inr xs"
  using assms by (induction rule: list_all2_induct) (auto simp: dec_enc)

end

locale codec_pair =
  outer: codec enc1 dec1 ok1 + inner: codec enc2 dec2 ok2
  for enc1 :: "'a \<Rightarrow> exn + 'b" and dec1 ok1
    and enc2 :: "'b \<Rightarrow> exn + 'c" and dec2 ok2 +
  assumes ok_through: "ok1 a \<Longrightarrow> enc1 a = Inr b \<Longrightarrow> ok2 b"

sublocale codec_pair \<subseteq> both: codec
  "\<lambda>a. res_bind (enc1 a) enc2" "\<lambda>c. res_bind (dec2 c) dec1" ok1
proof
  fix a assume ok: "ok1 a"
  then obtain b where b: "enc1 a = Inr b" "dec1 b = Inr a" by (rule outer.encodes)
  with ok have "ok2 b" using ok_through by blast
  then obtain c where "enc2 b = Inr c" "dec2 c = Inr b" by (rule inner.encodes)
  with b show "res_bind (res_bind (enc1 a) enc2) (\<lambda>c. res_bind (dec2 c) dec1) = Inr a"
    by simp
qed

end
