(* ===== verification/Json.thy ===== *)
theory Json
  imports Codec
begin

text \<open>
  The JSON values RelayQ moves around and the two standard-library calls it makes on them:
  \<open>json.dumps\<close> (default separators, \<open>ensure_ascii\<close>) and \<open>json.loads\<close>. Every value of the model
  is serialisable, so the \<open>default=str\<close> hook is never called. An object is the list of its
  members in order; a well-formed one has distinct keys, as a \<open>dict\<close> has. A float is kept as
  its token (the text Python prints for it). The parser is written with fuel, one unit per
  nested call; \<open>loads\<close> gives it one more than twice the length of the text, and
  \<open>pvalue_more_fuel\<close> shows that more never changes the answer. An escape of a code point
  above 255 is rejected.
\<close>

datatype json =
    JNull
  | JBool bool
  | JInt int
  | JFloat string
  | JStr string
  | JList "json list"
  | JObj "(string \<times> json) list"

section \<open>Numbers\<close>

text \<open>The characters a number token is made of, and the two shapes of token.\<close>

definition is_numchar :: "char \<Rightarrow> bool" where
  "is_numchar c \<longleftrightarrow> is_digit c \<or> c \<in> {CHR ''-'', CHR ''+'', CHR ''.'', CHR ''e'', CHR ''E''}"

definition strip_minus :: "string \<Rightarrow> bool \<times> string" where
  "strip_minus s = (case s of [] \<Rightarrow> (False, []) | c # r \<Rightarrow>
     if c = CHR ''-'' then (True, r) else (False, s))"

definition is_nat_token :: "string \<Rightarrow> bool" where
  "is_nat_token s \<longleftrightarrow>
     s \<noteq> [] \<and> list_all is_digit s \<and> (hd s = CHR ''0'' \<longrightarrow> length s = 1)"

definition int_token :: "string \<Rightarrow> int option" where
  "int_token s = (case strip_minus s of (neg, r) \<Rightarrow>
     if is_nat_token r then Some (if neg then - int (digits_val r) else int (digits_val r))
     else None)"

definition is_exp :: "string \<Rightarrow> bool" where
  "is_exp s = (case s of [] \<Rightarrow> False | c # r \<Rightarrow>
     (c = CHR ''e'' \<or> c = CHR ''E'') \<and>
     (let d = (case r of [] \<Rightarrow> [] | x # xs \<Rightarrow> if x = CHR ''+'' \<or> x = CHR ''-'' then xs else r)
      in d \<noteq> [] \<and> list_all is_digit d))"

definition is_float_token :: "string \<Rightarrow> bool" where
  "is_float_token s = (case strip_minus s of (neg, r) \<Rightarrow>
     is_nat_token (takeWhile is_digit r) \<and>
     (case dropWhile is_digit r of [] \<Rightarrow> False | c # r' \<Rightarrow>
        if c = CHR ''.'' then
          takeWhile is_digit r' \<noteq> [] \<and>
          (dropWhile is_digit r' = [] \<or> is_exp (dropWhile is_digit r'))
        else is_exp (c # r')))"

definition float_word :: "string \<Rightarrow> bool" where
  "float_word s \<longleftrightarrow> s \<in> {''NaN'', ''Infinity'', ''-Infinity''}"

definition pnumber :: "string \<Rightarrow> (json \<times> string) option" where
  "pnumber s =
     (let tok = takeWhile is_numchar s; rest = dropWhile is_numchar s
      in case int_token tok of
           Some i \<Rightarrow> Some (JInt i, rest)
         | None \<Rightarrow> if is_float_token tok then Some (JFloat tok, rest) else None)"

section \<open>Strings\<close>

definition hexdig :: "nat \<Rightarrow> char" where
  "hexdig k = (if k < 10 then char_of (48 + k) else char_of (87 + k))"

definition hexval :: "char \<Rightarrow> nat option" where
  "hexval c = (let n = (of_char c :: nat) in
     if 48 \<le> n \<and> n \<le> 57 then Some (n - 48)
     else if 97 \<le> n \<and> n \<le> 102 then Some (n - 87)
     else if 65 \<le> n \<and> n \<le> 70 then Some (n - 55)
     else None)"

definition esc :: "char \<Rightarrow> string" where
  "esc c =
     (if c = CHR 34 then [CHR 92, CHR 34]
      else if c = CHR 92 then [CHR 92, CHR 92]
      else if c = CHR 10 then [CHR 92, CHR ''n'']
      else if c = CHR 13 then [CHR 92, CHR ''r'']
      else if c = CHR 9 then [CHR 92, CHR ''t'']
      else if c = CHR 12 then [CHR 92, CHR ''f'']
      else if c = CHR 8 then [CHR 92, CHR ''b'']
      else if 32 \<le> (of_char c :: nat) \<and> (of_char c :: nat) \<le> 126 then [c]
      else [CHR 92, CHR ''u'', CHR ''0'', CHR ''0'',
            hexdig (of_char c div 16), hexdig (of_char c mod 16)])"

definition quoted :: "string \<Rightarrow> string" where
  "quoted s = CHR 34 # concat (map esc s) @ [CHR 34]"

definition simple_esc :: "char \<Rightarrow> char option" where
  "simple_esc e =
     (if e = CHR 34 then Some (CHR 34)
      else if e = CHR 92 then Some (CHR 92)
      else if e = CHR ''/'' then Some (CHR ''/'')
      else if e = CHR ''b'' then Some (CHR 8)
      else if e = CHR ''f'' then Some (CHR 12)
      else if e = CHR ''n'' then Some (CHR 10)
      else if e = CHR ''r'' then Some (CHR 13)
      else if e = CHR ''t'' then Some (CHR 9)
      else None)"

definition hex4 :: "string \<Rightarrow> char option" where
  "hex4 s = (case map hexval s of
     [Some a, Some b, Some c, Some d] \<Rightarrow>
       if a = 0 \<and> b = 0 then Some (char_of (16 * c + d)) else None
   | _ \<Rightarrow> None)"

text \<open>\<open>pstring\<close> reads the rest of a string literal, after its opening quote.\<close>

function pstring :: "string \<Rightarrow> (string \<times> string) option" where
  "pstring s = (case s of
     [] \<Rightarrow> None
   | c # r \<Rightarrow>
       if c = CHR 34 then Some ([], r)
       else if c = CHR 92 then
         (case r of
            [] \<Rightarrow> None
          | e # r' \<Rightarrow>
              if e = CHR ''u'' then
                (case hex4 (take 4 r') of
                   None \<Rightarrow> None
                 | Some x \<Rightarrow> map_option (\<lambda>(t, q). (x # t, q)) (pstring (drop 4 r')))
              else
                (case simple_esc e of
                   None \<Rightarrow> None
                 | Some x \<Rightarrow> map_option (\<lambda>(t, q). (x # t, q)) (pstring r')))
       else if (of_char c :: nat) < 32 then None
       else map_option (\<lambda>(t, q). (c # t, q)) (pstring r))"
  by pat_completeness auto
termination
  by (relation "measure length") auto

declare pstring.simps [simp del]

section \<open>Printing\<close>

fun dumps :: "json \<Rightarrow> string"
  and dumps_items :: "json list \<Rightarrow> string"
  and dumps_members :: "(string \<times> json) list \<Rightarrow> string" where
  "dumps JNull = ''null''"
| "dumps (JBool b) = (if b then ''true'' else ''false'')"
| "dumps (JInt i) = int_str i"
| "dumps (JFloat t) = t"
| "dumps (JStr s) = quoted s"
| "dumps (JList vs) = CHR ''['' # dumps_items vs @ [CHR '']'']"
| "dumps (JObj ms) = CHR ''{'' # dumps_members ms @ [CHR ''}'']"
| "dumps_items [] = []"
| "dumps_items [v] = dumps v"
| "dumps_items (v # w # vs) = dumps v @ '', '' @ dumps_items (w # vs)"
| "dumps_members [] = []"
| "dumps_members [(k, v)] = quoted k @ '': '' @ dumps v"
| "dumps_members ((k, v) # m # ms) = quoted k @ '': '' @ dumps v @ '', '' @ dumps_members (m # ms)"

section \<open>Parsing\<close>

definition is_ws :: "char \<Rightarrow> bool" where
  "is_ws c \<longleftrightarrow> c \<in> {CHR '' '', CHR 9, CHR 10, CHR 13}"

definition skip_ws :: "string \<Rightarrow> string" where
  "skip_ws s = dropWhile is_ws s"

fun strip_word :: "string \<Rightarrow> string \<Rightarrow> string option" where
  "strip_word [] s = Some s"
| "strip_word (x # xs) [] = None"
| "strip_word (x # xs) (y # ys) = (if x = y then strip_word xs ys else None)"

text \<open>The values that are a fixed word, else a number.\<close>

definition words :: "(string \<times> json) list" where
  "words = [(''null'', JNull), (''true'', JBool True), (''false'', JBool False),
     (''NaN'', JFloat ''NaN''), (''Infinity'', JFloat ''Infinity''),
     (''-Infinity'', JFloat ''-Infinity'')]"

fun pword :: "(string \<times> json) list \<Rightarrow> string \<Rightarrow> (json \<times> string) option" where
  "pword [] s = pnumber s"
| "pword ((w, v) # ws) s = (case strip_word w s of Some r \<Rightarrow> Some (v, r) | None \<Rightarrow> pword ws s)"

definition patom :: "string \<Rightarrow> (json \<times> string) option" where
  "patom s = pword words s"

text \<open>
  \<open>pitems\<close> reads a nonempty array after its bracket, \<open>pmembers\<close> a nonempty object after its
  brace, each up to and including the closing character.
\<close>

fun pvalue :: "nat \<Rightarrow> string \<Rightarrow> (json \<times> string) option"
  and pitems :: "nat \<Rightarrow> string \<Rightarrow> (json list \<times> string) option"
  and pmembers :: "nat \<Rightarrow> string \<Rightarrow> ((string \<times> json) list \<times> string) option" where
  "pvalue 0 s = None"
| "pvalue (Suc n) s =
     (case s of
        [] \<Rightarrow> None
      | c # r \<Rightarrow>
          if c = CHR 34 then map_option (\<lambda>(t, q). (JStr t, q)) (pstring r)
          else if c = CHR ''['' then
            (case read_char (CHR '']'') (skip_ws r) of
               Some q \<Rightarrow> Some (JList [], q)
             | None \<Rightarrow> map_option (\<lambda>(vs, q). (JList vs, q)) (pitems n (skip_ws r)))
          else if c = CHR ''{'' then
            (case read_char (CHR ''}'') (skip_ws r) of
               Some q \<Rightarrow> Some (JObj [], q)
             | None \<Rightarrow> map_option (\<lambda>(ms, q). (JObj (dict_of ms), q)) (pmembers n (skip_ws r)))
          else patom s)"
| "pitems 0 s = None"
| "pitems (Suc n) s =
     (case pvalue n s of
        None \<Rightarrow> None
      | Some (v, r) \<Rightarrow>
          (case skip_ws r of
             [] \<Rightarrow> None
           | c # r' \<Rightarrow>
               if c = CHR '']'' then Some ([v], r')
               else if c = CHR '','' then
                 map_option (\<lambda>(vs, q). (v # vs, q)) (pitems n (skip_ws r'))
               else None))"
| "pmembers 0 s = None"
| "pmembers (Suc n) s =
     (case read_char (CHR 34) s of
        None \<Rightarrow> None
      | Some s1 \<Rightarrow>
     (case pstring s1 of
        None \<Rightarrow> None
      | Some (k, s2) \<Rightarrow>
     (case read_char (CHR '':'') (skip_ws s2) of
        None \<Rightarrow> None
      | Some s3 \<Rightarrow>
     (case pvalue n (skip_ws s3) of
        None \<Rightarrow> None
      | Some (v, r) \<Rightarrow>
          (case skip_ws r of
             [] \<Rightarrow> None
           | c # r' \<Rightarrow>
               if c = CHR ''}'' then Some ([(k, v)], r')
               else if c = CHR '','' then
                 map_option (\<lambda>(ms, q). ((k, v) # ms, q)) (pmembers n (skip_ws r'))
               else None)))))"

text \<open>\<open>json.loads\<close>: one value, with white space around it; None is \<open>JSONDecodeError\<close>.\<close>

definition loads :: "string \<Rightarrow> json option" where
  "loads s = (case pvalue (2 * length s + 1) (skip_ws s) of
     None \<Rightarrow> None
   | Some (v, r) \<Rightarrow> if skip_ws r = [] then Some v else None)"

section \<open>Well-formed values\<close>

fun wf_json :: "json \<Rightarrow> bool" where
  "wf_json (JFloat t) \<longleftrightarrow> list_all is_numchar t \<and> is_float_token t \<or> float_word t"
| "wf_json (JList vs) \<longleftrightarrow> list_all wf_json vs"
| "wf_json (JObj ms) \<longleftrightarrow> distinct (map fst ms) \<and> list_all (\<lambda>kv. wf_json (snd kv)) ms"
| "wf_json _ \<longleftrightarrow> True"

section \<open>Reading back a string literal\<close>

lemma hexval_hexdig [simp]: "k < 16 \<Longrightarrow> hexval (hexdig k) = Some k"
  by (simp add: hexval_def hexdig_def Let_def)

lemma of_char_div_16 [simp]: "(of_char c :: nat) div 16 < 16"
  using nat_of_char_less_256 [of c] by (simp add: less_mult_imp_div_less)

lemma hex4_esc:
  "hex4 [CHR ''0'', CHR ''0'', hexdig (of_char c div 16), hexdig (of_char c mod 16)] = Some c"
proof -
  have "hexval (CHR ''0'') = Some 0" by (simp add: hexval_def)
  then show ?thesis by (simp add: hex4_def)
qed

lemma pstring_esc:
  "pstring (esc c @ s) = map_option (\<lambda>(t, q). (c # t, q)) (pstring s)"
  by (subst pstring.simps) (auto simp: esc_def simple_esc_def hex4_esc)

lemma pstring_quoted: "pstring (concat (map esc s) @ CHR 34 # rest) = Some (s, rest)"
proof (induction s)
  case Nil
  show ?case by (subst pstring.simps) simp
next
  case (Cons c s)
  then show ?case by (simp add: pstring_esc)
qed

section \<open>Reading back a number or a word\<close>

text \<open>What may follow a value: nothing, or a character no number token contains.\<close>

definition stops :: "string \<Rightarrow> bool" where
  "stops rest = (case rest of [] \<Rightarrow> True | c # _ \<Rightarrow> \<not> is_numchar c)"

definition num_start :: "string \<Rightarrow> bool" where
  "num_start s = (case strip_minus s of (neg, r) \<Rightarrow> r \<noteq> [] \<and> is_digit (hd r))"

lemma is_digit_not [simp]:
  "\<not> is_digit (CHR ''-'')" "\<not> is_digit (CHR ''n'')" "\<not> is_digit (CHR ''t'')"
  "\<not> is_digit (CHR ''f'')" "\<not> is_digit (CHR ''N'')" "\<not> is_digit (CHR ''I'')"
  "\<not> is_digit (CHR 34)" "\<not> is_digit (CHR ''['')" "\<not> is_digit (CHR ''{'')"
  "\<not> is_digit (CHR '']'')" "\<not> is_digit (CHR ''}'')" "\<not> is_digit (CHR '' '')"
  "\<not> is_digit (CHR 9)" "\<not> is_digit (CHR 10)" "\<not> is_digit (CHR 13)"
  by (simp_all add: is_digit_def)

lemma pword_skip:
  "strip_word w s = None \<Longrightarrow> pword ((w, v) # ws) s = pword ws s"
  by simp

lemma patom_digit:
  assumes "is_digit c"
  shows "patom (c # s) = pnumber (c # s)"
proof -
  have "c \<noteq> CHR ''n''" "c \<noteq> CHR ''t''" "c \<noteq> CHR ''f''" "c \<noteq> CHR ''N''" "c \<noteq> CHR ''I''"
    "c \<noteq> CHR ''-''"
    using assms by auto
  then show ?thesis by (simp add: patom_def words_def)
qed

lemma patom_minus_digit:
  assumes "is_digit d"
  shows "patom (CHR ''-'' # d # s) = pnumber (CHR ''-'' # d # s)"
proof -
  have "d \<noteq> CHR ''I''" using assms by auto
  then show ?thesis by (simp add: patom_def words_def)
qed

lemma num_start_pword:
  assumes "num_start s"
  shows "patom (s @ rest) = pnumber (s @ rest)"
proof (cases s)
  case (Cons c r)
  show ?thesis
  proof (cases "c = CHR ''-''")
    case True
    with assms Cons obtain d r' where "r = d # r'" "is_digit d"
      by (cases r) (auto simp: num_start_def strip_minus_def)
    with True Cons show ?thesis by (simp add: patom_minus_digit)
  next
    case False
    with assms Cons have "is_digit c" by (simp add: num_start_def strip_minus_def)
    with Cons show ?thesis by (simp add: patom_digit)
  qed
qed (use assms in \<open>simp add: num_start_def strip_minus_def\<close>)

lemma pnumber_token:
  assumes "list_all is_numchar t" "stops rest"
  shows "pnumber (t @ rest) = (case int_token t of Some i \<Rightarrow> Some (JInt i, rest)
    | None \<Rightarrow> if is_float_token t then Some (JFloat t, rest) else None)"
  using assms takeWhile_append_stop [of is_numchar t rest]
    dropWhile_append_stop [of is_numchar t rest]
  by (simp add: pnumber_def stops_def Let_def)

lemma digits_numchars: "list_all is_digit s \<Longrightarrow> list_all is_numchar s"
  by (induction s) (auto simp: is_numchar_def)

lemma digit_0: "digit 0 = CHR ''0''"
  using digit_digit_val [of "CHR ''0''"] by (simp add: is_digit_def digit_val_def)

lemma nat_str_token: "is_nat_token (nat_str n)"
proof -
  have "length (nat_str n) = 1" if "hd (nat_str n) = CHR ''0''"
  proof -
    from that have "hd (nat_str n) = digit 0" by (simp add: digit_0)
    then have "n = 0" by (rule nat_str_hd_zero)
    then show ?thesis by (simp add: nat_str_small)
  qed
  then show ?thesis by (simp add: is_nat_token_def)
qed

lemma nat_str_hd_digit: "is_digit (hd (nat_str n))"
  using nat_str_digits [of n] nat_str_not_Nil [of n] by (cases "nat_str n") simp_all

lemma strip_minus_nat_str [simp]: "strip_minus (nat_str n) = (False, nat_str n)"
  using nat_str_hd_digit [of n] nat_str_not_Nil [of n]
  by (cases "nat_str n") (auto simp: strip_minus_def)

lemma strip_minus_int_str:
  "strip_minus (int_str i) = (i < 0, nat_str (nat \<bar>i\<bar>))"
  by (auto simp: int_str_def strip_minus_def [of "_ # _"])

lemma int_token_int_str: "int_token (int_str i) = Some i"
  by (auto simp: int_token_def strip_minus_int_str nat_str_token)

lemma int_str_numchars: "list_all is_numchar (int_str i)"
  by (auto simp: int_str_def digits_numchars is_numchar_def [of "CHR ''-''"])

lemma num_start_int_str: "num_start (int_str i)"
  by (simp add: num_start_def strip_minus_int_str nat_str_hd_digit)

lemma num_start_float: "is_float_token t \<Longrightarrow> num_start t"
proof (cases "strip_minus t")
  case (Pair neg r)
  assume "is_float_token t"
  with Pair have "takeWhile is_digit r \<noteq> []"
    by (simp add: is_float_token_def is_nat_token_def)
  with Pair show ?thesis by (cases r) (auto simp: num_start_def split: if_splits)
qed

lemma float_not_int: "is_float_token t \<Longrightarrow> int_token t = None"
proof (cases "strip_minus t")
  case (Pair neg r)
  assume "is_float_token t"
  with Pair have "\<not> list_all is_digit r"
    using dropWhile_eq_Nil_conv [of is_digit r]
    by (cases "dropWhile is_digit r") (simp_all add: is_float_token_def list_all_iff)
  with Pair show ?thesis by (simp add: int_token_def is_nat_token_def)
qed

lemma strip_word_self [simp]: "strip_word w (w @ r) = Some r"
  by (induction w) simp_all

lemma patom_float_word: "float_word t \<Longrightarrow> patom (t @ rest) = Some (JFloat t, rest)"
  by (auto simp: float_word_def patom_def words_def)

lemma patom_int: "stops rest \<Longrightarrow> patom (int_str i @ rest) = Some (JInt i, rest)"
  by (simp add: num_start_pword num_start_int_str pnumber_token int_str_numchars
    int_token_int_str)

lemma patom_float:
  "stops rest \<Longrightarrow> wf_json (JFloat t) \<Longrightarrow> patom (t @ rest) = Some (JFloat t, rest)"
  using patom_float_word [of t rest]
  by (auto simp: num_start_pword num_start_float pnumber_token float_not_int)

section \<open>The round trip\<close>

definition json_start :: "char \<Rightarrow> bool" where
  "json_start c \<longleftrightarrow> \<not> is_ws c \<and> c \<noteq> CHR '']'' \<and> c \<noteq> CHR ''}''"

lemma digit_json_start: "is_digit c \<Longrightarrow> json_start c"
  by (auto simp: json_start_def is_ws_def)

lemma minus_json_start: "json_start (CHR ''-'')"
  by (simp add: json_start_def is_ws_def)

lemma char_neqs:
  "CHR ''-'' \<noteq> CHR 34" "CHR ''-'' \<noteq> CHR ''[''" "CHR ''-'' \<noteq> CHR ''{''"
  by simp_all

lemma num_start_cons:
  assumes "num_start s"
  obtains c r where "s = c # r" "json_start c" "c \<noteq> CHR 34" "c \<noteq> CHR ''[''" "c \<noteq> CHR ''{''"
proof (cases s)
  case (Cons c r)
  with assms have "c = CHR ''-'' \<or> is_digit c"
    by (auto simp: num_start_def strip_minus_def split: if_splits)
  with Cons that show ?thesis
    by (metis digit_json_start is_digit_not(7-9) minus_json_start char_neqs)
qed (use assms in \<open>simp add: num_start_def strip_minus_def\<close>)

lemma float_cons:
  assumes "wf_json (JFloat t)"
  obtains c r where "t = c # r" "json_start c" "c \<noteq> CHR 34" "c \<noteq> CHR ''[''" "c \<noteq> CHR ''{''"
proof (cases "float_word t")
  case True
  with that show ?thesis by (auto simp: float_word_def json_start_def is_ws_def)
next
  case False
  with assms have "num_start t" by (simp add: num_start_float)
  with that show ?thesis by (metis num_start_cons)
qed

lemma dumps_cons: "wf_json v \<Longrightarrow> \<exists>c r. dumps v = c # r \<and> json_start c"
proof (cases v)
  case (JInt i)
  then show ?thesis using num_start_cons [OF num_start_int_str] by (metis dumps.simps(3))
next
  case (JFloat t)
  then show "wf_json v \<Longrightarrow> ?thesis" using float_cons by (metis dumps.simps(4))
qed (auto simp: json_start_def is_ws_def quoted_def)

lemma skip_ws_simps [simp]:
  "skip_ws [] = []"
  "skip_ws (CHR '' '' # s) = skip_ws s"
  "json_start c \<Longrightarrow> skip_ws (c # s) = c # s"
  "skip_ws (CHR '']'' # s) = CHR '']'' # s"
  "skip_ws (CHR ''}'' # s) = CHR ''}'' # s"
  "skip_ws (CHR '','' # s) = CHR '','' # s"
  "skip_ws (CHR '':'' # s) = CHR '':'' # s"
  "skip_ws (CHR 34 # s) = CHR 34 # s"
  by (simp_all add: skip_ws_def is_ws_def json_start_def)

lemma skip_ws_dumps: "wf_json v \<Longrightarrow> skip_ws (dumps v @ s) = dumps v @ s"
  using dumps_cons [of v] by auto

lemma stops_simps [simp]:
  "stops []" "stops (CHR '']'' # s)" "stops (CHR ''}'' # s)" "stops (CHR '','' # s)"
  by (simp_all add: stops_def is_numchar_def is_digit_def)

lemma pvalue_atom:
  assumes "t = c # r" "c \<noteq> CHR 34" "c \<noteq> CHR ''[''" "c \<noteq> CHR ''{''" "n = Suc m"
  shows "pvalue n (t @ rest) = patom (t @ rest)"
  using assms by simp

lemma dumps_items_cons:
  "list_all wf_json (v # vs) \<Longrightarrow> \<exists>c r. dumps_items (v # vs) = c # r \<and> json_start c"
  using dumps_cons [of v] by (cases vs) auto

lemma dumps_members_cons: "\<exists>r. dumps_members (m # ms) = CHR 34 # r"
  by (cases m; cases ms) (simp_all add: quoted_def)

lemma parse_dumps:
  "wf_json v \<Longrightarrow> stops rest \<Longrightarrow> length (dumps v) < n \<Longrightarrow>
     pvalue n (dumps v @ rest) = Some (v, rest)"
  "list_all wf_json vs \<Longrightarrow> vs \<noteq> [] \<Longrightarrow> Suc (length (dumps_items vs)) < n \<Longrightarrow>
     pitems n (dumps_items vs @ CHR '']'' # rest) = Some (vs, rest)"
  "list_all (\<lambda>kv. wf_json (snd kv)) ms \<Longrightarrow> ms \<noteq> [] \<Longrightarrow> Suc (length (dumps_members ms)) < n \<Longrightarrow>
     pmembers n (dumps_members ms @ CHR ''}'' # rest) = Some (ms, rest)"
proof (induction v and vs and ms arbitrary: n rest and n rest and n rest
    rule: dumps_dumps_items_dumps_members.induct)
  case 1
  then show ?case by (cases n) (simp_all add: patom_def words_def)
next
  case (2 b)
  then show ?case by (cases n; cases b) (simp_all add: patom_def words_def)
next
  case (3 i)
  then obtain m where "n = Suc m" by (cases n) simp_all
  moreover obtain c r where "int_str i = c # r" "c \<noteq> CHR 34" "c \<noteq> CHR ''[''" "c \<noteq> CHR ''{''"
    using num_start_cons [OF num_start_int_str] by metis
  ultimately show ?case using pvalue_atom patom_int "3.prems"(2) by (metis dumps.simps(3))
next
  case (4 t)
  then obtain m where "n = Suc m" by (cases n) simp_all
  moreover obtain c r where "t = c # r" "c \<noteq> CHR 34" "c \<noteq> CHR ''[''" "c \<noteq> CHR ''{''"
    using float_cons "4.prems"(1) by metis
  ultimately show ?case using pvalue_atom patom_float "4.prems"(1,2) by (metis dumps.simps(4))
next
  case (5 s)
  then show ?case by (cases n) (simp_all add: quoted_def pstring_quoted)
next
  case (6 vs)
  then obtain m where n: "n = Suc m" by (cases n) simp_all
  show ?case
  proof (cases vs)
    case (Cons w ws)
    with "6.prems"(1) have "list_all wf_json (w # ws)" by simp
    then obtain c r where "dumps_items vs = c # r" "json_start c"
      using dumps_items_cons Cons by blast
    moreover have "pitems m (dumps_items vs @ CHR '']'' # rest) = Some (vs, rest)"
      using 6 Cons n by simp
    ultimately show ?thesis using n by (simp add: json_start_def)
  qed (simp add: n)
next
  case (7 ms)
  then obtain m where n: "n = Suc m" by (cases n) simp_all
  show ?case
  proof (cases ms)
    case (Cons w ws)
    then obtain r where "dumps_members ms = CHR 34 # r"
      using dumps_members_cons by blast
    moreover have "pmembers m (dumps_members ms @ CHR ''}'' # rest) = Some (ms, rest)"
      using 7 Cons n by simp
    ultimately show ?thesis using n "7.prems"(1) by simp
  qed (simp add: n dict_of_def)
next
  case 8
  then show ?case by simp
next
  case (9 v)
  then obtain m where "n = Suc m" by (cases n) simp_all
  with 9 show ?case by simp
next
  case (10 v w vs)
  then obtain m where n: "n = Suc m" by (cases n) simp_all
  have "skip_ws (dumps_items (w # vs) @ s) = dumps_items (w # vs) @ s" for s
    using "10.prems"(1) dumps_items_cons [of w vs] by auto
  with 10 n show ?case by simp
next
  case 11
  then show ?case by simp
next
  case (12 k v)
  then obtain m where "n = Suc m" by (cases n) simp_all
  with 12 show ?case by (simp add: quoted_def pstring_quoted skip_ws_dumps)
next
  case (13 k v w ms)
  then obtain m where n: "n = Suc m" by (cases n) simp_all
  have "skip_ws (dumps_members (w # ms) @ s) = dumps_members (w # ms) @ s" for s
    using dumps_members_cons [of w ms] by auto
  with 13 n show ?case by (simp add: quoted_def pstring_quoted skip_ws_dumps)
qed

lemma loads_dumps [simp, codec_simps]: "wf_json v \<Longrightarrow> loads (dumps v) = Some v"
  using parse_dumps(1) [of v "[]" "2 * length (dumps v) + 1"] skip_ws_dumps [of v "[]"]
  by (simp add: loads_def)

section \<open>Fuel\<close>

lemma pstring_eqs:
  "pstring [] = None"
  "pstring (CHR 34 # r) = Some ([], r)"
  "pstring [CHR 92] = None"
  "pstring (CHR 92 # CHR ''u'' # r) = (case hex4 (take 4 r) of None \<Rightarrow> None
     | Some x \<Rightarrow> map_option (\<lambda>(t, q). (x # t, q)) (pstring (drop 4 r)))"
  "e \<noteq> CHR ''u'' \<Longrightarrow> pstring (CHR 92 # e # r) = (case simple_esc e of None \<Rightarrow> None
     | Some x \<Rightarrow> map_option (\<lambda>(t, q). (x # t, q)) (pstring r))"
  "c \<noteq> CHR 34 \<Longrightarrow> c \<noteq> CHR 92 \<Longrightarrow> pstring (c # r) = (if (of_char c :: nat) < 32 then None
     else map_option (\<lambda>(t, q). (c # t, q)) (pstring r))"
  by (subst pstring.simps; simp)+

lemma pstring_shorter: "pstring s = Some (t, r) \<Longrightarrow> length r < length s"
proof (induction "length s" arbitrary: s t r rule: less_induct)
  case less
  note IH = less.hyps and ret = less.prems
  consider (quote) s' where "s = CHR 34 # s'" | (u) s' where "s = CHR 92 # CHR ''u'' # s'"
    | (esc) e s' where "s = CHR 92 # e # s'" "e \<noteq> CHR ''u''"
    | (plain) c s' where "s = c # s'" "c \<noteq> CHR 34" "c \<noteq> CHR 92"
    | (stuck) "s = [] \<or> s = [CHR 92]"
    by (metis list.exhaust)
  then show ?case
  proof cases
    case quote
    with ret show ?thesis by (simp add: pstring_eqs)
  next
    case u
    with ret obtain t' where "pstring (drop 4 s') = Some (t', r)"
      by (auto simp: pstring_eqs split: option.splits)
    from IH [OF _ this] u have "length r < length (drop 4 s')" by simp
    with u show ?thesis by simp
  next
    case esc
    with ret obtain t' where "pstring s' = Some (t', r)"
      by (auto simp: pstring_eqs split: option.splits)
    from IH [OF _ this] esc show ?thesis by simp
  next
    case plain
    with ret obtain t' where "pstring s' = Some (t', r)"
      by (auto simp: pstring_eqs split: if_splits)
    from IH [OF _ this] plain show ?thesis by simp
  next
    case stuck
    with ret show ?thesis by (auto simp: pstring_eqs)
  qed
qed

lemma skip_ws_le: "length (skip_ws s) \<le> length s"
  by (simp add: skip_ws_def length_dropWhile_le)

lemma read_char_length: "read_char c s = Some r \<Longrightarrow> length s = Suc (length r)"
  by (cases s) (auto split: if_splits)

lemma strip_word_length: "strip_word w s = Some r \<Longrightarrow> length s = length w + length r"
  by (induction w s rule: strip_word.induct) (auto split: if_splits)

lemma pnumber_shorter: "pnumber s = Some (v, r) \<Longrightarrow> length r < length s"
proof -
  assume ret: "pnumber s = Some (v, r)"
  then have "takeWhile is_numchar s \<noteq> []"
    by (auto simp: pnumber_def Let_def int_token_def is_float_token_def is_nat_token_def
      strip_minus_def split: option.splits if_splits)
  moreover have "r = dropWhile is_numchar s"
    using ret by (auto simp: pnumber_def Let_def split: option.splits if_splits)
  moreover have "length s = length (takeWhile is_numchar s) + length (dropWhile is_numchar s)"
    by (metis length_append takeWhile_dropWhile_id)
  ultimately show ?thesis by simp
qed

lemma pword_shorter:
  "list_all (\<lambda>wv. fst wv \<noteq> []) ws \<Longrightarrow> pword ws s = Some (v, r) \<Longrightarrow> length r < length s"
  by (induction ws s rule: pword.induct)
     (auto simp: pnumber_shorter dest!: strip_word_length split: option.splits)

lemma patom_shorter:
  assumes "patom s = Some (v, r)"
  shows "length r < length s"
proof (rule pword_shorter)
  show "pword words s = Some (v, r)" using assms by (simp only: patom_def)
qed (simp add: words_def)

lemma after_ws_shorter: "skip_ws r = c # r' \<Longrightarrow> length r' < length r"
  using skip_ws_le [of r] by simp

lemma after_char_shorter: "read_char c (skip_ws r) = Some r' \<Longrightarrow> length r' < length r"
  using skip_ws_le [of r] by (auto dest: read_char_length)

lemma pvalue_Suc_E:
  assumes "pvalue (Suc n) s = Some (v, r)"
  obtains (str) s' t where "s = CHR 34 # s'" "pstring s' = Some (t, r)"
  | (empty) c d s' where "s = c # s'" "read_char d (skip_ws s') = Some r"
  | (items) c s' vs where "s = c # s'" "pitems n (skip_ws s') = Some (vs, r)"
  | (members) c s' ms where "s = c # s'" "pmembers n (skip_ws s') = Some (ms, r)"
  | (atom) "patom s = Some (v, r)"
proof (cases s)
  case (Cons c s')
  consider "c = CHR 34" | "c = CHR ''[''" | "c = CHR ''{''"
    | "c \<noteq> CHR 34" "c \<noteq> CHR ''[''" "c \<noteq> CHR ''{''" by blast
  then show ?thesis
  proof cases
    case 1
    with assms Cons str show ?thesis by (auto split: option.splits)
  next
    case 2
    with assms Cons empty items show ?thesis by (auto split: option.splits)
  next
    case 3
    with assms Cons empty members show ?thesis by (auto split: option.splits)
  next
    case 4
    with assms Cons atom show ?thesis by simp
  qed
qed (use assms in simp)

lemma pitems_Suc_E:
  assumes "pitems (Suc n) s = Some (vs, r)"
  obtains (last) v q where "pvalue n s = Some (v, q)" "skip_ws q = CHR '']'' # r"
  | (more) v q r' vs' where "pvalue n s = Some (v, q)" "skip_ws q = CHR '','' # r'"
      "pitems n (skip_ws r') = Some (vs', r)"
  using assms last more by (auto split: option.splits list.splits if_splits)

lemma pmembers_Suc_E:
  assumes "pmembers (Suc n) s = Some (ms, r)"
  obtains (last) s1 k s2 s3 v q where "read_char (CHR 34) s = Some s1" "pstring s1 = Some (k, s2)"
      "read_char (CHR '':'') (skip_ws s2) = Some s3" "pvalue n (skip_ws s3) = Some (v, q)"
      "skip_ws q = CHR ''}'' # r"
  | (more) s1 k s2 s3 v q r' ms' where "read_char (CHR 34) s = Some s1"
      "pstring s1 = Some (k, s2)" "read_char (CHR '':'') (skip_ws s2) = Some s3"
      "pvalue n (skip_ws s3) = Some (v, q)" "skip_ws q = CHR '','' # r'"
      "pmembers n (skip_ws r') = Some (ms', r)"
proof -
  obtain s1 where 1: "read_char (CHR 34) s = Some s1"
    using assms by (auto split: option.splits)
  with assms obtain k s2 where 2: "pstring s1 = Some (k, s2)"
    by (auto split: option.splits)
  with assms 1 obtain s3 where 3: "read_char (CHR '':'') (skip_ws s2) = Some s3"
    by (auto split: option.splits)
  with assms 1 2 obtain v q where 4: "pvalue n (skip_ws s3) = Some (v, q)"
    by (auto split: option.splits)
  with assms 1 2 3 obtain c r' where 5: "skip_ws q = c # r'"
    by (auto split: list.splits)
  show ?thesis
    using assms 1 2 3 4 5 last [OF 1 2 3 4] more [OF 1 2 3 4]
    by (auto split: if_splits)
qed

lemma parse_shorter:
  "pvalue n s = Some (v, r) \<Longrightarrow> length r < length s"
  "pitems n s = Some (vs, r) \<Longrightarrow> length r < length s"
  "pmembers n s = Some (ms, r) \<Longrightarrow> length r < length s"
proof (induction n arbitrary: s v vs ms r)
  case (Suc n)
  note skip = skip_ws_le after_ws_shorter after_char_shorter
  {
    case 1
    then show ?case
    proof (cases rule: pvalue_Suc_E)
      case str
      then show ?thesis using pstring_shorter by fastforce
    next
      case empty
      then show ?thesis using skip(3) by fastforce
    next
      case (items c s' vs)
      with Suc.IH(2) skip(1) [of s'] show ?thesis by fastforce
    next
      case (members c s' ms)
      with Suc.IH(3) skip(1) [of s'] show ?thesis by fastforce
    qed (rule patom_shorter)
  next
    case 2
    then show ?case
    proof (cases rule: pitems_Suc_E)
      case (last v q)
      with Suc.IH(1) [OF last(1)] skip(2) [OF last(2)] show ?thesis by simp
    next
      case (more v q r' vs')
      with Suc.IH(1) [OF more(1)] skip(2) [OF more(2)] skip(1) [of r'] Suc.IH(2) [OF more(3)]
      show ?thesis by simp
    qed
  next
    case 3
    then show ?case
    proof (cases rule: pmembers_Suc_E)
      case (last s1 k s2 s3 v q)
      with read_char_length [OF last(1)] pstring_shorter [OF last(2)] skip(3) [OF last(3)]
        skip(1) [of s3] Suc.IH(1) [OF last(4)] skip(2) [OF last(5)]
      show ?thesis by simp
    next
      case (more s1 k s2 s3 v q r' ms')
      with read_char_length [OF more(1)] pstring_shorter [OF more(2)] skip(3) [OF more(3)]
        skip(1) [of s3] Suc.IH(1) [OF more(4)] skip(2) [OF more(5)] skip(1) [of r']
        Suc.IH(3) [OF more(6)]
      show ?thesis by simp
    qed
  }
qed simp_all

text \<open>The answer does not depend on the fuel once there is enough of it.\<close>

lemma parse_more_fuel:
  "2 * length s < n \<Longrightarrow> pvalue (Suc n) s = pvalue n s"
  "2 * length s + 1 < n \<Longrightarrow> pitems (Suc n) s = pitems n s"
  "2 * length s + 1 < n \<Longrightarrow> pmembers (Suc n) s = pmembers n s"
proof (induction n arbitrary: s)
  case (Suc n)
  {
    case 1
    show ?case
    proof (cases s)
      case (Cons c s')
      have "2 * length (skip_ws s') + 1 < n"
        using "1" Cons skip_ws_le [of s'] by simp
      then show ?thesis using Suc.IH(2,3) Cons
        by (simp del: pitems.simps pmembers.simps split: option.split)
    qed simp
  next
    case 2
    then have v: "pvalue (Suc n) s = pvalue n s" by (intro Suc.IH(1)) simp
    have i: "pitems (Suc n) (skip_ws r') = pitems n (skip_ws r')"
      if "pvalue n s = Some (v, q)" "skip_ws q = c # r'" for v q c r'
      using that 2 parse_shorter(1) [OF that(1)] after_ws_shorter [OF that(2)] skip_ws_le [of r']
      by (intro Suc.IH(2)) simp
    show ?case unfolding pitems.simps(2) [of "Suc n" s] pitems.simps(2) [of n s] v
      using i by (auto simp del: pitems.simps pvalue.simps split: option.split list.split)
  next
    case 3
    have v: "pvalue (Suc n) (skip_ws s3) = pvalue n (skip_ws s3)"
      if "read_char (CHR 34) s = Some s1" "pstring s1 = Some (k, s2)"
        "read_char (CHR '':'') (skip_ws s2) = Some s3" for s1 k s2 s3
      using 3 read_char_length [OF that(1)] pstring_shorter [OF that(2)]
        after_char_shorter [OF that(3)] skip_ws_le [of s3]
      by (intro Suc.IH(1)) simp
    have m: "pmembers (Suc n) (skip_ws r') = pmembers n (skip_ws r')"
      if "read_char (CHR 34) s = Some s1" "pstring s1 = Some (k, s2)"
        "read_char (CHR '':'') (skip_ws s2) = Some s3" "pvalue n (skip_ws s3) = Some (w, q)"
        "skip_ws q = c # r'" for s1 k s2 s3 w q c r'
      using 3 read_char_length [OF that(1)] pstring_shorter [OF that(2)]
        after_char_shorter [OF that(3)] skip_ws_le [of s3] parse_shorter(1) [OF that(4)]
        after_ws_shorter [OF that(5)] skip_ws_le [of r']
      by (intro Suc.IH(3)) simp
    show ?case unfolding pmembers.simps(2) [of "Suc n" s] pmembers.simps(2) [of n s]
      using v m by (auto simp del: pmembers.simps pvalue.simps split: option.split list.split)
  }
qed simp_all

lemma pvalue_more_fuel: "2 * length s < n \<Longrightarrow> pvalue (n + k) s = pvalue n s"
  by (induction k) (simp_all add: parse_more_fuel(1) del: pvalue.simps)

section \<open>The text codec\<close>

definition py_loads :: "string \<Rightarrow> exn + json" where
  "py_loads s = (case loads s of None \<Rightarrow> Inl JSONDecodeError | Some v \<Rightarrow> Inr v)"

definition py_dumps :: "json \<Rightarrow> exn + string" where
  "py_dumps v = Inr (dumps v)"

interpretation json_text: codec py_dumps py_loads wf_json
  by unfold_locales (simp add: py_dumps_def py_loads_def)

text \<open>The printed text is ASCII, so decoding the bytes of a reply gives it back.\<close>

lemma hexdig_ascii: "k < 16 \<Longrightarrow> (of_char (hexdig k) :: nat) < 128"
  by (simp add: hexdig_def)

lemma is_ascii_esc: "is_ascii (esc c)"
  by (auto simp: esc_def hexdig_ascii)

lemma is_ascii_quoted [simp]: "is_ascii (quoted s)"
  by (induction s) (auto simp: quoted_def is_ascii_esc)

lemma is_ascii_numchars: "list_all is_numchar s \<Longrightarrow> is_ascii s"
  by (induction s) (auto simp: is_numchar_def is_digit_def)

lemma is_ascii_dumps:
  "wf_json v \<Longrightarrow> is_ascii (dumps v)"
  "list_all wf_json vs \<Longrightarrow> is_ascii (dumps_items vs)"
  "list_all (\<lambda>kv. wf_json (snd kv)) ms \<Longrightarrow> is_ascii (dumps_members ms)"
  by (induction v and vs and ms rule: dumps_dumps_items_dumps_members.induct)
     (auto simp: is_ascii_numchars float_word_def)

end
