(* ===== verification/Job.thy ===== *)
theory Job
  imports Json PyTime
begin

text \<open>
  \<open>relayq/domain/job.py\<close>: the status enum, the job dataclass and its dict form.

  A \<open>Job\<close> attribute can be assigned anything; the code assigns \<open>status\<close> both enum members and
  (in the replay endpoint) a plain string, so the field has both. The payload is any JSON value.
\<close>

section \<open>Job status\<close>

datatype job_status = PENDING | PROCESSING | COMPLETED | FAILED | DEAD

fun status_value :: "job_status \<Rightarrow> string" where
  "status_value PENDING = ''pending''"
| "status_value PROCESSING = ''processing''"
| "status_value COMPLETED = ''completed''"
| "status_value FAILED = ''failed''"
| "status_value DEAD = ''dead''"

text \<open>\<open>JobStatus(value)\<close>: the member with this value, else \<open>ValueError\<close>.\<close>

definition status_of :: "string \<Rightarrow> exn + job_status" where
  "status_of s =
     (case find (\<lambda>st. status_value st = s) [PENDING, PROCESSING, COMPLETED, FAILED, DEAD] of
        Some st \<Rightarrow> Inr st
      | None \<Rightarrow> Inl (ValueError (s @ '' is not a valid JobStatus'')))"

lemma status_of_value [simp, codec_simps]: "status_of (status_value st) = Inr st"
  by (cases st) (simp_all add: status_of_def)

lemma status_of_fails: "\<forall>st. s \<noteq> status_value st \<Longrightarrow> \<exists>m. status_of s = Inl (ValueError m)"
proof -
  assume "\<forall>st. s \<noteq> status_value st"
  then have "status_value st \<noteq> s" for st by metis
  then have "find (\<lambda>st. status_value st = s) [PENDING, PROCESSING, COMPLETED, FAILED, DEAD] = None"
    by (simp add: find_None_iff del: status_value.simps)
  then show ?thesis by (simp add: status_of_def del: find.simps)
qed

lemma status_value_inj [simp]: "status_value a = status_value b \<longleftrightarrow> a = b"
  by (metis status_of_value sum.inject(2))

section \<open>Jobs\<close>

datatype status_field = Member job_status | Plain string

record job =
  jid :: string
  kind :: string
  payload :: json
  status :: status_field
  created_at :: py_datetime
  attempts :: int
  max_retries :: int
  idempotency_key :: "string option"
  queue :: string

text \<open>
  \<open>Job(...)\<close> with the dataclass defaults; the drawn \<open>uuid4().hex\<close> and the clock reading are
  arguments.
\<close>

definition new_job :: "string \<Rightarrow> py_datetime \<Rightarrow> job" where
  "new_job uuid_hex now =
     \<lparr>jid = ''job_'' @ take 16 uuid_hex, kind = [], payload = JObj [], status = Member PENDING,
      created_at = now, attempts = 0, max_retries = 3, idempotency_key = None,
      queue = ''default''\<rparr>"

definition should_dlq :: "job \<Rightarrow> bool" where
  "should_dlq j \<longleftrightarrow> attempts j > max_retries j"

section \<open>The dict form\<close>

definition status_attr :: "status_field \<Rightarrow> exn + string" where
  "status_attr f = (case f of Member st \<Rightarrow> Inr (status_value st)
     | Plain _ \<Rightarrow> Inl (AttributeError ''str object has no attribute value''))"

definition to_dict :: "job \<Rightarrow> exn + json" where
  "to_dict j = res_bind (status_attr (status j)) (\<lambda>st. Inr (JObj [
     (''id'', JStr (jid j)),
     (''kind'', JStr (kind j)),
     (''payload'', payload j),
     (''status'', JStr st),
     (''created_at'', JStr (isoformat (created_at j))),
     (''attempts'', JInt (attempts j)),
     (''max_retries'', JInt (max_retries j)),
     (''idempotency_key'', case idempotency_key j of None \<Rightarrow> JNull | Some k \<Rightarrow> JStr k),
     (''queue'', JStr (queue j))]))"

text \<open>\<open>d.get(key, default)\<close> at the declared type of the field.\<close>

definition get_str :: "(string \<times> json) list \<Rightarrow> string \<Rightarrow> string \<Rightarrow> exn + string" where
  "get_str d k dflt = (case map_of d k of None \<Rightarrow> Inr dflt | Some v \<Rightarrow>
     (case v of JStr s \<Rightarrow> Inr s | _ \<Rightarrow> Inl (IllTyped k)))"

definition get_int :: "(string \<times> json) list \<Rightarrow> string \<Rightarrow> int \<Rightarrow> exn + int" where
  "get_int d k dflt = (case map_of d k of None \<Rightarrow> Inr dflt | Some v \<Rightarrow>
     (case v of JInt i \<Rightarrow> Inr i | _ \<Rightarrow> Inl (IllTyped k)))"

definition get_opt :: "(string \<times> json) list \<Rightarrow> string \<Rightarrow> exn + string option" where
  "get_opt d k = (case map_of d k of None \<Rightarrow> Inr None | Some v \<Rightarrow>
     (case v of JNull \<Rightarrow> Inr None | JStr s \<Rightarrow> Inr (Some s) | _ \<Rightarrow> Inl (IllTyped k)))"

definition item_str :: "(string \<times> json) list \<Rightarrow> string \<Rightarrow> exn + string" where
  "item_str d k = (case map_of d k of None \<Rightarrow> Inl (KeyError k) | Some v \<Rightarrow>
     (case v of JStr s \<Rightarrow> Inr s | _ \<Rightarrow> Inl (IllTyped k)))"

text \<open>\<open>JobStatus(d.get("status", "pending"))\<close>: a value that is no string is no member either.\<close>

definition get_status :: "(string \<times> json) list \<Rightarrow> exn + job_status" where
  "get_status d = (case map_of d ''status'' of None \<Rightarrow> status_of ''pending'' | Some v \<Rightarrow>
     (case v of JStr s \<Rightarrow> status_of s
      | _ \<Rightarrow> Inl (ValueError (dumps v @ '' is not a valid JobStatus''))))"

definition get_created :: "py_datetime \<Rightarrow> (string \<times> json) list \<Rightarrow> exn + py_datetime" where
  "get_created now d = (case map_of d ''created_at'' of None \<Rightarrow> Inr now | Some v \<Rightarrow>
     (case v of
        JStr s \<Rightarrow>
          (case fromisoformat s of
             Some t \<Rightarrow> Inr t
           | None \<Rightarrow> Inl (ValueError (''Invalid isoformat string: '' @ s)))
      | _ \<Rightarrow> Inl (TypeError ''fromisoformat: argument must be str'')))"

definition from_dict :: "py_datetime \<Rightarrow> json \<Rightarrow> exn + job" where
  "from_dict now v = (case v of
     JObj d \<Rightarrow>
       res_bind (item_str d ''id'') (\<lambda>i.
       res_bind (get_str d ''kind'' []) (\<lambda>k.
       res_bind (get_status d) (\<lambda>st.
       res_bind (get_created now d) (\<lambda>t.
       res_bind (get_int d ''attempts'' 0) (\<lambda>a.
       res_bind (get_int d ''max_retries'' 3) (\<lambda>m.
       res_bind (get_opt d ''idempotency_key'') (\<lambda>ik.
       res_bind (get_str d ''queue'' ''default'') (\<lambda>q.
         Inr \<lparr>jid = i, kind = k,
              payload = (case map_of d ''payload'' of None \<Rightarrow> JObj [] | Some p \<Rightarrow> p),
              status = Member st, created_at = t, attempts = a, max_retries = m,
              idempotency_key = ik, queue = q\<rparr>))))))))
   | _ \<Rightarrow> Inl (TypeError ''indices must be str''))"

section \<open>The job codecs\<close>

definition wf_job :: "job \<Rightarrow> bool" where
  "wf_job j \<longleftrightarrow>
     (\<exists>st. status j = Member st) \<and> valid_datetime (created_at j) \<and> wf_json (payload j)"

lemma wf_jobE:
  assumes "wf_job j"
  obtains st where "status j = Member st" "valid_datetime (created_at j)" "wf_json (payload j)"
  using assms by (auto simp: wf_job_def)

lemmas getters = get_str_def get_int_def get_opt_def item_str_def get_status_def get_created_def

interpretation job_dict: codec to_dict "from_dict now" wf_job for now
proof
  fix j assume "wf_job j"
  then show "res_bind (to_dict j) (from_dict now) = Inr j"
    by (auto elim!: wf_jobE simp: to_dict_def status_attr_def from_dict_def getters
      split: option.split)
qed

text \<open>\<open>json.dumps(job.to_dict())\<close> and \<open>Job.from_dict(json.loads(raw))\<close>.\<close>

definition job_text :: "job \<Rightarrow> exn + string" where
  "job_text j = res_bind (to_dict j) py_dumps"

definition parse_job :: "py_datetime \<Rightarrow> string \<Rightarrow> exn + job" where
  "parse_job now raw = res_bind (py_loads raw) (from_dict now)"

interpretation job_wire: codec_pair to_dict "from_dict now" wf_job py_dumps py_loads wf_json for now
proof unfold_locales
  fix j :: job and b assume "wf_job j" "to_dict j = Inr b"
  then show "wf_json b"
    by (auto elim!: wf_jobE simp: to_dict_def status_attr_def split: option.split)
qed

lemma parse_job_text:
  "wf_job j \<Longrightarrow> job_text j = Inr s \<Longrightarrow> parse_job now s = Inr j"
  unfolding job_text_def parse_job_def by (rule job_wire.both.dec_enc)

lemma job_text_Inr:
  assumes "wf_job j"
  obtains s where "job_text j = Inr s" "parse_job now s = Inr j"
  using assms unfolding job_text_def parse_job_def by (rule job_wire.both.encodes)

lemma job_text_Plain: "status j = Plain s \<Longrightarrow>
   job_text j = Inl (AttributeError ''str object has no attribute value'')"
  by (simp add: job_text_def to_dict_def status_attr_def)

text \<open>A fresh job of kind \<open>email\<close>, the input of the witnesses.\<close>

definition sample_job :: job where
  "sample_job = (new_job ''0123456789abcdef'' base_time)\<lparr>kind := ''email''\<rparr>"

lemma sample_job_simps [simp]:
  "jid sample_job = ''job_0123456789abcdef''"
  "kind sample_job = ''email''"
  "payload sample_job = JObj []"
  "status sample_job = Member PENDING"
  "created_at sample_job = base_time"
  "attempts sample_job = 0"
  "max_retries sample_job = 3"
  "idempotency_key sample_job = None"
  "queue sample_job = ''default''"
  by (simp_all add: sample_job_def new_job_def)

lemma wf_new_job [simp]: "valid_datetime now \<Longrightarrow> wf_job (new_job u now)"
  by (simp add: wf_job_def new_job_def)

lemma wf_sample_job [simp]: "wf_job sample_job"
  by (simp add: wf_job_def)

end
