(* ===== verification/Retry.thy ===== *)
theory Retry
  imports Errors
begin

text \<open>
  \<open>relayq/domain/retry.py\<close>: the backoff policy. Floats are rationals: scaling by a power of two
  and taking a minimum do not round, so the values agree with the float ones wherever those are
  finite; the sum of \<open>max_total_window\<close> is the exact sum. What does differ is kept: Python
  converts the integer \<open>2 ** attempt\<close> to a float before it multiplies, which raises
  \<open>OverflowError\<close> from exponent 1024 on. \<open>random.uniform(0, c)\<close> is \<open>0 + (c - 0) * u\<close> for the
  drawn \<open>u\<close> in \<open>[0, 1)\<close>, an argument of the model.
\<close>

record retry_policy =
  base_seconds :: rat
  cap_seconds :: rat
  max_attempts :: int
  jitter :: bool

definition default_policy :: retry_policy where
  "default_policy = \<lparr>base_seconds = 1, cap_seconds = 60, max_attempts = 3, jitter = True\<rparr>"

text \<open>\<open>base * (2 ** n)\<close> for a float \<open>base\<close> and an int \<open>n\<close>.\<close>

definition pow2 :: "int \<Rightarrow> rat" where
  "pow2 n = (if 0 \<le> n then 2 ^ nat n else 1 / 2 ^ nat (- n))"

definition scale :: "rat \<Rightarrow> int \<Rightarrow> exn + rat" where
  "scale base n = (if 1024 \<le> n then Inl OverflowError else Inr (base * pow2 n))"

definition uniform :: "rat \<Rightarrow> rat \<Rightarrow> rat \<Rightarrow> rat" where
  "uniform a b u = a + (b - a) * u"

definition delay :: "retry_policy \<Rightarrow> rat \<Rightarrow> int \<Rightarrow> exn + rat" where
  "delay p u attempt =
     (if max_attempts p \<le> attempt then Inr (cap_seconds p)
      else res_bind (scale (base_seconds p) attempt) (\<lambda>exponential.
        let capped = min exponential (cap_seconds p)
        in if \<not> jitter p then Inr capped else Inr (uniform 0 capped u)))"

fun window_loop :: "retry_policy \<Rightarrow> nat \<Rightarrow> int \<Rightarrow> rat \<Rightarrow> exn + rat" where
  "window_loop p 0 i acc = Inr acc"
| "window_loop p (Suc n) i acc =
     res_bind (scale (base_seconds p) i) (\<lambda>e.
       window_loop p n (i + 1) (acc + min e (cap_seconds p)))"

definition max_total_window :: "retry_policy \<Rightarrow> exn + rat" where
  "max_total_window p = window_loop p (nat (max_attempts p)) 0 0"

section \<open>Laws\<close>

definition sane_policy :: "retry_policy \<Rightarrow> bool" where
  "sane_policy p \<longleftrightarrow> 0 \<le> base_seconds p \<and> 0 \<le> cap_seconds p"

lemma delay_total: "max_attempts p \<le> 1024 \<Longrightarrow> \<exists>d. delay p u n = Inr d"
  by (simp add: delay_def scale_def Let_def)

lemma pow2_pos: "0 < pow2 n"
  by (simp add: pow2_def)

lemma pow2_mono: "m \<le> n \<Longrightarrow> pow2 m \<le> pow2 n"
proof -
  assume le: "m \<le> n"
  consider "0 \<le> m" | "m < 0" "0 \<le> n" | "n < 0" by linarith
  then show ?thesis
  proof cases
    case 1
    with le show ?thesis by (simp add: pow2_def power_increasing)
  next
    case 2
    have "(1 :: rat) / 2 ^ nat (- m) \<le> 1" by (simp add: divide_le_eq)
    also have "(1 :: rat) \<le> 2 ^ nat n" by simp
    finally show ?thesis using 2 by (simp add: pow2_def)
  next
    case 3
    with le have "nat (- n) \<le> nat (- m)" by simp
    then have "(2 :: rat) ^ nat (- n) \<le> 2 ^ nat (- m)" by (rule power_increasing) simp
    with 3 le show ?thesis by (simp add: pow2_def frac_le)
  qed
qed

lemma uniform_bounds:
  assumes "0 \<le> c" "0 \<le> u" "u < 1"
  shows "0 \<le> uniform 0 c u" "uniform 0 c u \<le> c"
  using assms mult_left_le [of u c] by (simp_all add: uniform_def)

lemma scaled_nonneg: "sane_policy p \<Longrightarrow> 0 \<le> base_seconds p * pow2 n"
  using pow2_pos [of n] by (simp add: sane_policy_def)

text \<open>The capped value of the exponential at an attempt, the ceiling of the delay there.\<close>

definition ceiling_at :: "retry_policy \<Rightarrow> int \<Rightarrow> rat" where
  "ceiling_at p i = min (base_seconds p * pow2 i) (cap_seconds p)"

lemma delay_cases:
  "delay p u attempt =
     (if max_attempts p \<le> attempt then Inr (cap_seconds p)
      else if 1024 \<le> attempt then Inl OverflowError
      else Inr (if jitter p then uniform 0 (ceiling_at p attempt) u else ceiling_at p attempt))"
  by (simp add: delay_def scale_def ceiling_at_def)

lemma ceiling_at_bounds:
  "sane_policy p \<Longrightarrow> 0 \<le> ceiling_at p i"
  "ceiling_at p i \<le> cap_seconds p"
  using scaled_nonneg [of p i] by (simp_all add: ceiling_at_def sane_policy_def)

lemma ceiling_at_mono: "sane_policy p \<Longrightarrow> i \<le> j \<Longrightarrow> ceiling_at p i \<le> ceiling_at p j"
  using pow2_mono [of i j] mult_left_mono [of "pow2 i" "pow2 j" "base_seconds p"]
  by (simp add: ceiling_at_def sane_policy_def min.coboundedI1)

lemma delay_le_ceiling:
  assumes "sane_policy p" "0 \<le> u" "u < 1" "i < max_attempts p" "delay p u i = Inr d"
  shows "0 \<le> d \<and> d \<le> ceiling_at p i"
  using assms ceiling_at_bounds(1) [of p i] uniform_bounds [of "ceiling_at p i" u]
  by (auto simp: delay_cases split: if_splits)

lemma window_loop_sum:
  "i + int n \<le> 1024 \<Longrightarrow>
     window_loop p n i acc = Inr (acc + (\<Sum>k<n. ceiling_at p (i + int k)))"
proof (induction n arbitrary: i acc)
  case (Suc n)
  then show ?case
    by (simp add: scale_def ceiling_at_def sum.lessThan_Suc_shift algebra_simps
      del: sum.lessThan_Suc)
qed simp

lemma window_sum:
  "max_attempts p \<le> 1024 \<Longrightarrow>
     max_total_window p = Inr (\<Sum>k<nat (max_attempts p). ceiling_at p (int k))"
  by (simp add: max_total_window_def window_loop_sum)

section \<open>Properties\<close>

text \<open>The delay before any retry is a number between 0 and the cap, whatever the attempt
  and the random draw: nothing raises as long as the policy allows at most 1024 attempts.\<close>

theorem delay_bounds:
  assumes "sane_policy p" "max_attempts p \<le> 1024" "0 \<le> u" "u < 1"
  shows "\<exists>d. delay p u attempt = Inr d \<and> 0 \<le> d \<and> d \<le> cap_seconds p"
proof (cases "max_attempts p \<le> attempt")
  case True
  with assms(1) show ?thesis by (auto simp: delay_cases sane_policy_def)
next
  case False
  with assms(2) obtain d where d: "delay p u attempt = Inr d" by (auto simp: delay_cases)
  with False assms have "0 \<le> d \<and> d \<le> ceiling_at p attempt" using delay_le_ceiling [of p u attempt d] by simp
  with d ceiling_at_bounds(2) [of p attempt] show ?thesis by fastforce
qed

theorem delay_bounds_witness:
  "\<exists>d. delay default_policy (1/2) 2 = Inr d \<and> 0 \<le> d \<and> d \<le> cap_seconds default_policy"
  by (rule delay_bounds) (simp_all add: default_policy_def sane_policy_def)

text \<open>C17. \<open>max_total_window\<close> is an upper bound of the time all retries take together. For a policy whose
  base and cap are not negative and that allows at most 1024 attempts (beyond, the power of two
  overflows as a float), whatever the random draws, the delays of the attempts
  \<open>0 .. max_attempts - 1\<close> sum to at most the window, and the window is at most \<open>max_attempts\<close> times
  the cap.\<close>

theorem window_bounds_delays:
  assumes "sane_policy p" "0 \<le> max_attempts p" "max_attempts p \<le> 1024"
    and "\<And>k. 0 \<le> draw k \<and> draw k < 1"
    and "\<And>k. k < nat (max_attempts p) \<Longrightarrow> delay p (draw k) (int k) = Inr (d k)"
  shows "\<exists>w. max_total_window p = Inr w \<and> (\<Sum>k<nat (max_attempts p). d k) \<le> w \<and>
     w \<le> of_int (max_attempts p) * cap_seconds p"
proof (intro exI conjI)
  let ?n = "nat (max_attempts p)" and ?w = "\<Sum>k<nat (max_attempts p). ceiling_at p (int k)"
  show "max_total_window p = Inr ?w" using assms(3) by (rule window_sum)
  show "(\<Sum>k<?n. d k) \<le> ?w"
  proof (rule sum_mono)
    fix k assume k: "k \<in> {..<?n}"
    then have "int k < max_attempts p" by (simp add: zless_nat_eq_int_zless)
    moreover have "delay p (draw k) (int k) = Inr (d k)" using k assms(5) by simp
    ultimately show "d k \<le> ceiling_at p (int k)"
      using delay_le_ceiling [OF assms(1)] assms(4) by blast
  qed
  have "?w \<le> (\<Sum>k<?n. cap_seconds p)" by (intro sum_mono ceiling_at_bounds(2))
  then show "?w \<le> of_int (max_attempts p) * cap_seconds p" using assms(2) by simp
qed

theorem window_bounds_delays_witness:
  "\<exists>w. max_total_window default_policy = Inr w \<and>
     (\<Sum>k<nat (max_attempts default_policy). 2 ^ k / 2) \<le> w \<and>
     w \<le> of_int (max_attempts default_policy) * cap_seconds default_policy"
  by (rule window_bounds_delays [where draw = "\<lambda>_. 1/2"])
     (auto simp: default_policy_def sane_policy_def delay_cases ceiling_at_def pow2_def
       uniform_def less_Suc_eq numeral_3_eq_3)

text \<open>Without jitter the backoff grows with the attempt: a later attempt never waits less,
  and from \<open>max_attempts\<close> on every attempt waits the cap.\<close>

theorem delay_monotone:
  assumes "sane_policy p" "\<not> jitter p" "i \<le> j" "delay p u i = Inr di" "delay p u' j = Inr dj"
  shows "di \<le> dj \<and> (max_attempts p \<le> j \<longrightarrow> dj = cap_seconds p)"
  using assms ceiling_at_mono [of p i j] ceiling_at_bounds(2) [of p i]
  by (auto simp: delay_cases split: if_splits)

theorem delay_monotone_witness:
  "let p = default_policy\<lparr>jitter := False\<rparr>
   in (4 :: rat) \<le> 60 \<and> (max_attempts p \<le> 3 \<longrightarrow> (60 :: rat) = cap_seconds p)"
  unfolding Let_def
  by (rule delay_monotone [where i = 2 and u = 0 and u' = 0])
     (simp_all add: default_policy_def sane_policy_def delay_cases ceiling_at_def pow2_def)

end
