(* ===== verification/Clock.thy ===== *)
theory Clock
  imports Errors
begin

text \<open>
  \<open>relayq/infrastructure/clock.py\<close>. The real clock is a reading the environment supplies and
  appears as an argument of the operations that read it. The fake clock is state: the offset of
  \<open>_now\<close> from \<open>BASE_TIME\<close>, in the whole microseconds a \<open>timedelta\<close> keeps (rounded half to even
  at construction), and the unrounded monotonic seconds.
\<close>

record fake_clock =
  now_us :: int
  mono :: rat

definition fake_clock_init :: fake_clock where
  "fake_clock_init = \<lparr>now_us = 0, mono = 0\<rparr>"

definition round_half_even :: "rat \<Rightarrow> int" where
  "round_half_even x =
     (let f = \<lfloor>x\<rfloor>; r = x - of_int f
      in if r < 1/2 then f else if r > 1/2 then f + 1 else if even f then f else f + 1)"

definition timedelta_us :: "rat \<Rightarrow> rat \<Rightarrow> int" where
  "timedelta_us seconds minutes = round_half_even ((seconds + 60 * minutes) * 1000000)"

definition advance :: "rat \<Rightarrow> rat \<Rightarrow> fake_clock \<Rightarrow> fake_clock" where
  "advance seconds minutes c =
     c\<lparr>now_us := now_us c + timedelta_us seconds minutes,
       mono := mono c + (seconds + minutes * 60)\<rparr>"

fun advances :: "(rat \<times> rat) list \<Rightarrow> fake_clock \<Rightarrow> fake_clock" where
  "advances [] c = c"
| "advances ((s, m) # ds) c = advances ds (advance s m c)"

definition drift :: "fake_clock \<Rightarrow> rat" where
  "drift c = of_int (now_us c) - mono c * 1000000"

lemma round_half_even_near: "\<bar>of_int (round_half_even x) - x\<bar> \<le> 1/2"
  unfolding round_half_even_def Let_def by (auto simp: abs_if) linarith+

lemma round_half_even_int [simp]: "round_half_even (of_int i) = i"
  by (simp add: round_half_even_def)

lemma drift_advance: "\<bar>drift (advance s m c)\<bar> \<le> \<bar>drift c\<bar> + 1/2"
  using round_half_even_near [of "(s + 60 * m) * 1000000"]
  by (simp add: drift_def advance_def timedelta_us_def algebra_simps abs_if split: if_splits)

lemma drift_advances: "\<bar>drift (advances ds c)\<bar> \<le> \<bar>drift c\<bar> + of_nat (length ds) / 2"
proof (induction ds c rule: advances.induct)
  case (2 s m ds c)
  with drift_advance [of s m c] show ?case by (simp add: field_simps)
qed simp

text \<open>The two readings of a fake clock stay together: after any sequence of \<open>n\<close> advances the
  wall clock is within \<open>n / 2\<close> microseconds of the monotonic clock, so \<open>BASE_TIME\<close> plus the
  monotonic seconds is the time a test sees, up to the rounding of each step.\<close>

theorem fake_clock_readings_agree:
  "\<bar>of_int (now_us (advances ds fake_clock_init)) -
    mono (advances ds fake_clock_init) * 1000000\<bar> \<le> of_nat (length ds) / 2"
  using drift_advances [of ds fake_clock_init] by (simp add: drift_def fake_clock_init_def)

end
