(* ===== verification/Metrics.thy ===== *)
theory Metrics
  imports Errors
begin

text \<open>
  \<open>relayq/telemetry/metrics.py\<close>. The Prometheus client is a library the code only calls, so the
  state of the metrics is the list of calls made on it, in order: which metric, with which
  labels, with which value. \<open>metric_specs\<close> holds the metrics the constructor registers with the
  label names each declares.
\<close>

datatype prom_call =
    GaugeSet string "(string \<times> string) list" rat
  | HistogramObserve string "(string \<times> string) list" rat
  | CounterInc string "(string \<times> string) list"

datatype metric_kind = Gauge | Histogram "rat list" | Counter

type_synonym prom_log = "prom_call list"

definition metric_specs :: "string \<Rightarrow> (string \<times> metric_kind \<times> string list) list" where
  "metric_specs ns =
     [(ns @ ''_queue_depth'', Gauge, [''queue'']),
      (ns @ ''_oldest_job_age_seconds'', Gauge, [''queue'']),
      (ns @ ''_processing_seconds'',
         Histogram [1/100, 5/100, 1/10, 5/10, 1, 5/2, 5, 10, 30, 60, 120, 300],
         [''queue'', ''kind'']),
      (ns @ ''_delivery_attempts_total'', Counter, [''queue'', ''kind'', ''success'']),
      (ns @ ''_dead_letter_total'', Counter, [''queue'', ''kind'']),
      (ns @ ''_worker_inflight'', Gauge, [''queue''])]"

section \<open>The wrappers\<close>

definition observe_queue_depth :: "string \<Rightarrow> string \<Rightarrow> int \<Rightarrow> prom_log \<Rightarrow> prom_log" where
  "observe_queue_depth ns queue depth calls =
     calls @ [GaugeSet (ns @ ''_queue_depth'') [(''queue'', queue)] (of_int depth)]"

definition observe_oldest_job_age :: "string \<Rightarrow> string \<Rightarrow> rat \<Rightarrow> prom_log \<Rightarrow> prom_log" where
  "observe_oldest_job_age ns queue age_seconds calls =
     calls @ [GaugeSet (ns @ ''_oldest_job_age_seconds'') [(''queue'', queue)] age_seconds]"

definition observe_processing_seconds :: "string \<Rightarrow> string \<Rightarrow> rat \<Rightarrow> prom_log \<Rightarrow> prom_log" where
  "observe_processing_seconds ns kind elapsed calls =
     calls @ [HistogramObserve (ns @ ''_processing_seconds'')
              [(''queue'', ''unknown''), (''kind'', kind)] elapsed]"

definition observe_processing_seconds_for_queue ::
    "string \<Rightarrow> string \<Rightarrow> string \<Rightarrow> rat \<Rightarrow> prom_log \<Rightarrow> prom_log" where
  "observe_processing_seconds_for_queue ns queue kind elapsed calls =
     calls @ [HistogramObserve (ns @ ''_processing_seconds'')
              [(''queue'', queue), (''kind'', kind)] elapsed]"

definition incr_delivery_attempts :: "string \<Rightarrow> string \<Rightarrow> bool \<Rightarrow> prom_log \<Rightarrow> prom_log" where
  "incr_delivery_attempts ns kind success calls =
     calls @ [CounterInc (ns @ ''_delivery_attempts_total'')
              [(''queue'', ''unknown''), (''kind'', kind),
               (''success'', if success then ''true'' else ''false'')]]"

definition incr_dead_letter :: "string \<Rightarrow> string \<Rightarrow> prom_log \<Rightarrow> prom_log" where
  "incr_dead_letter ns kind calls =
     calls @ [CounterInc (ns @ ''_dead_letter_total'')
              [(''queue'', ''unknown''), (''kind'', kind)]]"

definition observe_worker_inflight :: "string \<Rightarrow> string \<Rightarrow> int \<Rightarrow> prom_log \<Rightarrow> prom_log" where
  "observe_worker_inflight ns queue count calls =
     calls @ [GaugeSet (ns @ ''_worker_inflight'') [(''queue'', queue)] (of_int count)]"

lemmas metric_defs = observe_queue_depth_def observe_oldest_job_age_def
  observe_processing_seconds_def observe_processing_seconds_for_queue_def
  incr_delivery_attempts_def incr_dead_letter_def observe_worker_inflight_def

section \<open>Calls the client accepts\<close>

text \<open>
  \<open>labels(...)\<close> raises unless it is given exactly the declared label names, and an operation
  exists on its own kind of metric only.
\<close>

definition call_declared :: "string \<Rightarrow> prom_call \<Rightarrow> bool" where
  "call_declared ns c =
     (case c of
        GaugeSet m ls v \<Rightarrow> map_of (metric_specs ns) m = Some (Gauge, map fst ls)
      | CounterInc m ls \<Rightarrow> map_of (metric_specs ns) m = Some (Counter, map fst ls)
      | HistogramObserve m ls v \<Rightarrow>
          (case map_of (metric_specs ns) m of
             Some (Histogram bs, names) \<Rightarrow> names = map fst ls
           | _ \<Rightarrow> False))"

text \<open>Every wrapper calls a registered metric of the right kind with exactly the label names
  it was registered with, so no metric update of the program can raise in the client.\<close>

theorem metric_calls_declared:
  assumes "list_all (call_declared ns) calls"
  shows "list_all (call_declared ns) (observe_queue_depth ns q n calls) \<and>
     list_all (call_declared ns) (observe_oldest_job_age ns q t calls) \<and>
     list_all (call_declared ns) (observe_processing_seconds ns k t calls) \<and>
     list_all (call_declared ns) (observe_processing_seconds_for_queue ns q k t calls) \<and>
     list_all (call_declared ns) (incr_delivery_attempts ns k b calls) \<and>
     list_all (call_declared ns) (incr_dead_letter ns k calls) \<and>
     list_all (call_declared ns) (observe_worker_inflight ns q n calls)"
  using assms by (simp add: metric_defs call_declared_def metric_specs_def)

theorem metric_calls_declared_witness:
  "list_all (call_declared ''relayq'') (incr_dead_letter ''relayq'' ''email'' [])"
  using metric_calls_declared [of "''relayq''" "[]"] by simp

end
