(* ===== verification/Registry.thy ===== *)
theory Registry
  imports Errors
begin

text \<open>
  The interface through which idempotency keys are claimed: an operation that records the key of
  its argument or raises, and any other steps that may come between two claims. Its laws are the
  ones the outbox promises; its consequence, over any run of claims and other steps, is that a key
  is accepted at most once.
\<close>

text \<open>
  A run from \<open>s\<close> to \<open>t\<close> in which exactly the jobs of the list were accepted, in this order.
\<close>

inductive registry_run ::
    "('j \<Rightarrow> ('s, exn, 'r) io) \<Rightarrow> ('s \<Rightarrow> 's \<Rightarrow> bool) \<Rightarrow> 's \<Rightarrow> 'j list \<Rightarrow> 's \<Rightarrow> bool"
  for claim other s where
  run_start: "registry_run claim other s [] s"
| run_accept: "registry_run claim other s js t \<Longrightarrow> claim j t = (Inr r, u) \<Longrightarrow>
     registry_run claim other s (js @ [j]) u"
| run_reject: "registry_run claim other s js t \<Longrightarrow> claim j t = (Inl e, u) \<Longrightarrow>
     registry_run claim other s js u"
| run_other: "registry_run claim other s js t \<Longrightarrow> other t u \<Longrightarrow> registry_run claim other s js u"

definition accepted_keys :: "('j \<Rightarrow> string option) \<Rightarrow> 'j list \<Rightarrow> string list" where
  "accepted_keys key_of js = List.map_filter key_of js"

lemma accepted_keys_simps [simp]:
  "accepted_keys key_of [] = []"
  "accepted_keys key_of (js @ [j]) =
     accepted_keys key_of js @ (case key_of j of None \<Rightarrow> [] | Some k \<Rightarrow> [k])"
  by (simp_all add: accepted_keys_def List.map_filter_def split: option.split)

locale key_registry =
  fixes keys :: "'s \<Rightarrow> string set"
    and key_of :: "'j \<Rightarrow> string option"
    and claim :: "'j \<Rightarrow> ('s, exn, 'r) io"
    and other :: "'s \<Rightarrow> 's \<Rightarrow> bool"
  assumes claim_records: "claim j s = (Inr r, t) \<Longrightarrow> key_of j = Some k \<Longrightarrow> k \<in> keys t"
    and claim_taken: "claim j s = (Inr r, t) \<Longrightarrow> key_of j = Some k \<Longrightarrow> k \<notin> keys s"
    and claim_keeps: "claim j s = (res, t) \<Longrightarrow> keys s \<subseteq> keys t"
    and other_keeps: "other s t \<Longrightarrow> keys s \<subseteq> keys t"
begin

lemma run_keeps: "registry_run claim other s js t \<Longrightarrow> keys s \<subseteq> keys t"
  by (induction rule: registry_run.induct) (use claim_keeps other_keeps in blast)+

lemma run_accepts_once:
  assumes "registry_run claim other s js t"
  shows "distinct (accepted_keys key_of js) \<and> set (accepted_keys key_of js) \<subseteq> keys t - keys s"
  using assms
proof (induction rule: registry_run.induct)
  case (run_accept js t j r u)
  note keep = claim_keeps [OF run_accept.hyps(2)] and start = run_keeps [OF run_accept.hyps(1)]
  show ?case
  proof (cases "key_of j")
    case None
    with run_accept.IH keep show ?thesis by auto
  next
    case (Some k)
    then have "k \<in> keys u" "k \<notin> keys t"
      using claim_records claim_taken run_accept.hyps(2) by blast+
    with Some run_accept.IH keep start show ?thesis by auto
  qed
next
  case (run_reject js t j e u)
  with claim_keeps show ?case by blast
next
  case (run_other js t u)
  with other_keeps show ?case by blast
qed simp

end

end
