(* ===== verification/SqliteStore.thy ===== *)
theory SqliteStore
  imports Job Registry
begin

text \<open>
  \<open>relayq/infrastructure/sqlite_store.py\<close>: the outbox table and its operations, on one
  thread's connection.

  The state is the committed table, the connection's open transaction with its own view of the
  table, if there is one, and the locks other connections hold, as the list of outcomes of the
  statements to come (True: the statement raises \<open>OperationalError\<close>). The \<open>sqlite3\<close> module is
  used in its default mode: a data-changing statement outside a transaction opens one first and
  leaves it open; only \<open>commit\<close> makes it durable; a \<open>SELECT\<close> opens none.
\<close>

record row =
  r_id :: string
  r_kind :: string
  r_payload :: string
  r_status :: string
  r_created_at :: string
  r_attempts :: int
  r_max_retries :: int
  r_key :: "string option"
  r_queue :: string

record sqlite =
  committed :: "row list"
  working :: "row list option"
  locks :: "bool list"

definition locked :: exn where
  "locked = OperationalError ''database is locked''"

definition nested_begin :: exn where
  "nested_begin = OperationalError ''cannot start a transaction within a transaction''"

section \<open>Connection\<close>

text \<open>
  A connection to a database file with the given rows; the schema statements create nothing
  that is there already. Closing a connection drops its open transaction.
\<close>

definition connect :: "row list \<Rightarrow> bool list \<Rightarrow> sqlite" where
  "connect rows ls = \<lparr>committed = rows, working = None, locks = ls\<rparr>"

definition reconnect :: "sqlite \<Rightarrow> sqlite" where
  "reconnect db = connect (committed db) (locks db)"

definition table :: "sqlite \<Rightarrow> row list" where
  "table db = (case working db of None \<Rightarrow> committed db | Some rows \<Rightarrow> rows)"

definition next_lock :: "sqlite \<Rightarrow> bool \<times> sqlite" where
  "next_lock db = (case locks db of [] \<Rightarrow> (False, db) | l # ls \<Rightarrow> (l, db\<lparr>locks := ls\<rparr>))"

section \<open>Statements\<close>

text \<open>The implicit \<open>BEGIN\<close> before a data-changing statement.\<close>

definition open_txn :: "sqlite \<Rightarrow> sqlite" where
  "open_txn db = db\<lparr>working := Some (table db)\<rparr>"

definition begin_immediate :: "(sqlite, exn, unit) io" where
  "begin_immediate db =
     (if working db \<noteq> None then (Inl nested_begin, db)
      else (case next_lock db of (l, db) \<Rightarrow>
        if l then (Inl locked, db) else (Inr (), open_txn db)))"

definition commit :: "(sqlite, exn, unit) io" where
  "commit db =
     (case working db of
        None \<Rightarrow> (Inr (), db)
      | Some rows \<Rightarrow> (case next_lock db of (l, db) \<Rightarrow>
          if l then (Inl locked, db)
          else (Inr (), db\<lparr>committed := rows, working := None\<rparr>)))"

definition rollback :: "sqlite \<Rightarrow> sqlite" where
  "rollback db = db\<lparr>working := None\<rparr>"

definition constraint :: "row list \<Rightarrow> row \<Rightarrow> exn option" where
  "constraint rows r =
     (if r_id r \<in> set (map r_id rows) then Some (IntegrityError ''UNIQUE constraint failed: jobs.id'')
      else if r_key r \<noteq> None \<and> r_key r \<in> set (map r_key rows)
      then Some (IntegrityError ''UNIQUE constraint failed: jobs.idempotency_key'')
      else None)"

definition exec_insert :: "row \<Rightarrow> (sqlite, exn, unit) io" where
  "exec_insert r db =
     (case next_lock (open_txn db) of (l, db) \<Rightarrow>
        if l then (Inl locked, db)
        else (case constraint (table db) r of
                Some e \<Rightarrow> (Inl e, db)
              | None \<Rightarrow> (Inr (), db\<lparr>working := Some (table db @ [r])\<rparr>)))"

definition exec_update :: "(row \<Rightarrow> row) \<Rightarrow> (sqlite, exn, unit) io" where
  "exec_update f db =
     (case next_lock (open_txn db) of (l, db) \<Rightarrow>
        if l then (Inl locked, db)
        else (Inr (), db\<lparr>working := Some (map f (table db))\<rparr>))"

definition exec_select :: "(row \<Rightarrow> bool) \<Rightarrow> (sqlite, exn, row option) io" where
  "exec_select p db =
     (case next_lock db of (l, db) \<Rightarrow>
        if l then (Inl locked, db) else (Inr (find p (table db)), db))"

section \<open>The operations of the store\<close>

definition row_of :: "job \<Rightarrow> string \<Rightarrow> row" where
  "row_of j st =
     \<lparr>r_id = jid j, r_kind = kind j, r_payload = dumps (payload j), r_status = st,
      r_created_at = isoformat (created_at j), r_attempts = attempts j,
      r_max_retries = max_retries j, r_key = idempotency_key j, r_queue = queue j\<rparr>"

definition insert_outbox :: "job \<Rightarrow> (sqlite, exn, unit) io" where
  "insert_outbox j db =
     (case status_attr (status j) of
        Inl e \<Rightarrow> (Inl e, db)
      | Inr st \<Rightarrow> exec_insert (row_of j st) db)"

definition set_status :: "string \<Rightarrow> job_status \<Rightarrow> int option \<Rightarrow> row \<Rightarrow> row" where
  "set_status job_id st attempt r =
     (if r_id r = job_id then
        (case attempt of
           Some a \<Rightarrow> r\<lparr>r_status := status_value st, r_attempts := a\<rparr>
         | None \<Rightarrow> r\<lparr>r_status := status_value st\<rparr>)
      else r)"

definition update_status :: "string \<Rightarrow> job_status \<Rightarrow> int option \<Rightarrow> (sqlite, exn, unit) io" where
  "update_status job_id st attempt = exec_update (set_status job_id st attempt)"

text \<open>
  The \<open>Job\<close> built from a row: \<open>created_at\<close> is the reading of the clock, not the stored column.
\<close>

definition job_of_row :: "py_datetime \<Rightarrow> row \<Rightarrow> exn + job" where
  "job_of_row now r =
     res_bind (py_loads (r_payload r)) (\<lambda>p.
     res_bind (status_of (r_status r)) (\<lambda>st.
       Inr \<lparr>jid = r_id r, kind = r_kind r, payload = p, status = Member st, created_at = now,
            attempts = r_attempts r, max_retries = r_max_retries r,
            idempotency_key = r_key r, queue = r_queue r\<rparr>))"

definition fetch_job :: "py_datetime \<Rightarrow> (row \<Rightarrow> bool) \<Rightarrow> (sqlite, exn, job option) io" where
  "fetch_job now p db =
     (case exec_select p db of
        (Inl e, db) \<Rightarrow> (Inl e, db)
      | (Inr None, db) \<Rightarrow> (Inr None, db)
      | (Inr (Some r), db) \<Rightarrow> (res_bind (job_of_row now r) (\<lambda>j. Inr (Some j)), db))"

definition get_job :: "py_datetime \<Rightarrow> string \<Rightarrow> (sqlite, exn, job option) io" where
  "get_job now job_id = fetch_job now (\<lambda>r. r_id r = job_id)"

definition find_by_idempotency_key ::
    "py_datetime \<Rightarrow> string \<Rightarrow> (sqlite, exn, job option) io" where
  "find_by_idempotency_key now key = fetch_job now (\<lambda>r. r_key r = Some key)"

text \<open>\<open>async with store.transaction(): body\<close>.\<close>

definition transaction :: "(sqlite, exn, 'a) io \<Rightarrow> (sqlite, exn, 'a) io" where
  "transaction body db =
     (case begin_immediate db of
        (Inl e, db) \<Rightarrow> (Inl e, db)
      | (Inr _, db) \<Rightarrow>
     (case io_bind body (\<lambda>a. io_bind commit (\<lambda>_. io_ret a)) db of
        (Inr a, db) \<Rightarrow> (Inr a, db)
      | (Inl e, db) \<Rightarrow> if is_exception e then (Inl e, rollback db) else (Inl e, db)))"

section \<open>What each statement leaves alone\<close>

lemma next_lock_frame [simp]:
  "next_lock db = (l, db') \<Longrightarrow> committed db' = committed db"
  "next_lock db = (l, db') \<Longrightarrow> working db' = working db"
  "next_lock db = (l, db') \<Longrightarrow> table db' = table db"
  by (auto simp: next_lock_def table_def split: list.splits option.splits)

lemma table_open_txn [simp]: "table (open_txn db) = table db"
  by (simp add: open_txn_def table_def)

lemma committed_open_txn [simp]: "committed (open_txn db) = committed db"
  by (simp add: open_txn_def)

lemma working_open_txn [simp]: "working (open_txn db) = Some (table db)"
  by (simp add: open_txn_def)

lemma table_working [simp]: "working db = Some rows \<Longrightarrow> table db = rows"
  "working db = None \<Longrightarrow> table db = committed db"
  by (simp_all add: table_def)

lemma exec_insert_cases:
  assumes "exec_insert r db = (res, db')"
  obtains (ok) "res = Inr ()" "constraint (table db) r = None"
      "working db' = Some (table db @ [r])" "committed db' = committed db"
  | (err) e where "res = Inl e" "working db' = Some (table db)" "committed db' = committed db"
      "e = locked \<or> constraint (table db) r = Some e"
proof (cases "next_lock (open_txn db)")
  case (Pair l d)
  then have d: "committed d = committed db" "working d = Some (table db)" "table d = table db"
    by simp_all
  show ?thesis
  proof (cases l)
    case True
    with assms Pair d err [of locked] show ?thesis by (auto simp: exec_insert_def)
  next
    case False
    with assms Pair d ok err show ?thesis
      by (cases "constraint (table db) r") (auto simp: exec_insert_def)
  qed
qed

lemma exec_update_cases:
  assumes "exec_update f db = (res, db')"
  obtains (ok) "res = Inr ()" "working db' = Some (map f (table db))" "committed db' = committed db"
  | (err) "res = Inl locked" "working db' = Some (table db)" "committed db' = committed db"
proof (cases "next_lock (open_txn db)")
  case (Pair l d)
  then have "committed d = committed db" "working d = Some (table db)" "table d = table db"
    by simp_all
  with assms Pair ok err show ?thesis by (cases l) (auto simp: exec_update_def)
qed

lemma exec_select_cases:
  assumes "exec_select p db = (res, db')"
  obtains "res = Inl locked \<or> res = Inr (find p (table db))"
    "working db' = working db" "committed db' = committed db"
  using assms next_lock_frame [of db]
  by (auto simp: exec_select_def split: prod.splits if_splits)

lemma fetch_job_frame:
  assumes "fetch_job now p db = (res, db')"
  shows "working db' = working db" "committed db' = committed db"
  using assms by (auto simp: fetch_job_def split: prod.splits sum.splits option.splits
    elim!: exec_select_cases)

lemma commit_cases:
  assumes "commit db = (res, db')"
  obtains (ok) "res = Inr ()" "working db' = None" "committed db' = table db"
  | (err) "res = Inl locked" "working db' = working db" "committed db' = committed db"
  using assms next_lock_frame [of db]
  by (auto simp: commit_def split: prod.splits if_splits option.splits)

lemma begin_immediate_cases:
  assumes "begin_immediate db = (res, db')"
  obtains (ok) "res = Inr ()" "working db = None" "working db' = Some (committed db)"
      "committed db' = committed db"
  | (err) e where "res = Inl e" "db' = db \<or> working db' = None" "working db' = working db"
      "committed db' = committed db" "e = locked \<or> e = nested_begin"
  using assms next_lock_frame [of db]
  by (auto simp: begin_immediate_def split: prod.splits if_splits)

section \<open>The uniqueness invariant\<close>

definition keys_of :: "row list \<Rightarrow> string list" where
  "keys_of rows = List.map_filter r_key rows"

definition unique_rows :: "row list \<Rightarrow> bool" where
  "unique_rows rows \<longleftrightarrow> distinct (map r_id rows) \<and> distinct (keys_of rows)"

definition store_inv :: "sqlite \<Rightarrow> bool" where
  "store_inv db \<longleftrightarrow> unique_rows (committed db) \<and> unique_rows (table db)"

lemma keys_of_simps [simp]:
  "keys_of [] = []"
  "keys_of (rows @ [r]) = keys_of rows @ (case r_key r of None \<Rightarrow> [] | Some k \<Rightarrow> [k])"
  by (simp_all add: keys_of_def List.map_filter_def split: option.split)

lemma set_keys_of: "set (keys_of rows) = {k. Some k \<in> set (map r_key rows)}"
  by (auto simp: keys_of_def List.map_filter_def image_iff) (metis option.sel)+

lemma set_status_keeps [simp]:
  "r_id (set_status i st a r) = r_id r"
  "r_key (set_status i st a r) = r_key r"
  by (simp_all add: set_status_def split: option.split)

lemma map_set_status [simp]:
  "map r_id (map (set_status i st a) rows) = map r_id rows"
  "keys_of (map (set_status i st a) rows) = keys_of rows"
  by (simp_all add: keys_of_def List.map_filter_def comp_def filter_map)

lemma unique_rows_insert:
  "unique_rows rows \<Longrightarrow> constraint rows r = None \<Longrightarrow> unique_rows (rows @ [r])"
  by (auto simp: unique_rows_def constraint_def set_keys_of split: if_splits option.split)

lemma insert_outbox_cases:
  assumes "insert_outbox j db = (res, db')"
  obtains (ok) st where "res = Inr ()" "status j = Member st"
      "constraint (table db) (row_of j (status_value st)) = None"
      "working db' = Some (table db @ [row_of j (status_value st)])" "committed db' = committed db"
  | (err) e where "res = Inl e" "is_exception e" "table db' = table db" "committed db' = committed db"
      "working db \<noteq> None \<longrightarrow> working db' = working db"
proof (cases "status j")
  case (Member st)
  then have "exec_insert (row_of j (status_value st)) db = (res, db')"
    using assms by (simp add: insert_outbox_def status_attr_def)
  then show ?thesis
  proof (cases rule: exec_insert_cases)
    case ok
    then show ?thesis using that(1) Member by blast
  next
    case (err e)
    then have "is_exception e" by (auto simp: locked_def constraint_def split: if_splits)
    moreover have "table db' = table db" "working db \<noteq> None \<longrightarrow> working db' = working db"
      using err(2) by (auto simp: table_def)
    ultimately show ?thesis using that(2) err by blast
  qed
next
  case (Plain s)
  with assms have "res = Inl (AttributeError ''str object has no attribute value'')" "db' = db"
    by (simp_all add: insert_outbox_def status_attr_def)
  then show ?thesis using that(2) by simp
qed

lemma transaction_cases:
  assumes "transaction (insert_outbox j) db = (res, db')"
  obtains (ok) st where "res = Inr ()" "status j = Member st" "working db = None"
      "constraint (committed db) (row_of j (status_value st)) = None"
      "committed db' = committed db @ [row_of j (status_value st)]" "working db' = None"
  | (err) e where "res = Inl e" "is_exception e" "committed db' = committed db"
      "working db' = working db"
proof (cases "begin_immediate db")
  case (Pair r d)
  from Pair show ?thesis
  proof (cases rule: begin_immediate_cases)
    case (err e)
    then have "is_exception e" by (auto simp: locked_def nested_begin_def)
    with assms Pair err show ?thesis using that(2) by (auto simp: transaction_def)
  next
    case ok
    note d = ok
    obtain r2 d2 where ins: "insert_outbox j d = (r2, d2)" by fastforce
    from ins show ?thesis
    proof (cases rule: insert_outbox_cases)
      case (err e)
      with assms Pair d ins show ?thesis
        using that(2) [of e] by (auto simp: transaction_def io_bind_def rollback_def)
    next
      case (ok st)
      obtain r3 d3 where com: "commit d2 = (r3, d3)" by fastforce
      from com show ?thesis
      proof (cases rule: commit_cases)
        case ok': ok
        with assms Pair d ok ins com show ?thesis
          using that(1) [of st] by (auto simp: transaction_def io_bind_def)
      next
        case err': err
        then have "is_exception locked" by (simp add: locked_def)
        with assms Pair d ok ins com err' show ?thesis
          using that(2) [of locked] by (auto simp: transaction_def io_bind_def rollback_def)
      qed
    qed
  qed
qed


section \<open>The invariant is kept\<close>

lemma store_inv_working: "store_inv db \<Longrightarrow> unique_rows (table db)"
  by (simp add: store_inv_def)

lemma store_inv_same_table:
  "store_inv db \<Longrightarrow> committed db' = committed db \<Longrightarrow> table db' = table db \<Longrightarrow> store_inv db'"
  by (simp add: store_inv_def)

lemma insert_outbox_inv:
  assumes "store_inv db" "insert_outbox j db = (res, db')"
  shows "store_inv db'"
  using assms(2)
proof (cases rule: insert_outbox_cases)
  case (ok st)
  with assms(1) show ?thesis by (simp add: store_inv_def unique_rows_insert)
next
  case (err e)
  with assms(1) show ?thesis by (simp add: store_inv_def)
qed

lemma update_status_inv:
  assumes "store_inv db" "update_status i st a db = (res, db')"
  shows "store_inv db'"
  using assms(2) [unfolded update_status_def]
proof (cases rule: exec_update_cases)
  case ok
  with assms(1) show ?thesis by (simp add: store_inv_def unique_rows_def del: map_map)
next
  case err
  with assms(1) show ?thesis by (simp add: store_inv_def)
qed

lemma transaction_inv:
  assumes "store_inv db" "transaction (insert_outbox j) db = (res, db')"
  shows "store_inv db'"
  using assms(2)
proof (cases rule: transaction_cases)
  case (ok st)
  with assms(1) show ?thesis by (simp add: store_inv_def unique_rows_insert)
next
  case (err e)
  then have "table db' = table db" by (simp add: table_def split: option.split)
  with assms(1) err(3) show ?thesis using store_inv_same_table by blast
qed

lemma fetch_job_inv:
  assumes "store_inv db" "fetch_job now p db = (res, db')"
  shows "store_inv db'"
proof -
  have "table db' = table db" using fetch_job_frame [OF assms(2)] by (simp add: table_def split: option.split)
  with assms(1) fetch_job_frame(2) [OF assms(2)] show ?thesis
    using store_inv_same_table by blast
qed

lemma connect_inv: "unique_rows rows \<Longrightarrow> store_inv (connect rows ls)"
  by (simp add: store_inv_def connect_def)

lemma reconnect_inv: "store_inv db \<Longrightarrow> store_inv (reconnect db)"
  by (simp add: reconnect_def store_inv_def connect_def)

section \<open>The outbox as a key registry\<close>

text \<open>
  The steps of other code on the same connection: a status update, a read, a reconnection.
\<close>

inductive store_step :: "sqlite \<Rightarrow> sqlite \<Rightarrow> bool" where
  step_update: "update_status i st a db = (res, db') \<Longrightarrow> store_step db db'"
| step_fetch: "fetch_job now p db = (res, db') \<Longrightarrow> store_step db db'"
| step_reconnect: "store_step db (reconnect db)"

lemma update_status_frame:
  "update_status i st a db = (res, db') \<Longrightarrow> committed db' = committed db"
  unfolding update_status_def by (erule exec_update_cases) simp_all

lemma store_step_committed: "store_step db db' \<Longrightarrow> committed db' = committed db"
  by (induction rule: store_step.induct)
     (auto simp: update_status_frame fetch_job_frame reconnect_def connect_def)

definition committed_keys :: "sqlite \<Rightarrow> string set" where
  "committed_keys db = set (keys_of (committed db))"

interpretation outbox: key_registry committed_keys idempotency_key
  "\<lambda>j. transaction (insert_outbox j)" store_step
proof
  fix j db r db' k
  assume run: "transaction (insert_outbox j) db = (Inr r, db')" and key: "idempotency_key j = Some k"
  from run show "k \<in> committed_keys db'"
    by (cases rule: transaction_cases) (auto simp: key row_of_def committed_keys_def)
  from run show "k \<notin> committed_keys db"
    by (cases rule: transaction_cases)
       (auto simp: key row_of_def committed_keys_def set_keys_of constraint_def split: if_splits)
next
  fix j db res db' assume "transaction (insert_outbox j) db = (res, db')"
  then show "committed_keys db \<subseteq> committed_keys db'"
    by (cases rule: transaction_cases) (auto simp: committed_keys_def)
next
  fix db db' assume "store_step db db'"
  then show "committed_keys db \<subseteq> committed_keys db'"
    by (simp add: committed_keys_def store_step_committed)
qed

section \<open>Reading rows back\<close>

lemma find_append: "find p (xs @ ys) = (case find p xs of Some x \<Rightarrow> Some x | None \<Rightarrow> find p ys)"
  by (induction xs) simp_all

lemma find_map_keep:
  "(\<And>x. p (f x) = p x) \<Longrightarrow> find p (map f xs) = map_option f (find p xs)"
  by (induction xs) simp_all

lemma job_of_row_of:
  "status j = Member st \<Longrightarrow> wf_json (payload j) \<Longrightarrow>
   job_of_row now (row_of j (status_value st)) = Inr (j\<lparr>created_at := now\<rparr>)"
  by (simp add: job_of_row_def row_of_def py_loads_def)

lemma fetch_job_unlocked:
  "locks db = [] \<Longrightarrow> fetch_job now p db =
     (case find p (table db) of None \<Rightarrow> Inr None
      | Some r \<Rightarrow> res_bind (job_of_row now r) (\<lambda>j. Inr (Some j)), db)"
  by (simp add: fetch_job_def exec_select_def next_lock_def split: option.split)

lemma constraint_None_find:
  assumes "constraint rows r = None"
  shows "find (\<lambda>x. r_id x = r_id r) rows = None"
    and "r_key r = Some k \<Longrightarrow> find (\<lambda>x. r_key x = Some k) rows = None"
  using assms by (auto simp: constraint_def find_None_iff image_iff split: if_splits)

lemma update_status_unlocked:
  "locks db = [] \<Longrightarrow> update_status i st a db =
     (Inr (), db\<lparr>working := Some (map (set_status i st a) (table db))\<rparr>)"
  by (simp add: update_status_def exec_update_def next_lock_def open_txn_def table_def)

lemma job_of_row_set_status:
  assumes "job_of_row now r = Inr j"
  shows "job_of_row now (set_status (r_id r) st a r) =
    Inr (j\<lparr>status := Member st, attempts := (case a of None \<Rightarrow> attempts j | Some n \<Rightarrow> n)\<rparr>)"
  using assms
  by (cases a) (auto simp: job_of_row_def set_status_def res_bind_Inr_conv)

section \<open>Properties\<close>

text \<open>The UNIQUE constraints hold at every moment: no operation of the store, whatever locks
  it runs into, leaves two rows with one id or two rows with one idempotency key, neither in the
  committed table nor in the view of the open transaction.\<close>

theorem store_operations_keep_unique:
  assumes "store_inv db"
  shows "store_inv (snd (insert_outbox j db)) \<and>
    store_inv (snd (update_status i st a db)) \<and>
    store_inv (snd (get_job now i db)) \<and>
    store_inv (snd (find_by_idempotency_key now k db)) \<and>
    store_inv (snd (transaction (insert_outbox j) db)) \<and>
    store_inv (reconnect db)"
  using assms insert_outbox_inv update_status_inv fetch_job_inv transaction_inv reconnect_inv
  by (metis get_job_def find_by_idempotency_key_def prod.collapse)

theorem store_operations_keep_unique_witness:
  "store_inv (snd (transaction (insert_outbox sample_job) (connect [] [])))"
  using store_operations_keep_unique [of "connect [] []" sample_job]
  by (simp add: connect_inv unique_rows_def)

text \<open>The outbox insert is atomic: it either returns with the job's row appended to the
  committed table, or raises with the committed table as it was, and it leaves the connection
  inside a transaction only if it was inside one before.\<close>

theorem outbox_insert_atomic:
  assumes "transaction (insert_outbox j) db = (res, db')"
  shows "(case res of
      Inr _ \<Rightarrow> (\<exists>st. status j = Member st \<and>
        committed db' = committed db @ [row_of j (status_value st)])
    | Inl _ \<Rightarrow> committed db' = committed db) \<and> (working db = None \<longrightarrow> working db' = None)"
  using assms by (cases rule: transaction_cases) auto

theorem outbox_insert_atomic_witness:
  "committed (snd (transaction (insert_outbox sample_job) (connect [] [False, True]))) = []"
proof -
  let ?db = "connect [] [False, True]"
  have res: "transaction (insert_outbox sample_job) ?db =
      (Inl locked, \<lparr>committed = [], working = None, locks = []\<rparr>)"
    by (simp add: transaction_def begin_immediate_def next_lock_def connect_def open_txn_def
      table_def io_bind_def insert_outbox_def status_attr_def exec_insert_def rollback_def
      locked_def)
  from outbox_insert_atomic [OF res] res show ?thesis by (simp add: connect_def)
qed

text \<open>C36. What was inserted is read back: after a successful outbox insert the job is found by its
  id and by its idempotency key with every field it had, except that \<open>created_at\<close> is the current
  clock reading instead of the stored time.\<close>

theorem outbox_insert_get:
  assumes "wf_job j" "transaction (insert_outbox j) db = (Inr u, db')" "locks db' = []"
  shows "fst (get_job now (jid j) db') = Inr (Some (j\<lparr>created_at := now\<rparr>)) \<and>
    (\<forall>k. idempotency_key j = Some k \<longrightarrow>
       fst (find_by_idempotency_key now k db') = Inr (Some (j\<lparr>created_at := now\<rparr>)))"
  using assms(2)
proof (cases rule: transaction_cases)
  case (ok st)
  let ?r = "row_of j (status_value st)"
  have tab: "table db' = committed db @ [?r]" using ok by simp
  have row: "r_id ?r = jid j" "r_key ?r = idempotency_key j" by (simp_all add: row_of_def)
  have job: "job_of_row now ?r = Inr (j\<lparr>created_at := now\<rparr>)"
    using ok assms(1) by (auto simp: job_of_row_of wf_job_def)
  show ?thesis
    using constraint_None_find [OF ok(4)] row
    by (simp add: get_job_def find_by_idempotency_key_def fetch_job_unlocked [OF assms(3)] tab
      find_append job)
qed simp

theorem outbox_insert_get_witness:
  "fst (get_job base_time ''job_0123456789abcdef''
     (snd (transaction (insert_outbox sample_job) (connect [] [])))) =
   Inr (Some (sample_job\<lparr>created_at := base_time\<rparr>))"
proof -
  have "transaction (insert_outbox sample_job) (connect [] []) =
      (Inr (), connect [row_of sample_job ''pending''] [])"
    by (simp add: transaction_def begin_immediate_def next_lock_def connect_def open_txn_def
      table_def io_bind_def insert_outbox_def status_attr_def exec_insert_def constraint_def
      commit_def)
  from outbox_insert_get [OF _ this, of base_time] this show ?thesis by (simp add: connect_def)
qed

text \<open>A status update shows in the rows the same connection reads: after \<open>update_status\<close> the job
  of that id is read with the new status (and the new attempt count, where one is given), and
  every other job is read as before.\<close>

theorem update_status_get:
  assumes "locks db = []" "fst (get_job now i db) = Inr (Some j)"
  shows "fst (get_job now i (snd (update_status i' st a db))) =
    Inr (Some (if i = i'
      then j\<lparr>status := Member st, attempts := (case a of None \<Rightarrow> attempts j | Some n \<Rightarrow> n)\<rparr>
      else j))"
proof -
  let ?f = "set_status i' st a"
  from assms obtain r where r: "find (\<lambda>r. r_id r = i) (table db) = Some r" "job_of_row now r = Inr j"
    by (auto simp: get_job_def fetch_job_unlocked res_bind_Inr_conv split: option.splits)
  then have "r_id r = i" by (auto simp: find_Some_iff)
  then have "job_of_row now (?f r) = Inr (if i = i'
      then j\<lparr>status := Member st, attempts := (case a of None \<Rightarrow> attempts j | Some n \<Rightarrow> n)\<rparr> else j)"
    using r(2) job_of_row_set_status [of now r j st a] by (auto simp: set_status_def)
  moreover have "find (\<lambda>r. r_id r = i) (map ?f (table db)) = Some (?f r)"
    using r(1) by (simp add: find_map_keep)
  ultimately show ?thesis
    using assms(1) by (simp add: update_status_unlocked get_job_def fetch_job_unlocked)
qed

theorem update_status_get_witness:
  "fst (get_job base_time ''job_0123456789abcdef''
     (snd (update_status ''job_0123456789abcdef'' COMPLETED None
        (connect [row_of sample_job ''pending''] [])))) =
   Inr (Some (sample_job\<lparr>created_at := base_time, status := Member COMPLETED\<rparr>))"
proof -
  let ?db = "connect [row_of sample_job ''pending''] []" and ?i = "''job_0123456789abcdef''"
  have "job_of_row base_time (row_of sample_job (status_value PENDING)) = Inr (sample_job\<lparr>created_at := base_time\<rparr>)"
    by (rule job_of_row_of) simp_all
  then have got: "fst (get_job base_time ?i ?db) = Inr (Some (sample_job\<lparr>created_at := base_time\<rparr>))"
    by (simp add: get_job_def fetch_job_unlocked connect_def table_def row_of_def)
  have "locks ?db = []" by (simp add: connect_def)
  from update_status_get [OF this got] show ?thesis by simp
qed

text \<open>\<open>update_status\<close> is never committed: whatever its outcome, the committed table is
  untouched and the connection is left inside the transaction the statement opened, so the next
  \<open>transaction()\<close> on it raises \<open>OperationalError\<close> without running its body, and closing the
  connection loses every update.\<close>

theorem update_status_not_durable:
  fixes body :: "(sqlite, exn, unit) io"
  shows "(let db' = snd (update_status i st a db) in
    committed db' = committed db \<and>
    transaction body db' = (Inl nested_begin, db') \<and>
    committed (reconnect db') = committed db)"
proof -
  obtain res db' where run: "update_status i st a db = (res, db')" by fastforce
  then have "working db' \<noteq> None" "committed db' = committed db"
    unfolding update_status_def by (auto elim: exec_update_cases)
  with run show ?thesis
    by (simp add: transaction_def begin_immediate_def reconnect_def connect_def)
qed

text \<open>No idempotency key is accepted twice: over any run of outbox inserts (each accepted or
  rejected), status updates, reads and reconnections, the keys of the accepted jobs are distinct,
  none of them was in the table at the start, and all of them are in it at the end.\<close>

theorem outbox_accepts_key_once:
  assumes "registry_run (\<lambda>j. transaction (insert_outbox j)) store_step db js db'"
  shows "distinct (accepted_keys idempotency_key js) \<and>
    set (accepted_keys idempotency_key js) \<subseteq> committed_keys db' - committed_keys db"
  using assms by (rule outbox.run_accepts_once)

theorem outbox_accepts_key_once_witness:
  "let j = sample_job\<lparr>idempotency_key := Some ''k''\<rparr> in
   distinct (accepted_keys idempotency_key ([] @ [j])) \<and>
   set (accepted_keys idempotency_key ([] @ [j])) \<subseteq>
     committed_keys (connect [row_of j ''pending''] []) - committed_keys (connect [] [])"
proof -
  define j where "j = sample_job\<lparr>idempotency_key := Some ''k''\<rparr>"
  have "transaction (insert_outbox j) (connect [] []) = (Inr (), connect [row_of j ''pending''] [])"
    by (simp add: transaction_def begin_immediate_def next_lock_def connect_def open_txn_def
      table_def io_bind_def insert_outbox_def status_attr_def exec_insert_def constraint_def
      commit_def j_def)
  then have "registry_run (\<lambda>j. transaction (insert_outbox j)) store_step (connect [] []) ([] @ [j])
      (connect [row_of j ''pending''] [])"
    by (intro run_accept [where t = "connect [] []"] run_start)
  from outbox_accepts_key_once [OF this] show ?thesis by (simp only: j_def Let_def)
qed

end
