(* ===== verification/SharedStore.thy ===== *)
theory SharedStore
  imports SqliteStore Runs
begin

text \<open>
  Several connections to one database file: those of a process's threads and those of other
  processes. Each runs the statements of \<open>relayq/infrastructure/sqlite_store.py\<close> one at a time;
  statements of different connections come in any order, and a connection can be closed at any
  moment, its process dying included.

  SQLite's part is as documented for the journal mode the store sets: readers neither wait nor
  make others wait, at most one connection holds the write lock, the lock is taken by
  \<open>BEGIN IMMEDIATE\<close> or by the first data-changing statement of a transaction and kept until the
  transaction ends, and a statement that needs the lock while another connection holds it raises
  once the busy timeout has passed.
\<close>

section \<open>State\<close>

text \<open>A connection: no transaction, an open one without the write lock, or one that holds it, with its
  view of the table. Its user: between two calls, or inside \<open>transaction\<close> after the statement that
  began it, after the insert, or on the way to the rollback.\<close>

datatype conn = Idle | Opened | Writing "row list"

datatype client = Ready | Begun job | Inserted job | Failing

record shared_db =
  sh_rows :: "row list"
  sh_conns :: "(conn \<times> client) list"

definition writing :: "shared_db \<Rightarrow> nat \<Rightarrow> bool" where
  "writing s i = (case fst (sh_conns s ! i) of Writing _ \<Rightarrow> True | _ \<Rightarrow> False)"

definition others_write :: "nat \<Rightarrow> shared_db \<Rightarrow> bool" where
  "others_write i s = list_ex (\<lambda>k. k \<noteq> i \<and> writing s k) [0..<length (sh_conns s)]"

text \<open>A statement of connection i: the connection as \<open>SqliteStore\<close> sees it, and what it is afterwards. A
  data-changing statement that does not get the lock leaves a transaction open.\<close>

definition view :: "nat \<Rightarrow> shared_db \<Rightarrow> sqlite" where
  "view i s = \<lparr>committed = sh_rows s,
     working = (case fst (sh_conns s ! i) of Idle \<Rightarrow> None | Opened \<Rightarrow> Some (sh_rows s) | Writing t \<Rightarrow> Some t),
     locks = [others_write i s]\<rparr>"

definition conn_after :: "nat \<Rightarrow> shared_db \<Rightarrow> sqlite \<Rightarrow> conn" where
  "conn_after i s db = (case working db of
     None \<Rightarrow> Idle | Some t \<Rightarrow> if others_write i s then Opened else Writing t)"

definition put_conn :: "nat \<Rightarrow> conn \<Rightarrow> client \<Rightarrow> shared_db \<Rightarrow> shared_db" where
  "put_conn i c cl s = s\<lparr>sh_conns := (sh_conns s)[i := (c, cl)]\<rparr>"

section \<open>Steps\<close>

text \<open>The events of connection i: the job of a transaction begun, that of a transaction committed, a
  transaction refused or rolled back, the connection closed.\<close>

datatype shared_event = Began nat job | Accepted nat job | Refused nat | Closed nat | Quiet

text \<open>\<open>transaction\<close> around \<open>insert_outbox\<close>, statement by statement; \<open>update_status\<close> by a user who is between
  two calls; closing; a new connection. A statement \<open>BEGIN IMMEDIATE\<close> that raises changes nothing.\<close>

inductive shared_step :: "shared_db \<Rightarrow> shared_event \<Rightarrow> shared_db \<Rightarrow> bool" where
  begins: "i < length (sh_conns s) \<Longrightarrow> snd (sh_conns s ! i) = Ready \<Longrightarrow>
    begin_immediate (view i s) = (Inr (), db) \<Longrightarrow>
    shared_step s (Began i j) (put_conn i (conn_after i s db) (Begun j) s)"
| refused: "i < length (sh_conns s) \<Longrightarrow> snd (sh_conns s ! i) = Ready \<Longrightarrow>
    begin_immediate (view i s) = (Inl e, db) \<Longrightarrow> shared_step s (Refused i) s"
| inserts: "i < length (sh_conns s) \<Longrightarrow> snd (sh_conns s ! i) = Begun j \<Longrightarrow>
    insert_outbox j (view i s) = (Inr (), db) \<Longrightarrow>
    shared_step s Quiet (put_conn i (conn_after i s db) (Inserted j) s)"
| insert_fails: "i < length (sh_conns s) \<Longrightarrow> snd (sh_conns s ! i) = Begun j \<Longrightarrow>
    insert_outbox j (view i s) = (Inl e, db) \<Longrightarrow>
    shared_step s Quiet (put_conn i (conn_after i s db) Failing s)"
| commits: "i < length (sh_conns s) \<Longrightarrow> snd (sh_conns s ! i) = Inserted j \<Longrightarrow>
    commit (view i s) = (Inr (), db) \<Longrightarrow>
    shared_step s (Accepted i j) (put_conn i (conn_after i s db) Ready (s\<lparr>sh_rows := committed db\<rparr>))"
| commit_fails: "i < length (sh_conns s) \<Longrightarrow> snd (sh_conns s ! i) = Inserted j \<Longrightarrow>
    commit (view i s) = (Inl e, db) \<Longrightarrow>
    shared_step s Quiet (put_conn i (conn_after i s db) Failing s)"
| rolls_back: "i < length (sh_conns s) \<Longrightarrow> snd (sh_conns s ! i) = Failing \<Longrightarrow>
    shared_step s (Refused i) (put_conn i (conn_after i s (rollback (view i s))) Ready s)"
| marks: "i < length (sh_conns s) \<Longrightarrow> snd (sh_conns s ! i) = Ready \<Longrightarrow>
    update_status k st a (view i s) = (res, db) \<Longrightarrow>
    shared_step s Quiet (put_conn i (conn_after i s db) Ready s)"
| closes: "i < length (sh_conns s) \<Longrightarrow> shared_step s (Closed i) (put_conn i Idle Ready s)"
| opens: "shared_step s Quiet (s\<lparr>sh_conns := sh_conns s @ [(Idle, Ready)]\<rparr>)"

abbreviation shared_run :: "shared_db \<Rightarrow> shared_event list \<Rightarrow> shared_db \<Rightarrow> bool" where
  "shared_run \<equiv> run_of shared_step"

lemmas shared_nil = run_nil [where step = shared_step]
lemmas shared_snoc = run_snoc [where step = shared_step]

inductive_cases shared_stepE [consumes 1, case_names begins refused inserts insert_fails commits commit_fails rolls_back
  marks closes opens]: "shared_step s ev t"

definition accepted :: "shared_event list \<Rightarrow> job list" where
  "accepted evs = List.map_filter (\<lambda>ev. case ev of Accepted i j \<Rightarrow> Some j | _ \<Rightarrow> None) evs"

lemma accepted_simps [simp]:
  "accepted [] = []" "accepted (evs @ evs') = accepted evs @ accepted evs'"
  "accepted [ev] = (case ev of Accepted i j \<Rightarrow> [j] | _ \<Rightarrow> [])"
  by (simp_all add: accepted_def List.map_filter_def split: shared_event.split)

definition fresh_db :: "row list \<Rightarrow> nat \<Rightarrow> shared_db" where
  "fresh_db rows n = \<lparr>sh_rows = rows, sh_conns = replicate n (Idle, Ready)\<rparr>"

section \<open>The invariant\<close>

text \<open>One writer at a time; a user inside a transaction holds the lock, and its view is the committed
  table, with the new row after the insert.\<close>

definition client_ok :: "row list \<Rightarrow> conn \<times> client \<Rightarrow> bool" where
  "client_ok rows p = (case p of
     (c, Begun j) \<Rightarrow> c = Writing rows
   | (c, Inserted j) \<Rightarrow> (\<exists>st. status j = Member st \<and> constraint rows (row_of j (status_value st)) = None \<and>
       c = Writing (rows @ [row_of j (status_value st)]))
   | _ \<Rightarrow> True)"

definition shared_inv :: "shared_db \<Rightarrow> bool" where
  "shared_inv s \<longleftrightarrow>
     (\<forall>i<length (sh_conns s). writing s i \<longrightarrow> \<not> others_write i s) \<and>
     (\<forall>i<length (sh_conns s). client_ok (sh_rows s) (sh_conns s ! i))"

lemma client_ok_simps [simp]:
  "client_ok rows (c, Ready)" "client_ok rows (c, Failing)"
  "client_ok rows (c, Begun j) \<longleftrightarrow> c = Writing rows"
  "client_ok rows (c, Inserted j) \<longleftrightarrow> (\<exists>st. status j = Member st \<and>
     constraint rows (row_of j (status_value st)) = None \<and> c = Writing (rows @ [row_of j (status_value st)]))"
  by (simp_all add: client_ok_def)

lemma others_write_iff:
  "others_write i s \<longleftrightarrow> (\<exists>k<length (sh_conns s). k \<noteq> i \<and> writing s k)"
  by (auto simp: others_write_def list_ex_iff)

lemma put_conn_simps [simp]:
  "sh_rows (put_conn i c cl s) = sh_rows s"
  "length (sh_conns (put_conn i c cl s)) = length (sh_conns s)"
  "i < length (sh_conns s) \<Longrightarrow> sh_conns (put_conn i c cl s) ! i = (c, cl)"
  "k \<noteq> i \<Longrightarrow> sh_conns (put_conn i c cl s) ! k = sh_conns s ! k"
  by (simp_all add: put_conn_def)

lemma writing_put_conn:
  "i < length (sh_conns s) \<Longrightarrow> writing (put_conn i c cl s) k \<longleftrightarrow>
     (if k = i then (\<exists>t. c = Writing t) else writing s k)"
  by (cases "k = i") (auto simp: writing_def split: conn.splits)

lemma writing_rows [simp]: "writing (s\<lparr>sh_rows := rows\<rparr>) k = writing s k"
  by (simp add: writing_def)

lemma others_write_rows [simp]: "others_write i (s\<lparr>sh_rows := rows\<rparr>) = others_write i s"
  by (simp add: others_write_iff)

lemma others_write_put_conn [simp]:
  "i < length (sh_conns s) \<Longrightarrow> others_write i (put_conn i c cl s) = others_write i s"
  by (auto simp: others_write_iff writing_put_conn)

lemma conn_after_Writing:
  "conn_after i s db = Writing t \<longleftrightarrow> working db = Some t \<and> \<not> others_write i s"
  by (auto simp: conn_after_def split: option.split)

text \<open>A connection moves: it takes the lock only when no other holds it, and the committed table changes
  only when it holds the lock.\<close>

lemma shared_inv_put:
  assumes inv: "shared_inv s" and i: "i < length (sh_conns s)"
    and lock: "(\<exists>t. c = Writing t) \<longrightarrow> \<not> others_write i s"
    and rows: "rows \<noteq> sh_rows s \<longrightarrow> writing s i"
    and ok: "client_ok rows (c, cl)"
  shows "shared_inv (put_conn i c cl (s\<lparr>sh_rows := rows\<rparr>))"
  unfolding shared_inv_def
proof (intro conjI allI impI)
  let ?t = "put_conn i c cl (s\<lparr>sh_rows := rows\<rparr>)"
  fix k assume k: "k < length (sh_conns ?t)"
  show "client_ok (sh_rows ?t) (sh_conns ?t ! k)"
  proof (cases "k = i")
    case False
    have old: "client_ok (sh_rows s) (sh_conns s ! k)" using inv k by (simp add: shared_inv_def)
    show ?thesis
    proof (cases "rows = sh_rows s")
      case False
      with rows inv i have "\<not> others_write i s" by (simp add: shared_inv_def)
      with \<open>k \<noteq> i\<close> k have "\<not> writing s k" by (auto simp: others_write_iff)
      with old have "client_ok rows (sh_conns s ! k)"
        by (cases "sh_conns s ! k"; cases "snd (sh_conns s ! k)") (auto simp: writing_def)
      with \<open>k \<noteq> i\<close> show ?thesis by simp
    qed (use False old in simp)
  qed (use i ok in simp)
next
  let ?s = "s\<lparr>sh_rows := rows\<rparr>" let ?t = "put_conn i c cl ?s"
  fix k assume k: "k < length (sh_conns ?t)" and w: "writing ?t k"
  show "\<not> others_write k ?t"
  proof (cases "k = i")
    case True
    with w i lock show ?thesis by (auto simp: writing_put_conn)
  next
    case False
    with w i have wk: "writing s k" by (simp add: writing_put_conn)
    with inv k have "\<not> others_write k s" by (simp add: shared_inv_def)
    moreover have "\<not> (\<exists>t. c = Writing t)"
      using lock wk False k by (auto simp: others_write_iff)
    ultimately show ?thesis using i by (auto simp: others_write_iff writing_put_conn)
  qed
qed

lemma view_simps [simp]:
  "committed (view i s) = sh_rows s" "locks (view i s) = [others_write i s]"
  "fst (sh_conns s ! i) = Idle \<Longrightarrow> working (view i s) = None"
  "fst (sh_conns s ! i) = Opened \<Longrightarrow> working (view i s) = Some (sh_rows s)"
  "fst (sh_conns s ! i) = Writing t \<Longrightarrow> working (view i s) = Some t"
  by (simp_all add: view_def)

lemma next_lock_view:
  "locks db = [l] \<Longrightarrow> next_lock db = (l, db\<lparr>locks := []\<rparr>)"
  by (simp add: next_lock_def)

lemma begin_view_ok:
  "begin_immediate (view i s) = (Inr (), db) \<Longrightarrow>
     \<not> others_write i s \<and> working db = Some (sh_rows s) \<and> fst (sh_conns s ! i) = Idle"
  by (cases "fst (sh_conns s ! i)")
     (auto simp: begin_immediate_def next_lock_view open_txn_def table_def split: if_splits)

lemma writer_alone:
  assumes "shared_inv s" "i < length (sh_conns s)" "fst (sh_conns s ! i) = Writing t"
  shows "\<not> others_write i s"
  using assms by (simp add: shared_inv_def writing_def)

lemma client_okD:
  assumes "shared_inv s" "i < length (sh_conns s)"
  shows "snd (sh_conns s ! i) = Begun j \<Longrightarrow> fst (sh_conns s ! i) = Writing (sh_rows s)"
    and "snd (sh_conns s ! i) = Inserted j \<Longrightarrow> \<exists>st. status j = Member st \<and>
      constraint (sh_rows s) (row_of j (status_value st)) = None \<and>
      fst (sh_conns s ! i) = Writing (sh_rows s @ [row_of j (status_value st)])"
  using assms by (cases "sh_conns s ! i"; force simp: shared_inv_def)+

text \<open>What a step does to the committed table, and that it keeps the invariant.\<close>

lemma shared_inv_put_same:
  assumes "shared_inv s" "i < length (sh_conns s)" "conn_after i s db = c" "client_ok (sh_rows s) (c, cl)"
  shows "shared_inv (put_conn i c cl s)"
  using shared_inv_put [OF assms(1,2) _ _ assms(4)] assms(3) by (auto simp: conn_after_Writing)

lemma shared_step_inv:
  assumes "shared_inv s" "shared_step s ev t"
  shows "shared_inv t \<and> (case ev of
      Accepted i j \<Rightarrow> (\<exists>st. status j = Member st \<and> constraint (sh_rows s) (row_of j (status_value st)) = None \<and>
        sh_rows t = sh_rows s @ [row_of j (status_value st)])
    | _ \<Rightarrow> sh_rows t = sh_rows s)"
  using assms(2)
proof (cases rule: shared_stepE)
  case (begins i db j)
  from begin_view_ok [OF begins(5)] have "conn_after i s db = Writing (sh_rows s)"
    by (simp add: conn_after_Writing)
  with begins assms(1) show ?thesis by (simp add: shared_inv_put_same)
next
  case refused
  with assms(1) show ?thesis by simp
next
  case (inserts i j db)
  note w = client_okD(1) [OF assms(1) inserts(3,4)]
  note free = writer_alone [OF assms(1) inserts(3) w]
  from inserts(5) obtain st where st: "status j = Member st"
    "constraint (sh_rows s) (row_of j (status_value st)) = None"
    "working db = Some (sh_rows s @ [row_of j (status_value st)])"
    using w by (cases rule: insert_outbox_cases) (auto simp: table_def)
  then have "conn_after i s db = Writing (sh_rows s @ [row_of j (status_value st)])"
    using free by (simp add: conn_after_Writing)
  with inserts st assms(1) show ?thesis by (simp add: shared_inv_put_same)
next
  case (insert_fails i j e db)
  with assms(1) show ?thesis by (simp add: shared_inv_put_same)
next
  case (commits i j db)
  from client_okD(2) [OF assms(1) commits(3,4)] obtain st where st: "status j = Member st"
    "constraint (sh_rows s) (row_of j (status_value st)) = None"
    "fst (sh_conns s ! i) = Writing (sh_rows s @ [row_of j (status_value st)])"
    by blast
  from commits(5) have db: "working db = None" "committed db = sh_rows s @ [row_of j (status_value st)]"
    using st(3) by (cases rule: commit_cases; simp add: table_def)+
  then have "conn_after i s db = Idle" by (simp add: conn_after_def)
  with commits db st assms(1) show ?thesis
    using shared_inv_put [of s i Idle "committed db" Ready] by (simp add: writing_def)
next
  case (commit_fails i j e db)
  with assms(1) show ?thesis by (simp add: shared_inv_put_same)
next
  case (rolls_back i)
  with assms(1) show ?thesis by (simp add: shared_inv_put_same)
next
  case (marks i k st a res db)
  with assms(1) show ?thesis by (simp add: shared_inv_put_same)
next
  case (closes i)
  with assms(1) show ?thesis
    using shared_inv_put [of s i Idle "sh_rows s" Ready] by simp
next
  case opens
  have "writing (s\<lparr>sh_conns := sh_conns s @ [(Idle, Ready)]\<rparr>) k \<longleftrightarrow> k < length (sh_conns s) \<and> writing s k"
    if "k \<le> length (sh_conns s)" for k
    using that by (auto simp: writing_def nth_append)
  with opens assms(1) show ?thesis
    by (auto simp: shared_inv_def others_write_iff nth_append less_Suc_eq)
qed

lemma fresh_inv: "shared_inv (fresh_db rows n)"
  by (simp add: shared_inv_def fresh_db_def writing_def)

section \<open>Transactions in sequence\<close>

lemma transaction_connect:
  "status j = Member st \<Longrightarrow> constraint rows (row_of j (status_value st)) = None \<Longrightarrow>
   transaction (insert_outbox j) (connect rows []) = (Inr (), connect (rows @ [row_of j (status_value st)]) [])"
  by (simp add: transaction_def begin_immediate_def next_lock_def connect_def open_txn_def table_def io_bind_def
    io_ret_def insert_outbox_def status_attr_def exec_insert_def commit_def)

text \<open>The specification: an accepted job is one whole transaction on the committed table; every other event
  leaves the table alone.\<close>

definition serial_step :: "sqlite \<Rightarrow> shared_event \<Rightarrow> sqlite \<Rightarrow> bool" where
  "serial_step db ev db' \<longleftrightarrow> (case ev of
     Accepted i j \<Rightarrow> transaction (insert_outbox j) db = (Inr (), db')
   | _ \<Rightarrow> db' = db)"

interpretation serial: refinement_map shared_step shared_inv serial_step "\<lambda>s. connect (sh_rows s) []"
proof
  fix s ev t assume step: "shared_inv s" "shared_step s ev t"
  show "shared_inv t" using shared_step_inv [OF step] by blast
  show "serial_step (connect (sh_rows s) []) ev (connect (sh_rows t) [])"
    using shared_step_inv [OF step] transaction_connect
    by (auto simp: serial_step_def split: shared_event.splits)
qed

lemma serial_run_registry:
  assumes "run_of serial_step db evs db'"
  shows "registry_run (\<lambda>j. transaction (insert_outbox j)) other db (accepted evs) db'"
  using assms
proof (induction rule: run_of.induct)
  case (run_snoc evs db1 ev db2)
  then show ?case
    by (cases ev) (auto simp: serial_step_def intro: registry_run.run_accept)
qed (simp add: registry_run.run_start)

lemma shared_run_serial:
  assumes "shared_run s evs t" "shared_inv s"
  shows "registry_run (\<lambda>j. transaction (insert_outbox j)) other (connect (sh_rows s) []) (accepted evs)
    (connect (sh_rows t) [])"
  by (rule serial_run_registry [OF serial.run_abs [OF assms]])

lemma shared_run_rows:
  assumes "shared_run s evs t" "shared_inv s"
  shows "\<exists>new. sh_rows t = sh_rows s @ new \<and>
    list_all2 (\<lambda>j r. \<exists>st. status j = Member st \<and> r = row_of j (status_value st)) (accepted evs) new \<and>
    (unique_rows (sh_rows s) \<longrightarrow> unique_rows (sh_rows t))"
  using assms
proof (induction rule: run_of.induct)
  case (run_snoc evs t ev u)
  from run_snoc.IH [OF run_snoc.prems] obtain new where new: "sh_rows t = sh_rows s @ new"
    "list_all2 (\<lambda>j r. \<exists>st. status j = Member st \<and> r = row_of j (status_value st)) (accepted evs) new"
    "unique_rows (sh_rows s) \<longrightarrow> unique_rows (sh_rows t)"
    by blast
  note step = shared_step_inv [OF serial.run_keeps [OF run_snoc.hyps(1) run_snoc.prems] run_snoc.hyps(2)]
  show ?case
  proof (cases ev)
    case (Accepted i j)
    with step obtain st where st: "status j = Member st"
      "constraint (sh_rows t) (row_of j (status_value st)) = None"
      "sh_rows u = sh_rows t @ [row_of j (status_value st)]" by auto
    have "unique_rows (sh_rows t) \<Longrightarrow> unique_rows (sh_rows u)" using st(2,3) unique_rows_insert by simp
    with new st Accepted show ?thesis
      by (intro exI [of _ "new @ [row_of j (status_value st)]"]) (simp add: list_all2_appendI)
  qed (use step new in auto)
qed simp

section \<open>The lock of a status update\<close>

text \<open>A user between two calls whose connection holds the lock, as a status update leaves it.\<close>

lemma update_view_ok:
  assumes "shared_inv s" "update_status k st a (view i s) = (Inr (), db)"
  shows "\<exists>w. conn_after i s db = Writing w"
proof -
  have "\<not> others_write i s"
    using assms(2) by (auto simp: update_status_def exec_update_def open_txn_def next_lock_def view_def)
  moreover obtain w where "working db = Some w"
    using assms(2) unfolding update_status_def by (cases rule: exec_update_cases) auto
  ultimately show ?thesis by (auto simp: conn_after_Writing)
qed

lemma held_lock_step:
  assumes inv: "shared_inv s" and i: "i < length (sh_conns s)" and held: "sh_conns s ! i = (Writing w, Ready)"
    and step: "shared_step s ev t" and ev: "ev \<noteq> Closed i"
  shows "i < length (sh_conns t) \<and> (\<exists>w. sh_conns t ! i = (Writing w, Ready)) \<and>
    accepted [ev] = [] \<and> sh_rows t = sh_rows s"
proof -
  have alone: "k = i" if "k < length (sh_conns s)" "fst (sh_conns s ! k) = Writing v" for k v
  proof (rule ccontr)
    assume "k \<noteq> i"
    then have "others_write k s" using i held by (auto simp: others_write_iff writing_def)
    with writer_alone [OF inv that] show False by simp
  qed
  have user: "k \<noteq> i" if "snd (sh_conns s ! k) \<noteq> Ready" for k using that held by auto
  show ?thesis
    using step
  proof (cases rule: shared_stepE)
    case (begins k db j)
    from begin_view_ok [OF begins(5)] have "\<not> others_write k s" "fst (sh_conns s ! k) = Idle" by simp_all
    then have False using i held by (cases "k = i") (auto simp: others_write_iff writing_def)
    then show ?thesis ..
  next
    case (inserts k j db)
    with client_okD(1) [OF inv] alone user show ?thesis by (metis client.distinct(1))
  next
    case (insert_fails k j e db)
    with client_okD(1) [OF inv] alone user show ?thesis by (metis client.distinct(1))
  next
    case (commits k j db)
    with client_okD(2) [OF inv] alone user show ?thesis by (metis client.distinct(3))
  next
    case (commit_fails k j e db)
    with client_okD(2) [OF inv] alone user show ?thesis by (metis client.distinct(3))
  next
    case (rolls_back k)
    with user [of k] i held show ?thesis by (simp add: accepted_def List.map_filter_def)
  next
    case (marks k i' st a res db)
    show ?thesis
    proof (cases "k = i")
      case True
      have "\<not> others_write i s" using writer_alone [OF inv i] held by simp
      moreover obtain v where "working db = Some v"
        using marks(5) unfolding update_status_def by (cases rule: exec_update_cases) auto
      ultimately have "conn_after i s db = Writing v" by (simp add: conn_after_Writing)
      with True marks i show ?thesis by (simp add: accepted_def List.map_filter_def)
    next
      case False
      with marks i held show ?thesis by (simp add: accepted_def List.map_filter_def)
    qed
  next
    case (closes k)
    with ev i held show ?thesis by (simp add: accepted_def List.map_filter_def)
  next
    case refused
    with i held show ?thesis by (simp add: accepted_def List.map_filter_def)
  next
    case opens
    with i held show ?thesis by (simp add: nth_append)
  qed
qed

lemma held_lock_run:
  assumes "shared_run s evs t" "shared_inv s" "i < length (sh_conns s)" "sh_conns s ! i = (Writing w, Ready)"
    and "Closed i \<notin> set evs"
  shows "i < length (sh_conns t) \<and> (\<exists>w. sh_conns t ! i = (Writing w, Ready)) \<and> accepted evs = [] \<and>
    sh_rows t = sh_rows s"
  using assms
proof (induction rule: run_of.induct)
  case (run_snoc evs t ev u)
  from run_snoc.IH run_snoc.prems obtain v where t: "i < length (sh_conns t)"
    "sh_conns t ! i = (Writing v, Ready)" "accepted evs = []" "sh_rows t = sh_rows s" by auto
  have "ev \<noteq> Closed i" using run_snoc.prems by auto
  from held_lock_step [OF serial.run_keeps [OF run_snoc.hyps(1) run_snoc.prems(1)] t(1,2) run_snoc.hyps(2) this] t
  show ?case by simp
qed simp

lemma begin_refused:
  assumes "shared_inv s" "i < length (sh_conns s)" "fst (sh_conns s ! i) = Writing w" "k < length (sh_conns s)"
  shows "\<exists>e. fst (begin_immediate (view k s)) = Inl e \<and> is_exception e"
proof (cases "fst (sh_conns s ! k)")
  case Idle
  with assms have "others_write k s" by (auto simp: others_write_iff writing_def)
  with Idle show ?thesis by (simp add: begin_immediate_def next_lock_view locked_def)
qed (simp_all add: begin_immediate_def nested_begin_def)

section \<open>Properties\<close>

text \<open>C13. Interleaved transactions are serializable. In any interleaving of the statements of any number
  of connections, with status updates, failures and connections closed between any two statements,
  the committed table is that of the accepted transactions run whole, one after the other in the
  order of their commits: the rows that were there, then one row for each accepted job, with the
  status it was inserted with. So ids and keys stay unique and no key is accepted twice.\<close>

theorem interleaved_transactions_serialize:
  assumes "shared_run (fresh_db rows n) evs t"
  shows "registry_run (\<lambda>j. transaction (insert_outbox j)) (\<lambda>_ _. False) (connect rows []) (accepted evs)
      (connect (sh_rows t) []) \<and>
    distinct (accepted_keys idempotency_key (accepted evs)) \<and>
    (unique_rows rows \<longrightarrow> unique_rows (sh_rows t)) \<and>
    (\<exists>new. sh_rows t = rows @ new \<and> list_all2
      (\<lambda>j r. \<exists>st. status j = Member st \<and> r = row_of j (status_value st)) (accepted evs) new)"
proof -
  have serial: "registry_run (\<lambda>j. transaction (insert_outbox j)) other (connect rows []) (accepted evs)
      (connect (sh_rows t) [])" for other
    using shared_run_serial [OF assms fresh_inv] by (simp add: fresh_db_def)
  from outbox.run_accepts_once [OF serial]
  have "distinct (accepted_keys idempotency_key (accepted evs))" by simp
  moreover note serial [of "\<lambda>_ _. False"]
  ultimately show ?thesis
    using shared_run_rows [OF assms fresh_inv] by (auto simp: fresh_db_def)
qed

text \<open>Two connections: the second begins only after the first has committed.\<close>

lemma demo_shared_run:
  "\<exists>t. shared_run (fresh_db [] 2) [Began 0 sample_job, Refused 1, Quiet, Accepted 0 sample_job] t"
proof -
  let ?r = "row_of sample_job ''pending''"
  let ?s0 = "fresh_db [] 2"
  let ?s1 = "\<lparr>sh_rows = [], sh_conns = [(Writing [], Begun sample_job), (Idle, Ready)]\<rparr>"
  let ?s3 = "\<lparr>sh_rows = [], sh_conns = [(Writing [?r], Inserted sample_job), (Idle, Ready)]\<rparr>"
  let ?s4 = "\<lparr>sh_rows = [?r], sh_conns = [(Idle, Ready), (Idle, Ready)]\<rparr>"
  note eval = view_def others_write_def writing_def conn_after_def put_conn_def begin_immediate_def next_lock_def
    open_txn_def table_def insert_outbox_def status_attr_def exec_insert_def constraint_def commit_def fresh_db_def
    locked_def numeral_2_eq_2
  have s1: "shared_step ?s0 (Began 0 sample_job) ?s1"
    using shared_step.begins [of 0 ?s0 _ sample_job] by (simp add: eval)
  have s2: "shared_step ?s1 (Refused 1) ?s1"
    using shared_step.refused [of 1 ?s1] by (simp add: eval)
  have s3: "shared_step ?s1 Quiet ?s3"
    using shared_step.inserts [of 0 ?s1 sample_job] by (simp add: eval)
  have s4: "shared_step ?s3 (Accepted 0 sample_job) ?s4"
    using shared_step.commits [of 0 ?s3 sample_job] by (simp add: eval)
  note snoc = shared_snoc
  from snoc [OF snoc [OF snoc [OF snoc [OF shared_nil s1] s2] s3] s4] show ?thesis by auto
qed

theorem interleaved_transactions_serialize_witness:
  "\<exists>t. shared_run (fresh_db [] 2) [Began 0 sample_job, Refused 1, Quiet, Accepted 0 sample_job] t \<and>
     map r_id (sh_rows t) = [''job_0123456789abcdef''] \<and> unique_rows (sh_rows t)"
proof -
  obtain t where run: "shared_run (fresh_db [] 2) [Began 0 sample_job, Refused 1, Quiet, Accepted 0 sample_job] t"
    using demo_shared_run by blast
  have acc: "accepted [Began 0 sample_job, Refused 1, Quiet, Accepted 0 sample_job] = [sample_job]"
    by (simp add: accepted_def List.map_filter_def)
  have "unique_rows []" by (simp add: unique_rows_def)
  with interleaved_transactions_serialize [OF run] run acc show ?thesis
    by (auto simp: list_all2_Cons1 row_of_def)
qed

text \<open>C35. One status update locks everyone out. After \<open>update_status\<close> has returned on a connection, and
  until that connection is closed, no transaction of any connection is accepted and the committed
  table never changes, in whatever order the others go on: every \<open>BEGIN IMMEDIATE\<close> raises. The
  update takes the write lock in a transaction that nothing ends.\<close>

theorem status_update_locks_out_all:
  assumes "shared_run (fresh_db rows n) evs0 s"
    and "i < length (sh_conns s)" "snd (sh_conns s ! i) = Ready"
    and "update_status k st a (view i s) = (Inr (), db)"
    and "shared_run (put_conn i (conn_after i s db) Ready s) evs t" "Closed i \<notin> set evs"
  shows "accepted evs = [] \<and> sh_rows t = sh_rows s \<and>
    (\<forall>c<length (sh_conns t). \<exists>e. fst (begin_immediate (view c t)) = Inl e \<and> is_exception e)"
proof -
  let ?s = "put_conn i (conn_after i s db) Ready s"
  note inv = serial.run_keeps [OF assms(1) fresh_inv]
  obtain w where w: "conn_after i s db = Writing w" using update_view_ok [OF inv assms(4)] by blast
  have "shared_step s Quiet ?s" using shared_step.marks [OF assms(2,3,4)] .
  with inv have inv': "shared_inv ?s" using shared_step_inv by blast
  have "sh_conns ?s ! i = (Writing w, Ready)" "i < length (sh_conns ?s)" using w assms(2) by simp_all
  with held_lock_run [OF assms(5) inv' _ _ assms(6)] obtain v where
    t: "i < length (sh_conns t)" "sh_conns t ! i = (Writing v, Ready)" "accepted evs = []" "sh_rows t = sh_rows s"
    by auto
  with begin_refused [OF serial.run_keeps [OF assms(5) inv'] t(1)] show ?thesis by auto
qed

theorem status_update_locks_out_all_witness:
  "\<exists>db t e. update_status ''job_1'' PROCESSING (Some 0) (view 0 (fresh_db [] 2)) = (Inr (), db) \<and>
     shared_run (put_conn 0 (conn_after 0 (fresh_db [] 2) db) Ready (fresh_db [] 2)) [Quiet] t \<and>
     fst (begin_immediate (view 1 t)) = Inl e"
proof -
  let ?s = "fresh_db [] 2"
  have ready: "0 < length (sh_conns ?s)" "snd (sh_conns ?s ! 0) = Ready" by (simp_all add: fresh_db_def)
  have "\<not> others_write 0 ?s" by (simp add: others_write_iff writing_def fresh_db_def)
  then obtain db where db: "update_status ''job_1'' PROCESSING (Some 0) (view 0 ?s) = (Inr (), db)"
    by (simp add: update_status_def exec_update_def next_lock_def open_txn_def)
  let ?t = "put_conn 0 (conn_after 0 ?s db) Ready ?s"
  let ?u = "?t\<lparr>sh_conns := sh_conns ?t @ [(Idle, Ready)]\<rparr>"
  have run: "shared_run ?t [Quiet] ?u"
    using shared_snoc [OF shared_nil shared_step.opens, of ?t] by simp
  have "1 < length (sh_conns ?u)" by (simp add: fresh_db_def)
  moreover have "Closed 0 \<notin> set [Quiet]" by simp
  ultimately obtain e where "fst (begin_immediate (view 1 ?u)) = Inl e"
    using status_update_locks_out_all [OF shared_nil ready db run] by blast
  with db run show ?thesis by blast
qed

end
