(* ===== verification/Redis.thy ===== *)
theory Redis
  imports Errors
begin

text \<open>
  The Redis client. Redis and redis-py are not part of the program, so the client is a parameter
  of every definition that talks to it: a record of the commands the program sends, each a
  function of an abstract server state \<open>'r\<close> that returns a reply or raises. Nothing is fixed about
  what the server does; where a theorem relies on documented behaviour of a command, the
  behaviour is a hypothesis of the theorem.

  Entry identifiers are opaque to the program and are plain texts. The fields of an entry are the
  pairs redis-py returns, with \<open>str\<close> or \<open>bytes\<close> on both sides.
\<close>

type_synonym fields = "(rtext \<times> rtext) list"
type_synonym entry = "string \<times> fields"

record 'r redis =
  rc_xgroup_create :: "string \<Rightarrow> string \<Rightarrow> string \<Rightarrow> bool \<Rightarrow> ('r, exn, unit) io"
    \<comment> \<open>stream, group, id, mkstream\<close>
  rc_xlen :: "string \<Rightarrow> ('r, exn, int) io"
  rc_xadd :: "string \<Rightarrow> (string \<times> string) list \<Rightarrow> int option \<Rightarrow> bool \<Rightarrow> ('r, exn, string) io"
    \<comment> \<open>key, fields, maxlen if passed, whether \<open>approximate=True\<close> is passed\<close>
  rc_xreadgroup :: "string \<Rightarrow> string \<Rightarrow> (string \<times> string) list \<Rightarrow> int \<Rightarrow> int \<Rightarrow>
      ('r, exn, (rtext \<times> entry list) list) io"
    \<comment> \<open>group, consumer, streams with their ids, count, block\<close>
  rc_xack :: "string \<Rightarrow> string \<Rightarrow> string \<Rightarrow> ('r, exn, int) io"
    \<comment> \<open>stream, group, entry id\<close>
  rc_xautoclaim :: "string \<Rightarrow> string \<Rightarrow> string \<Rightarrow> int \<Rightarrow> string \<Rightarrow> int \<Rightarrow>
      ('r, exn, (string \<times> entry list) option) io"
    \<comment> \<open>stream, group, consumer, min_idle_time, start_id, count; None for a reply without entries\<close>
  rc_xrevrange :: "string \<Rightarrow> string \<Rightarrow> string \<Rightarrow> int \<Rightarrow> ('r, exn, entry list) io"
    \<comment> \<open>key, max, min, count\<close>
  rc_xdel :: "string \<Rightarrow> string \<Rightarrow> ('r, exn, int) io"
  rc_scan :: "int \<Rightarrow> string \<Rightarrow> int \<Rightarrow> ('r, exn, int \<times> rtext list) io"
    \<comment> \<open>cursor, match, count\<close>

section \<open>Reading a reply\<close>

text \<open>\<open>fields.get(b"name", fields.get("name"))\<close>.\<close>

definition field_get :: "string \<Rightarrow> fields \<Rightarrow> rtext option" where
  "field_get name fs = (case map_of fs (RBytes name) of
     Some v \<Rightarrow> Some v
   | None \<Rightarrow> map_of fs (RStr name))"

text \<open>\<open>x.decode("utf-8") if isinstance(x, bytes) else x\<close>.\<close>

definition text_of :: "rtext \<Rightarrow> exn + string" where
  "text_of v = (case v of
     RStr s \<Rightarrow> Inr s
   | RBytes b \<Rightarrow> (case utf8_decode b of Some s \<Rightarrow> Inr s | None \<Rightarrow> Inl UnicodeDecodeError))"

lemma text_of_simps [simp, codec_simps]:
  "text_of (RStr s) = Inr s"
  "is_ascii s \<Longrightarrow> text_of (RBytes s) = Inr s"
  by (simp_all add: text_of_def)

text \<open>The fields as a client returns them for an entry written with these texts.\<close>

definition sent_fields :: "bool \<Rightarrow> (string \<times> string) list \<Rightarrow> fields" where
  "sent_fields decoded kvs = (if decoded then map (\<lambda>(k, v). (RStr k, RStr v)) kvs
     else map (\<lambda>(k, v). (RBytes k, RBytes v)) kvs)"

lemma field_get_sent:
  "map_of kvs name = Some v \<Longrightarrow>
   field_get name (sent_fields decoded kvs) = Some (if decoded then RStr v else RBytes v)"
proof -
  have "map_of (map (\<lambda>(k, v). (RStr k, RStr v)) kvs) (RBytes name) = None"
    "map_of (map (\<lambda>(k, v). (RStr k, RStr v)) kvs) (RStr name) = map_option RStr (map_of kvs name)"
    "map_of (map (\<lambda>(k, v). (RBytes k, RBytes v)) kvs) (RBytes name) =
       map_option RBytes (map_of kvs name)"
    by (induction kvs) auto
  then show "map_of kvs name = Some v \<Longrightarrow> ?thesis"
    by (simp add: field_get_def sent_fields_def)
qed

end
