(* ===== verification/MemRedis.thy ===== *)
theory MemRedis
  imports Redis
begin

text \<open>
  A small in-memory client, the instance at which the witnesses evaluate theorems about the
  client parameter. It keeps, for each key, the entries in order, and for each group how many
  were delivered and which of those are pending. It never trims a stream, and every pending entry
  counts as idle. No theorem about the program rests on it.
\<close>

record mem =
  next_seq :: nat
  known :: "string list"
  streams :: "string \<Rightarrow> entry list"
  groups :: "(string \<times> string) list"
  seen :: "string \<times> string \<Rightarrow> nat"
  pending :: "string \<times> string \<Rightarrow> string list"

definition mem_init :: mem where
  "mem_init = \<lparr>next_seq = 1, known = [], streams = (\<lambda>_. []), groups = [], seen = (\<lambda>_. 0),
     pending = (\<lambda>_. [])\<rparr>"

definition mem_id :: "nat \<Rightarrow> string" where
  "mem_id n = nat_str n @ ''-0''"

definition mem_client :: "mem redis" where
  "mem_client = \<lparr>
     rc_xgroup_create = (\<lambda>s g i mk m.
       if (s, g) \<in> set (groups m)
       then (Inl (ResponseError ''BUSYGROUP Consumer Group name already exists''), m)
       else (Inr (), m\<lparr>groups := (s, g) # groups m, known := List.insert s (known m)\<rparr>)),
     rc_xlen = (\<lambda>k m. (Inr (int (length (streams m k))), m)),
     rc_xadd = (\<lambda>k kvs maxlen approx m.
       (Inr (mem_id (next_seq m)),
        m\<lparr>next_seq := Suc (next_seq m), known := List.insert k (known m),
          streams := (streams m)(k := streams m k @ [(mem_id (next_seq m), sent_fields True kvs)])\<rparr>)),
     rc_xreadgroup = (\<lambda>g c ss n ms m.
       (case ss of
          [(s, i)] \<Rightarrow>
            (let new = take (nat n) (drop (seen m (s, g)) (streams m s))
             in if new = [] then (Inr [], m)
                else (Inr [(RStr s, new)],
                      m\<lparr>seen := (seen m)((s, g) := seen m (s, g) + length new),
                        pending := (pending m)((s, g) := pending m (s, g) @ map fst new)\<rparr>))
        | _ \<Rightarrow> (Inr [], m))),
     rc_xack = (\<lambda>s g i m.
       (Inr (if i \<in> set (pending m (s, g)) then 1 else 0),
        m\<lparr>pending := (pending m)((s, g) := filter ((\<noteq>) i) (pending m (s, g)))\<rparr>)),
     rc_xautoclaim = (\<lambda>s g c idle start n m.
       (Inr (Some (''0-0'', take (nat n)
          (filter (\<lambda>e. fst e \<in> set (pending m (s, g))) (streams m s)))), m)),
     rc_xrevrange = (\<lambda>k hi lo n m.
       if n < 1 then (Inl (DataError ''XREVRANGE count must be a positive integer''), m)
       else (Inr (take (nat n) (rev (streams m k))), m)),
     rc_xdel = (\<lambda>k i m.
       (Inr (int (length (filter (\<lambda>e. fst e = i) (streams m k)))),
        m\<lparr>streams := (streams m)(k := filter (\<lambda>e. fst e \<noteq> i) (streams m k))\<rparr>)),
     rc_scan = (\<lambda>c p n m. (Inr (0, map RStr (known m)), m))\<rparr>"

lemma mem_client_simps [simp]:
  "rc_xlen mem_client k m = (Inr (int (length (streams m k))), m)"
  "rc_xadd mem_client k kvs maxlen approx m = (Inr (mem_id (next_seq m)),
     m\<lparr>next_seq := Suc (next_seq m), known := List.insert k (known m),
       streams := (streams m)(k := streams m k @ [(mem_id (next_seq m), sent_fields True kvs)])\<rparr>)"
  "rc_xack mem_client s g i m = (Inr (if i \<in> set (pending m (s, g)) then 1 else 0),
     m\<lparr>pending := (pending m)((s, g) := filter ((\<noteq>) i) (pending m (s, g)))\<rparr>)"
  "rc_xgroup_create mem_client s g i mk m =
     (if (s, g) \<in> set (groups m)
      then (Inl (ResponseError ''BUSYGROUP Consumer Group name already exists''), m)
      else (Inr (), m\<lparr>groups := (s, g) # groups m, known := List.insert s (known m)\<rparr>))"
  "rc_xreadgroup mem_client g c [(s, i)] n ms m =
     (let new = take (nat n) (drop (seen m (s, g)) (streams m s))
      in if new = [] then (Inr [], m)
         else (Inr [(RStr s, new)],
               m\<lparr>seen := (seen m)((s, g) := seen m (s, g) + length new),
                 pending := (pending m)((s, g) := pending m (s, g) @ map fst new)\<rparr>))"
  "rc_xautoclaim mem_client s g c idle start n m =
     (Inr (Some (''0-0'', take (nat n)
        (filter (\<lambda>e. fst e \<in> set (pending m (s, g))) (streams m s)))), m)"
  "rc_xrevrange mem_client k hi lo n m =
     (if n < 1 then (Inl (DataError ''XREVRANGE count must be a positive integer''), m)
      else (Inr (take (nat n) (rev (streams m k))), m))"
  "rc_xdel mem_client k i m =
     (Inr (int (length (filter (\<lambda>e. fst e = i) (streams m k)))),
      m\<lparr>streams := (streams m)(k := filter (\<lambda>e. fst e \<noteq> i) (streams m k))\<rparr>)"
  "rc_scan mem_client cur p n m = (Inr (0, map RStr (known m)), m)"
  by (simp_all add: mem_client_def)

lemma mem_init_simps [simp]:
  "next_seq mem_init = 1" "known mem_init = []" "streams mem_init k = []" "groups mem_init = []"
  "seen mem_init sg = 0" "pending mem_init sg = []"
  by (simp_all add: mem_init_def)

end
