(* ===== verification/RedisStream.thy ===== *)
theory RedisStream
  imports Job MemRedis "HOL-Library.List_Lexorder" "HOL-Library.Char_ord"
begin

text \<open>
  \<open>relayq/infrastructure/redis_stream.py\<close>: the transport. Every method is a definition over the
  client \<open>R\<close>, the key prefix \<open>px\<close> and, where jobs are built from a reply, the clock reading
  \<open>now\<close> that \<open>Job.from_dict\<close> uses for an entry without \<open>created_at\<close>.
\<close>

section \<open>Key layout\<close>

definition stream_key :: "string \<Rightarrow> string \<Rightarrow> string" where
  "stream_key px q = px @ '':'' @ q @ '':stream''"

definition group_key :: "string \<Rightarrow> string \<Rightarrow> string" where
  "group_key px q = px @ '':'' @ q @ '':group''"

definition dlq_key :: "string \<Rightarrow> string \<Rightarrow> string" where
  "dlq_key px q = px @ '':'' @ q @ '':dlq''"

definition consumer_name :: "string \<Rightarrow> string" where
  "consumer_name worker_id = ''worker-'' @ worker_id"

section \<open>Lifecycle\<close>

definition ensure_group :: "'r redis \<Rightarrow> string \<Rightarrow> string \<Rightarrow> ('r, exn, unit) io" where
  "ensure_group R px q r =
     (case rc_xgroup_create R (stream_key px q) (group_key px q) ''0'' True r of
        (Inl (ResponseError m), r) \<Rightarrow>
          if contains ''BUSYGROUP'' m then (Inr (), r) else (Inl (ResponseError m), r)
      | res \<Rightarrow> res)"

definition stream_length :: "'r redis \<Rightarrow> string \<Rightarrow> string \<Rightarrow> ('r, exn, int) io" where
  "stream_length R px q = rc_xlen R (stream_key px q)"

section \<open>Enqueue\<close>

definition xadd :: "'r redis \<Rightarrow> string \<Rightarrow> string \<Rightarrow> job \<Rightarrow> int \<Rightarrow> bool \<Rightarrow> ('r, exn, string) io" where
  "xadd R px q j maxlen approximate =
     io_bind (io_lift (job_text j)) (\<lambda>body.
       rc_xadd R (stream_key px q) [(''job'', body)]
         (if maxlen \<noteq> 0 then Some maxlen else None) (maxlen \<noteq> 0 \<and> approximate))"

definition dlq_fields :: "job \<Rightarrow> string \<Rightarrow> string \<Rightarrow> (string \<times> string) list" where
  "dlq_fields j body reason =
     [(''job'', body), (''reason'', reason),
      (''dlqed_at'', dumps (JStr (isoformat (created_at j))))]"

definition xadd_dlq :: "'r redis \<Rightarrow> string \<Rightarrow> string \<Rightarrow> job \<Rightarrow> string \<Rightarrow> ('r, exn, string) io" where
  "xadd_dlq R px q j reason =
     io_bind (io_lift (job_text j)) (\<lambda>body.
       rc_xadd R (dlq_key px q) (dlq_fields j body reason) None False)"

section \<open>Dequeue and claim\<close>

text \<open>\<open>except (json.JSONDecodeError, KeyError)\<close>.\<close>

fun bad_entry :: "exn \<Rightarrow> bool" where
  "bad_entry JSONDecodeError = True"
| "bad_entry (KeyError _) = True"
| "bad_entry _ = False"

text \<open>One entry: its job, None when it is skipped, or what escapes the loop.\<close>

definition decode_entry :: "py_datetime \<Rightarrow> fields \<Rightarrow> exn + job option" where
  "decode_entry now fs =
     (case field_get ''job'' fs of
        None \<Rightarrow> Inr None
      | Some raw \<Rightarrow>
          res_bind (text_of raw) (\<lambda>raw.
            case parse_job now raw of
              Inr j \<Rightarrow> Inr (Some j)
            | Inl e \<Rightarrow> if bad_entry e then Inr None else Inl e))"

fun decode_entries ::
    "py_datetime \<Rightarrow> rtext \<Rightarrow> entry list \<Rightarrow> exn + (string \<times> string \<times> job) list" where
  "decode_entries now name [] = Inr []"
| "decode_entries now name ((eid, fs) # es) =
     res_bind (decode_entry now fs) (\<lambda>d.
       case d of
         None \<Rightarrow> decode_entries now name es
       | Some j \<Rightarrow>
           res_bind (text_of name) (\<lambda>s.
           res_bind (decode_entries now name es) (\<lambda>js. Inr ((s, eid, j) # js))))"

fun decode_streams ::
    "py_datetime \<Rightarrow> (rtext \<times> entry list) list \<Rightarrow> exn + (string \<times> string \<times> job) list" where
  "decode_streams now [] = Inr []"
| "decode_streams now ((name, es) # rs) =
     res_bind (decode_entries now name es) (\<lambda>js.
     res_bind (decode_streams now rs) (\<lambda>js'. Inr (js @ js')))"

definition read_group ::
    "'r redis \<Rightarrow> string \<Rightarrow> py_datetime \<Rightarrow> string \<Rightarrow> string \<Rightarrow> int \<Rightarrow> int \<Rightarrow>
     ('r, exn, (string \<times> string \<times> job) list) io" where
  "read_group R px now q worker_id count block_ms =
     io_bind (rc_xreadgroup R (group_key px q) (consumer_name worker_id)
                [(stream_key px q, ''>'')] count block_ms) (\<lambda>results.
       io_lift (decode_streams now results))"

definition xack :: "'r redis \<Rightarrow> string \<Rightarrow> string \<Rightarrow> string \<Rightarrow> ('r, exn, int) io" where
  "xack R px q entry_id = rc_xack R (stream_key px q) (group_key px q) entry_id"

definition autoclaim_stale ::
    "'r redis \<Rightarrow> string \<Rightarrow> py_datetime \<Rightarrow> string \<Rightarrow> string \<Rightarrow> int \<Rightarrow> int \<Rightarrow>
     ('r, exn, (string \<times> string \<times> job) list) io" where
  "autoclaim_stale R px now q worker_id min_idle_ms count =
     io_bind (rc_xautoclaim R (stream_key px q) (group_key px q) (consumer_name worker_id)
                min_idle_ms ''0-0'' count) (\<lambda>result.
       case result of
         None \<Rightarrow> io_ret []
       | Some (cursor, entries) \<Rightarrow>
           io_lift (decode_entries now (RStr (stream_key px q)) entries))"

section \<open>Dead letters\<close>

record dlq_entry =
  d_entry_id :: string
  d_job :: json
  d_reason :: string

definition reason_of :: "fields \<Rightarrow> exn + string" where
  "reason_of fs = (case field_get ''reason'' fs of
     None \<Rightarrow> Inr ''unknown''
   | Some v \<Rightarrow> text_of v)"

text \<open>\<open>json.loads(raw)\<close> on a missing field is a \<open>TypeError\<close>.\<close>

definition raw_of :: "fields \<Rightarrow> exn + string" where
  "raw_of fs = (case field_get ''job'' fs of
     None \<Rightarrow> Inl (TypeError ''the JSON object must be str, bytes or bytearray, not NoneType'')
   | Some v \<Rightarrow> text_of v)"

definition dlq_view :: "entry \<Rightarrow> exn + dlq_entry" where
  "dlq_view e =
     res_bind (case field_get ''job'' (snd e) of None \<Rightarrow> Inr [] | Some v \<Rightarrow> text_of v) (\<lambda>_.
     res_bind (reason_of (snd e)) (\<lambda>reason.
     res_bind (raw_of (snd e)) (\<lambda>raw.
       Inr \<lparr>d_entry_id = fst e,
            d_job = (case loads raw of Some v \<Rightarrow> v | None \<Rightarrow> JStr raw), d_reason = reason\<rparr>)))"

fun dlq_views :: "entry list \<Rightarrow> exn + dlq_entry list" where
  "dlq_views [] = Inr []"
| "dlq_views (e # es) =
     res_bind (dlq_view e) (\<lambda>v. res_bind (dlq_views es) (\<lambda>vs. Inr (v # vs)))"

definition read_dlq ::
    "'r redis \<Rightarrow> string \<Rightarrow> string \<Rightarrow> string \<Rightarrow> string \<Rightarrow> int \<Rightarrow> ('r, exn, dlq_entry list) io" where
  "read_dlq R px q start end_id count =
     io_bind (rc_xrevrange R (dlq_key px q) end_id start count) (\<lambda>entries.
       io_lift (dlq_views entries))"

text \<open>\<open>job_dict.get("id") == job_id\<close>; a JSON value that is no object has no \<open>get\<close>.\<close>

definition has_job_id :: "string \<Rightarrow> json \<Rightarrow> exn + bool" where
  "has_job_id job_id v = (case v of
     JObj d \<Rightarrow> Inr (map_of d ''id'' = Some (JStr job_id))
   | _ \<Rightarrow> Inl (AttributeError ''object has no attribute get''))"

fun find_dlq :: "string \<Rightarrow> entry list \<Rightarrow> exn + dlq_entry option" where
  "find_dlq job_id [] = Inr None"
| "find_dlq job_id ((eid, fs) # es) =
     res_bind (raw_of fs) (\<lambda>raw.
       case loads raw of
         None \<Rightarrow> find_dlq job_id es
       | Some v \<Rightarrow>
           res_bind (has_job_id job_id v) (\<lambda>hit.
             if hit then
               res_bind (reason_of fs) (\<lambda>reason.
                 Inr (Some \<lparr>d_entry_id = eid, d_job = v, d_reason = reason\<rparr>))
             else find_dlq job_id es))"

definition read_dlq_entry ::
    "'r redis \<Rightarrow> string \<Rightarrow> string \<Rightarrow> string \<Rightarrow> ('r, exn, dlq_entry option) io" where
  "read_dlq_entry R px q job_id =
     io_bind (rc_xrevrange R (dlq_key px q) ''+'' ''-'' 200) (\<lambda>entries.
       io_lift (find_dlq job_id entries))"

definition delete_dlq_entry :: "'r redis \<Rightarrow> string \<Rightarrow> string \<Rightarrow> string \<Rightarrow> ('r, exn, unit) io" where
  "delete_dlq_entry R px q entry_id =
     io_bind (rc_xdel R (dlq_key px q) entry_id) (\<lambda>_. io_ret ())"

section \<open>Queue listing\<close>

definition queue_of_key :: "string \<Rightarrow> string option" where
  "queue_of_key key =
     (let parts = split_on CHR '':'' key in if 3 \<le> length parts then Some (parts ! 1) else None)"

fun add_keys :: "rtext list \<Rightarrow> string list \<Rightarrow> exn + string list" where
  "add_keys [] acc = Inr acc"
| "add_keys (k # ks) acc =
     res_bind (text_of k) (\<lambda>key.
       add_keys ks (case queue_of_key key of Some q \<Rightarrow> List.insert q acc | None \<Rightarrow> acc))"

text \<open>
  The scan loop ends when the server returns cursor 0; None is a server that never does.
\<close>

partial_function (option) scan_loop ::
    "'r redis \<Rightarrow> string \<Rightarrow> int \<Rightarrow> string list \<Rightarrow> 'r \<Rightarrow> ((exn + string list) \<times> 'r) option" where
  "scan_loop R px cursor acc r =
     (case rc_scan R cursor (px @ '':*:stream'') 100 r of
        (Inl e, r') \<Rightarrow> Some (Inl e, r')
      | (Inr (cursor', keys), r') \<Rightarrow>
          (case add_keys keys acc of
             Inl e \<Rightarrow> Some (Inl e, r')
           | Inr acc' \<Rightarrow>
               if cursor' = 0 then Some (Inr (sort acc'), r')
               else scan_loop R px cursor' acc' r'))"

definition list_queues :: "'r redis \<Rightarrow> string \<Rightarrow> 'r \<Rightarrow> ((exn + string list) \<times> 'r) option" where
  "list_queues R px = scan_loop R px 0 []"

section \<open>Keys\<close>

lemma stream_key_inj [simp]: "stream_key px a = stream_key px b \<longleftrightarrow> a = b"
  by (simp add: stream_key_def)

lemma dlq_key_inj [simp]: "dlq_key px a = dlq_key px b \<longleftrightarrow> a = b"
  by (simp add: dlq_key_def)

lemma group_key_inj [simp]: "group_key px a = group_key px b \<longleftrightarrow> a = b"
  by (simp add: group_key_def)

lemma key_last:
  "last (stream_key px a) = CHR ''m''"
  "last (dlq_key px a) = CHR ''q''"
  "last (group_key px a) = CHR ''p''"
  by (simp_all add: stream_key_def dlq_key_def group_key_def)

lemma key_kinds [simp]:
  "stream_key px a \<noteq> dlq_key px b" "stream_key px a \<noteq> group_key px b"
  "dlq_key px a \<noteq> stream_key px b" "dlq_key px a \<noteq> group_key px b"
  using key_last(1) [of px a] key_last(2) [of px b] key_last(2) [of px a] key_last(1) [of px b]
    key_last(3) [of px b]
  by force+

lemma split_on_stream_key:
  assumes "CHR '':'' \<notin> set px" "CHR '':'' \<notin> set q"
  shows "split_on CHR '':'' (stream_key px q) = [px, q, ''stream'']"
  using assms by (simp add: stream_key_def split_on_first)

lemma queue_of_stream_key [simp, codec_simps]:
  "CHR '':'' \<notin> set px \<Longrightarrow> CHR '':'' \<notin> set q \<Longrightarrow> queue_of_key (stream_key px q) = Some q"
  by (simp add: queue_of_key_def split_on_stream_key)

definition read_key :: "string \<Rightarrow> exn + string" where
  "read_key key = (case queue_of_key key of
     Some q \<Rightarrow> Inr q | None \<Rightarrow> Inl (ValueError key))"

interpretation stream_name: codec "\<lambda>q. Inr (stream_key ''relayq'' q)" read_key
  "\<lambda>q. CHR '':'' \<notin> set q"
  by unfold_locales (simp add: read_key_def)

section \<open>Entries\<close>

lemma is_ascii_job_text: "wf_job j \<Longrightarrow> job_text j = Inr body \<Longrightarrow> is_ascii body"
  by (auto elim!: wf_jobE simp: job_text_def to_dict_def status_attr_def py_dumps_def
    is_ascii_dumps split: option.splits)

text \<open>An entry that carries a job: its fields are those \<open>xadd\<close> wrote.\<close>

definition carries :: "entry \<Rightarrow> string \<times> job \<Rightarrow> bool" where
  "carries e ej \<longleftrightarrow> fst e = fst ej \<and> wf_job (snd ej) \<and>
     (\<exists>body kvs decoded. job_text (snd ej) = Inr body \<and> map_of kvs ''job'' = Some body \<and>
        snd e = sent_fields decoded kvs)"

lemma text_of_job:
  assumes "wf_job j" "job_text j = Inr body"
  shows "text_of (if decoded then RStr body else RBytes body) = Inr body"
  using is_ascii_job_text [OF assms] by simp

lemma decode_entry_carries:
  assumes "carries e (eid, j)"
  shows "decode_entry now (snd e) = Inr (Some j)"
proof -
  from assms obtain body kvs decoded where
    b: "wf_job j" "job_text j = Inr body" "map_of kvs ''job'' = Some body"
      "snd e = sent_fields decoded kvs"
    by (auto simp: carries_def)
  then show ?thesis
    using text_of_job [OF b(1,2), of decoded] parse_job_text [OF b(1,2), of now]
    by (cases decoded) (simp_all add: decode_entry_def field_get_sent)
qed

lemma decode_entries_filter:
  assumes "text_of name = Inr s" "list_all2 (\<lambda>e oj. decode_entry now (snd e) = Inr oj) es ojs"
  shows "decode_entries now name es =
    Inr (List.map_filter (\<lambda>(e, oj). map_option (\<lambda>j. (s, fst e, j)) oj) (zip es ojs))"
  using assms(2)
proof (induction rule: list_all2_induct)
  case (Cons e es oj ojs)
  obtain eid fs where "e = (eid, fs)" by (cases e)
  with Cons assms(1) show ?case
    by (cases oj) (simp_all add: List.map_filter_def)
qed (simp add: List.map_filter_def)

lemma decode_entries_carries:
  assumes "text_of name = Inr s" "list_all2 carries es ejs"
  shows "decode_entries now name es = Inr (map (\<lambda>(eid, j). (s, eid, j)) ejs)"
  using assms(2)
proof (induction rule: list_all2_induct)
  case (Cons e es ej ejs)
  obtain eid fs j where e: "e = (eid, fs)" "ej = (eid, j)"
    using Cons.hyps(1) by (cases e; cases ej) (auto simp: carries_def)
  with Cons.hyps(1) have "decode_entry now fs = Inr (Some j)"
    using decode_entry_carries [of e eid j now] by simp
  with Cons.IH assms(1) e show ?case by simp
qed simp

lemma decode_entries_raise:
  assumes "list_all (\<lambda>e. \<exists>oj. decode_entry now (snd e) = Inr oj) es" "text_of name = Inr s"
    and "decode_entry now fs = Inl x"
  shows "decode_entries now name (es @ (eid, fs) # es') = Inl x"
  using assms by (induction es) (auto split: option.split)

lemma decode_entry_bad_status:
  assumes "fs = sent_fields decoded [(''job'', dumps (JObj d))]" "wf_json (JObj d)"
    and "map_of d ''id'' = Some (JStr i)" "map_of d ''kind'' = Some (JStr k)"
    and "map_of d ''status'' = Some (JStr s)" "\<forall>st. s \<noteq> status_value st"
  shows "\<exists>m. decode_entry now fs = Inl (ValueError m)"
proof -
  have raw: "field_get ''job'' fs = Some (if decoded then RStr (dumps (JObj d)) else RBytes (dumps (JObj d)))"
    using assms(1) by (simp add: field_get_sent)
  have raw_text: "text_of (if decoded then RStr (dumps (JObj d)) else RBytes (dumps (JObj d))) =
      Inr (dumps (JObj d))"
    using is_ascii_dumps(1) [OF assms(2)] by (simp del: dumps.simps)
  have load: "py_loads (dumps (JObj d)) = Inr (JObj d)"
    using loads_dumps [OF assms(2)] by (simp add: py_loads_def del: dumps.simps)
  obtain m where "status_of s = Inl (ValueError m)"
    using assms(6) status_of_fails by blast
  then have "parse_job now (dumps (JObj d)) = Inl (ValueError m)"
    using assms(3-5) load by (simp add: parse_job_def from_dict_def getters del: dumps.simps)
  with raw raw_text show ?thesis by (simp add: decode_entry_def del: dumps.simps)
qed

section \<open>Entries for the witnesses\<close>

definition sample_text :: string where
  "sample_text = (case job_text sample_job of Inr s \<Rightarrow> s | Inl _ \<Rightarrow> [])"

definition sample_entry :: entry where
  "sample_entry = (''1-0'', sent_fields True [(''job'', sample_text)])"

definition poison :: "(string \<times> json) list" where
  "poison = [(''id'', JStr ''x''), (''kind'', JStr ''email''), (''status'', JStr ''lost'')]"

text \<open>A server whose stream for a queue of prefix \<open>relayq\<close> holds some entries, none delivered.\<close>

definition mem_with :: "string \<Rightarrow> entry list \<Rightarrow> mem" where
  "mem_with q es = mem_init\<lparr>next_seq := Suc (length es), streams := (\<lambda>_. [])(stream_key ''relayq'' q := es),
     known := [stream_key ''relayq'' q]\<rparr>"

lemma sample_text: "job_text sample_job = Inr sample_text"
  using job_text_Inr [OF wf_sample_job] by (force simp: sample_text_def)

lemma sample_entry_carries: "carries sample_entry (''1-0'', sample_job)"
  by (auto simp: carries_def sample_entry_def sample_text intro!: exI [of _ True]
    exI [of _ "[(''job'', sample_text)]"])

lemma no_such_status: "status_value st \<noteq> ''lost''"
  by (cases st) simp_all

section \<open>Dead-letter entries\<close>

text \<open>The dict a job was written as.\<close>

definition job_json :: "job \<Rightarrow> json" where
  "job_json j = (case to_dict j of Inr v \<Rightarrow> v | Inl _ \<Rightarrow> JNull)"

text \<open>An entry \<open>xadd_dlq\<close> wrote for a job with a reason.\<close>

definition dead_letter :: "entry \<Rightarrow> string \<times> job \<times> string \<Rightarrow> bool" where
  "dead_letter e = (\<lambda>(eid, j, reason). fst e = eid \<and> wf_job j \<and>
     (\<exists>body decoded. job_text j = Inr body \<and> (decoded \<or> is_ascii reason) \<and>
        snd e = sent_fields decoded (dlq_fields j body reason)))"

definition dlq_view_of :: "string \<times> job \<times> string \<Rightarrow> dlq_entry" where
  "dlq_view_of = (\<lambda>(eid, j, reason). \<lparr>d_entry_id = eid, d_job = job_json j, d_reason = reason\<rparr>)"

lemma job_text_loads:
  assumes "wf_job j" "job_text j = Inr body"
  shows "loads body = Some (job_json j)"
proof -
  obtain v where v: "to_dict j = Inr v"
    using job_dict.encodes [OF assms(1)] by blast
  then have "wf_json v" using job_wire.ok_through assms(1) by blast
  with assms(2) have "body = dumps v" using v by (simp add: job_text_def py_dumps_def)
  with v \<open>wf_json v\<close> show ?thesis by (simp add: job_json_def loads_dumps)
qed

lemma has_job_id_job: "wf_job j \<Longrightarrow> has_job_id i (job_json j) = Inr (jid j = i)"
  by (auto elim!: wf_jobE simp: has_job_id_def job_json_def to_dict_def status_attr_def)

lemma dead_letter_fields:
  assumes "dead_letter e (eid, j, reason)"
  obtains body where "raw_of (snd e) = Inr body" "job_text j = Inr body" "wf_job j"
    "reason_of (snd e) = Inr reason" "fst e = eid"
proof -
  from assms obtain body decoded where
    b: "wf_job j" "job_text j = Inr body" "decoded \<or> is_ascii reason" "fst e = eid"
      "snd e = sent_fields decoded (dlq_fields j body reason)"
    by (auto simp: dead_letter_def)
  have "raw_of (snd e) = Inr body"
    using b(5) text_of_job [OF b(1,2), of decoded]
    by (cases decoded) (simp_all add: raw_of_def field_get_sent dlq_fields_def)
  moreover have "reason_of (snd e) = Inr reason"
    using b(3,5) by (cases decoded) (simp_all add: reason_of_def field_get_sent dlq_fields_def)
  ultimately show ?thesis using b that by blast
qed

lemma find_dlq_dead_letters:
  assumes "list_all2 dead_letter es ds"
  shows "find_dlq i es = Inr (map_option dlq_view_of (find (\<lambda>(eid, j, reason). jid j = i) ds))"
  using assms
proof (induction rule: list_all2_induct)
  case (Cons e es d ds)
  obtain eid fs where e: "e = (eid, fs)" by (cases e)
  obtain eid' j reason where d: "d = (eid', j, reason)" by (cases d)
  from Cons.hyps(1) d obtain body where
    b: "raw_of (snd e) = Inr body" "job_text j = Inr body" "wf_job j"
      "reason_of (snd e) = Inr reason" "fst e = eid'"
    using dead_letter_fields by blast
  then show ?case
    using Cons.IH e d job_text_loads [OF b(3,2)] has_job_id_job [OF b(3), of i]
    by (simp add: dlq_view_of_def)
qed simp

lemma dlq_views_dead_letters:
  assumes "list_all2 dead_letter es ds"
  shows "dlq_views es = Inr (map dlq_view_of ds)"
  using assms
proof (induction rule: list_all2_induct)
  case (Cons e es d ds)
  obtain eid' j reason where d: "d = (eid', j, reason)" by (cases d)
  from Cons.hyps(1) d obtain body where
    b: "raw_of (snd e) = Inr body" "job_text j = Inr body" "wf_job j"
      "reason_of (snd e) = Inr reason" "fst e = eid'"
    using dead_letter_fields by blast
  have "dlq_view e = Inr (dlq_view_of d)"
    using b d job_text_loads [OF b(3,2)]
    by (auto simp: dlq_view_def dlq_view_of_def raw_of_def split: option.splits)
  with Cons.IH show ?case by simp
qed simp

section \<open>Pages of a scan\<close>

text \<open>The replies of a server that ends the scan: the keys it returns, in order.\<close>

inductive scan_pages :: "'r redis \<Rightarrow> string \<Rightarrow> int \<Rightarrow> 'r \<Rightarrow> rtext list \<Rightarrow> 'r \<Rightarrow> bool"
  for R px where
  last_page: "rc_scan R c (px @ '':*:stream'') 100 r = (Inr (0, ks), r') \<Longrightarrow>
     scan_pages R px c r ks r'"
| next_page: "rc_scan R c (px @ '':*:stream'') 100 r = (Inr (c', ks), r') \<Longrightarrow> c' \<noteq> 0 \<Longrightarrow>
     scan_pages R px c' r' ks' r'' \<Longrightarrow> scan_pages R px c r (ks @ ks') r''"

lemma add_keys_append:
  "add_keys (ks @ ks') acc = res_bind (add_keys ks acc) (add_keys ks')"
  by (induction ks arbitrary: acc) (simp_all add: res_bind_def split: sum.split)

lemma scan_loop_pages:
  assumes "scan_pages R px c r ks r'" "add_keys ks acc = Inr qs"
  shows "scan_loop R px c acc r = Some (Inr (sort qs), r')"
  using assms
proof (induction arbitrary: acc rule: scan_pages.induct)
  case (last_page c r ks r')
  then show ?case by (subst scan_loop.simps) simp
next
  case (next_page c r c' ks r' ks' r'')
  from next_page.prems obtain a where "add_keys ks acc = Inr a" "add_keys ks' a = Inr qs"
    by (auto simp: add_keys_append res_bind_Inr_conv)
  with next_page show ?case by (subst scan_loop.simps) simp
qed

lemma add_keys_names:
  assumes "list_all2 (\<lambda>k q. text_of k = Inr (stream_key px q) \<and> CHR '':'' \<notin> set q) ks qs"
    and "CHR '':'' \<notin> set px" "distinct acc"
  shows "\<exists>out. add_keys ks acc = Inr out \<and> distinct out \<and> set out = set acc \<union> set qs"
  using assms
proof (induction arbitrary: acc rule: list_all2_induct)
  case (Cons k ks q qs)
  have "distinct (List.insert q acc)" using Cons.prems by simp
  from Cons.IH [OF Cons.prems(1) this] Cons.hyps Cons.prems show ?case by auto
qed simp

section \<open>Properties\<close>

text \<open>The key layout separates queues and roles: two streams, two dead-letter streams or two
  groups have one key only if they belong to one queue, a stream key is never a dead-letter or
  group key, and a queue name without a colon is recovered from its stream key.\<close>

theorem key_layout_separates:
  assumes "CHR '':'' \<notin> set px" "CHR '':'' \<notin> set a"
  shows "(stream_key px a = stream_key px b \<longleftrightarrow> a = b) \<and> (dlq_key px a = dlq_key px b \<longleftrightarrow> a = b) \<and>
    (group_key px a = group_key px b \<longleftrightarrow> a = b) \<and>
    stream_key px a \<noteq> dlq_key px b \<and> stream_key px a \<noteq> group_key px b \<and>
    dlq_key px a \<noteq> group_key px b \<and> queue_of_key (stream_key px a) = Some a"
  using assms by simp

theorem key_layout_separates_witness:
  "queue_of_key (stream_key ''relayq'' ''default'') = Some ''default''"
  using key_layout_separates [of "''relayq''" "''default''"] by simp

text \<open>C26. A worker reads the jobs that were added: when the entries a server returns for a stream
  carry well-formed jobs in the fields \<open>xadd\<close> sends, as text or as bytes, \<open>read_group\<close> returns
  exactly those jobs, each with its entry id, in the order of the stream.\<close>

theorem read_group_reads_added:
  assumes "rc_xreadgroup R (group_key px q) (consumer_name w) [(stream_key px q, ''>'')] n ms r =
      (Inr [(RStr (stream_key px q), es)], r')"
    and "list_all2 carries es ejs"
  shows "read_group R px now q w n ms r =
    (Inr (map (\<lambda>(eid, j). (stream_key px q, eid, j)) ejs), r')"
  using assms(1) decode_entries_carries [OF _ assms(2), of "RStr (stream_key px q)" _ now]
  by (simp add: read_group_def io_bind_def)

theorem read_group_reads_added_witness:
  "fst (read_group mem_client ''relayq'' base_time ''q'' ''w'' 10 0 (mem_with ''q'' [sample_entry])) =
     Inr [(stream_key ''relayq'' ''q'', ''1-0'', sample_job)]"
proof -
  obtain r' where "rc_xreadgroup mem_client (group_key ''relayq'' ''q'') (consumer_name ''w'')
      [(stream_key ''relayq'' ''q'', ''>'')] 10 0 (mem_with ''q'' [sample_entry]) =
    (Inr [(RStr (stream_key ''relayq'' ''q''), [sample_entry])], r')"
    by (auto simp: mem_with_def Let_def)
  from read_group_reads_added [OF this, of "[(''1-0'', sample_job)]"] show ?thesis
    by (simp add: sample_entry_carries)
qed

text \<open>Entries that are not jobs are skipped, not fatal: among entries that each decode or are
  malformed in a way the loop catches (no \<open>job\<close> field, no JSON, no id), the decoded ones are
  returned in order and the others leave no trace.\<close>

theorem decode_skips_malformed:
  assumes "text_of name = Inr s" "list_all2 (\<lambda>e oj. decode_entry now (snd e) = Inr oj) es ojs"
  shows "decode_entries now name es =
    Inr (List.map_filter (\<lambda>(e, oj). map_option (\<lambda>j. (s, fst e, j)) oj) (zip es ojs))"
  using assms by (rule decode_entries_filter)

theorem decode_skips_malformed_witness:
  "decode_entries base_time (RStr ''s'') [(''0-1'', []), sample_entry] = Inr [(''s'', ''1-0'', sample_job)]"
proof -
  have "list_all2 (\<lambda>e oj. decode_entry base_time (snd e) = Inr oj) [(''0-1'', []), sample_entry]
      [None, Some sample_job]"
    using decode_entry_carries [OF sample_entry_carries]
    by (simp add: decode_entry_def field_get_def)
  from decode_skips_malformed [OF _ this, of "RStr ''s''" "''s''"] show ?thesis
    by (simp add: List.map_filter_def sample_entry_def)
qed

text \<open>C38. One poisonous entry loses the batch: if an entry's job text is a JSON object with an id
  whose status names no \<open>JobStatus\<close>, \<open>read_group\<close> raises \<open>ValueError\<close> and returns none of the jobs
  read with it, although the server has already recorded all of them as delivered.\<close>

theorem read_group_poisoned:
  assumes "rc_xreadgroup R (group_key px q) (consumer_name w) [(stream_key px q, ''>'')] n ms r =
      (Inr [(RStr (stream_key px q), es @ (eid, fs) # es')], r')"
    and "list_all2 carries es ejs"
    and "fs = sent_fields decoded [(''job'', dumps (JObj d))]" "wf_json (JObj d)"
    and "map_of d ''id'' = Some (JStr i)" "map_of d ''kind'' = Some (JStr k)"
    and "map_of d ''status'' = Some (JStr s)" "\<forall>st. s \<noteq> status_value st"
  shows "\<exists>m. read_group R px now q w n ms r = (Inl (ValueError m), r')"
proof -
  obtain m where m: "decode_entry now fs = Inl (ValueError m)"
    using decode_entry_bad_status [OF assms(3-8)] by blast
  have "list_all (\<lambda>e. \<exists>oj. decode_entry now (snd e) = Inr oj) es"
    using assms(2)
  proof (induction rule: list_all2_induct)
    case (Cons e es ej ejs)
    then show ?case using decode_entry_carries [of e "fst ej" "snd ej" now] by auto
  qed simp
  from decode_entries_raise [OF this _ m, of "RStr (stream_key px q)"] assms(1) show ?thesis
    by (simp add: read_group_def io_bind_def)
qed

theorem read_group_poisoned_witness:
  "\<exists>m. fst (read_group mem_client ''relayq'' base_time ''q'' ''w'' 10 0 (mem_with ''q''
     [sample_entry, (''2-0'', sent_fields True [(''job'', dumps (JObj poison))])])) = Inl (ValueError m)"
proof -
  obtain r' where "rc_xreadgroup mem_client (group_key ''relayq'' ''q'') (consumer_name ''w'')
      [(stream_key ''relayq'' ''q'', ''>'')] 10 0
      (mem_with ''q'' [sample_entry, (''2-0'', sent_fields True [(''job'', dumps (JObj poison))])]) =
    (Inr [(RStr (stream_key ''relayq'' ''q''),
       [sample_entry] @ (''2-0'', sent_fields True [(''job'', dumps (JObj poison))]) # [])], r')"
    by (auto simp: mem_with_def Let_def)
  moreover have "list_all2 carries [sample_entry] [(''1-0'', sample_job)]"
    by (simp add: sample_entry_carries)
  moreover have "wf_json (JObj poison)" "map_of poison ''id'' = Some (JStr ''x'')"
    "map_of poison ''kind'' = Some (JStr ''email'')"
    "map_of poison ''status'' = Some (JStr ''lost'')" "\<forall>st. ''lost'' \<noteq> status_value st"
    using no_such_status by (auto simp: poison_def) metis
  ultimately show ?thesis
    using read_group_poisoned [where R = mem_client and now = base_time] by (metis fst_conv)
qed

text \<open>Starting a worker twice is harmless: \<open>ensure_group\<close> succeeds when the server answers
  that the group exists, and raises every other error the server answers with.\<close>

theorem ensure_group_idempotent:
  assumes "rc_xgroup_create R (stream_key px q) (group_key px q) ''0'' True r =
      (Inl (ResponseError m), r')"
  shows "ensure_group R px q r =
    (if contains ''BUSYGROUP'' m then Inr () else Inl (ResponseError m), r')"
  using assms by (simp add: ensure_group_def)

theorem ensure_group_idempotent_witness:
  "ensure_group mem_client ''relayq'' ''q'' (snd (ensure_group mem_client ''relayq'' ''q'' mem_init)) =
     (Inr (), snd (ensure_group mem_client ''relayq'' ''q'' mem_init))"
proof -
  let ?r = "snd (ensure_group mem_client ''relayq'' ''q'' mem_init)"
  let ?m = "''BUSYGROUP Consumer Group name already exists''"
  have "rc_xgroup_create mem_client (stream_key ''relayq'' ''q'') (group_key ''relayq'' ''q'')
      ''0'' True ?r = (Inl (ResponseError ?m), ?r)"
    by (simp add: ensure_group_def)
  from ensure_group_idempotent [OF this] show ?thesis by (simp add: contains_def)
qed

text \<open>C40. \<open>list_queues\<close> returns each queue once, in order: when the scan ends and the keys it
  returned are the stream keys of some queues (a scan may return a key more than once), the result
  is the sorted list of those queues without duplicates.\<close>

theorem list_queues_correct:
  assumes "scan_pages R px 0 r ks r'" "CHR '':'' \<notin> set px"
    and "list_all2 (\<lambda>k q. text_of k = Inr (stream_key px q) \<and> CHR '':'' \<notin> set q) ks qs"
  shows "\<exists>out. list_queues R px r = Some (Inr out, r') \<and> sorted out \<and> distinct out \<and>
    set out = set qs"
proof -
  from add_keys_names [OF assms(3,2), of "[]"] obtain out where
    "add_keys ks [] = Inr out" "distinct out" "set out = set qs" by auto
  with scan_loop_pages [OF assms(1)] show ?thesis by (auto simp: list_queues_def)
qed

theorem list_queues_correct_witness:
  "\<exists>out. list_queues mem_client ''relayq'' (mem_with ''q'' []) = Some (Inr out, mem_with ''q'' []) \<and>
     sorted out \<and> distinct out \<and> set out = {''q''}"
proof -
  have "scan_pages mem_client ''relayq'' 0 (mem_with ''q'' []) [RStr (stream_key ''relayq'' ''q'')]
      (mem_with ''q'' [])"
    by (rule last_page) (simp add: mem_with_def)
  from list_queues_correct [OF this, of "[''q'']"] show ?thesis by simp
qed

text \<open>C37. Reading the dead letters returns what was written to them: for entries \<open>xadd_dlq\<close> wrote,
  \<open>read_dlq\<close> returns each job's dict, id and reason in the order of the reply (newest first), and
  \<open>read_dlq_entry\<close> returns the newest of them for the job asked for, or None when there is none
  among the 200 newest.\<close>

theorem read_dlq_returns_written:
  assumes "rc_xrevrange R (dlq_key px q) ''+'' ''-'' n r = (Inr es, r')"
    and "rc_xrevrange R (dlq_key px q) ''+'' ''-'' 200 r = (Inr es', r'')"
    and "list_all2 dead_letter es ds" "list_all2 dead_letter es' ds'"
  shows "read_dlq R px q ''-'' ''+'' n r = (Inr (map dlq_view_of ds), r') \<and>
    read_dlq_entry R px q i r =
      (Inr (map_option dlq_view_of (find (\<lambda>(eid, j, reason). jid j = i) ds')), r'')"
  using assms dlq_views_dead_letters [OF assms(3)] find_dlq_dead_letters [OF assms(4), of i]
  by (simp add: read_dlq_def read_dlq_entry_def io_bind_def)

theorem read_dlq_returns_written_witness:
  "\<exists>r. fst (read_dlq_entry mem_client ''relayq'' ''q'' (jid sample_job)
     (snd (xadd_dlq mem_client ''relayq'' ''q'' sample_job ''boom'' r))) =
   Inr (Some \<lparr>d_entry_id = mem_id 1, d_job = job_json sample_job, d_reason = ''boom''\<rparr>)"
proof
  let ?r = "snd (xadd_dlq mem_client ''relayq'' ''q'' sample_job ''boom'' mem_init)"
  let ?e = "(mem_id 1, sent_fields True (dlq_fields sample_job sample_text ''boom''))"
  let ?d = "(mem_id 1, sample_job, ''boom'')"
  have rev: "rc_xrevrange mem_client (dlq_key ''relayq'' ''q'') ''+'' ''-'' 200 ?r = (Inr [?e], ?r)"
    by (simp add: xadd_dlq_def io_bind_def sample_text)
  have "dead_letter ?e ?d" using sample_text by (auto simp: dead_letter_def)
  then have "list_all2 dead_letter [?e] [?d]" by simp
  from read_dlq_returns_written [OF rev rev this this, of "jid sample_job"]
  show "fst (read_dlq_entry mem_client ''relayq'' ''q'' (jid sample_job) ?r) =
      Inr (Some \<lparr>d_entry_id = mem_id 1, d_job = job_json sample_job, d_reason = ''boom''\<rparr>)"
    by (simp add: dlq_view_of_def)
qed

end
