(* ===== verification/World.thy ===== *)
theory World
  imports RedisStream SqliteStore Metrics
begin

text \<open>
  What the application services act on: the Redis server, the outbox (None when no store is
  configured), and the calls made on the metrics client.
\<close>

record 'r world =
  server :: 'r
  store :: "sqlite option"
  metrics :: prom_log

definition on_server :: "('r, exn, 'a) io \<Rightarrow> ('r world, exn, 'a) io" where
  "on_server m w = (case m (server w) of (res, r) \<Rightarrow> (res, w\<lparr>server := r\<rparr>))"

definition on_metrics :: "(prom_log \<Rightarrow> prom_log) \<Rightarrow> 'r world \<Rightarrow> 'r world" where
  "on_metrics f w = w\<lparr>metrics := f (metrics w)\<rparr>"

lemma on_server_eq [io_simps]:
  "m (server w) = (res, r) \<Longrightarrow> on_server m w = (res, w\<lparr>server := r\<rparr>)"
  by (simp add: on_server_def)

lemma on_server_frame:
  "on_server m w = (res, w') \<Longrightarrow> store w' = store w"
  "on_server m w = (res, w') \<Longrightarrow> metrics w' = metrics w"
  by (auto simp: on_server_def split: prod.splits)

lemma on_server_run: "on_server m w = (res, w') \<Longrightarrow> m (server w) = (res, server w')"
  by (auto simp: on_server_def split: prod.splits)

lemma on_metrics_frame [simp]:
  "server (on_metrics f w) = server w" "store (on_metrics f w) = store w"
  by (simp_all add: on_metrics_def)

end
