(* ===== verification/Enqueue.thy ===== *)
theory Enqueue
  imports World MemRedis
begin

text \<open>
  \<open>relayq/application/enqueue.py\<close>: validation, backpressure, idempotency check, outbox insert,
  stream append, in this order, each stopping the flow with its exception.

  The caller's \<open>Job\<close> object is changed by the call (its idempotency key is set), so the job is
  returned with the result and the world. The warning logged for a key without a store has no
  effect of the model.
\<close>

section \<open>Steps\<close>

text \<open>\<open>if idempotency_key:\<close> holds for a key that is neither None nor empty.\<close>

definition given_key :: "string option \<Rightarrow> bool" where
  "given_key key \<longleftrightarrow> key \<noteq> None \<and> key \<noteq> Some []"

definition keyed_job :: "string option \<Rightarrow> job \<Rightarrow> job" where
  "keyed_job key j = (if given_key key then j\<lparr>idempotency_key := key\<rparr> else j)"

definition check_key ::
    "py_datetime \<Rightarrow> string option \<Rightarrow> 'r world \<Rightarrow> (exn + unit) \<times> 'r world" where
  "check_key now key w =
     (case (key, store w) of
        (Some k, Some db) \<Rightarrow>
          (if given_key key then
             (case find_by_idempotency_key now k db of
                (Inl e, db) \<Rightarrow> (Inl e, w\<lparr>store := Some db\<rparr>)
              | (Inr (Some _), db) \<Rightarrow> (Inl (IdempotencyConflict k), w\<lparr>store := Some db\<rparr>)
              | (Inr None, db) \<Rightarrow> (Inr (), w\<lparr>store := Some db\<rparr>))
           else (Inr (), w))
      | _ \<Rightarrow> (Inr (), w))"

definition write_outbox :: "job \<Rightarrow> 'r world \<Rightarrow> (exn + unit) \<times> 'r world" where
  "write_outbox j w =
     (case store w of
        None \<Rightarrow> (Inr (), w)
      | Some db \<Rightarrow> (case transaction (insert_outbox j) db of
          (res, db) \<Rightarrow> (res, w\<lparr>store := Some db\<rparr>)))"

section \<open>The flow\<close>

definition enqueue ::
    "'r redis \<Rightarrow> string \<Rightarrow> int \<Rightarrow> py_datetime \<Rightarrow> (job \<Rightarrow> (exn + unit) \<times> job) option \<Rightarrow>
     string option \<Rightarrow> job \<Rightarrow> 'r world \<Rightarrow> (exn + string) \<times> job \<times> 'r world" where
  "enqueue R px max_queue_depth now validate key j w =
     (case (case validate of None \<Rightarrow> (Inr (), j) | Some f \<Rightarrow> f j) of
        (Inl e, j) \<Rightarrow> (Inl e, j, w)
      | (Inr _, j) \<Rightarrow>
     (case on_server (stream_length R px (queue j)) w of
        (Inl e, w) \<Rightarrow> (Inl e, j, w)
      | (Inr depth, w) \<Rightarrow>
          if max_queue_depth \<le> depth
          then (Inl (QueueFull (queue j) depth max_queue_depth), j, w)
          else
            (let j = keyed_job key j
             in case check_key now key w of
                  (Inl e, w) \<Rightarrow> (Inl e, j, w)
                | (Inr _, w) \<Rightarrow>
               (case write_outbox j w of
                  (Inl e, w) \<Rightarrow> (Inl e, j, w)
                | (Inr _, w) \<Rightarrow>
               (case on_server (xadd R px (queue j) j (max_queue_depth + 1000) True) w of
                  (res, w) \<Rightarrow> (res, j, w))))))"

section \<open>Laws of the steps\<close>

lemma check_key_frame:
  assumes "check_key now key w = (res, w')"
  shows "server w' = server w" "metrics w' = metrics w"
    "rel_option (\<lambda>db db'. committed db' = committed db \<and> working db' = working db)
       (store w) (store w')"
  using assms
  by (auto simp: check_key_def find_by_idempotency_key_def rel_option_iff
    split: option.splits prod.splits sum.splits if_splits dest: fetch_job_frame)

lemma check_key_skip:
  "store w = None \<or> \<not> given_key key \<Longrightarrow> check_key now key w = (Inr (), w)"
  by (cases key) (auto simp: check_key_def split: option.split)

lemma write_outbox_cases:
  assumes "write_outbox j w = (res, w')"
  obtains (none) "res = Inr ()" "store w = None" "w' = w"
  | (ok) db db' st where "res = Inr ()" "store w = Some db" "w' = w\<lparr>store := Some db'\<rparr>"
      "status j = Member st" "committed db' = committed db @ [row_of j (status_value st)]"
      "working db = None" "working db' = None"
      "constraint (committed db) (row_of j (status_value st)) = None"
  | (err) e db db' where "res = Inl e" "is_exception e" "store w = Some db"
      "w' = w\<lparr>store := Some db'\<rparr>" "committed db' = committed db" "working db' = working db"
proof (cases "store w")
  case None
  with assms have "res = Inr ()" "w' = w" by (simp_all add: write_outbox_def)
  with None show ?thesis by (intro none)
next
  case (Some db)
  obtain r db' where run: "transaction (insert_outbox j) db = (r, db')" by fastforce
  with Some assms have w': "res = r" "w' = w\<lparr>store := Some db'\<rparr>"
    by (simp_all add: write_outbox_def)
  from run show ?thesis
  proof (cases rule: transaction_cases)
    case ok': (ok st)
    with Some w' ok show ?thesis by blast
  next
    case err': (err e)
    with Some w' err show ?thesis by blast
  qed
qed

text \<open>The key a job carries into the outbox.\<close>

definition effective_key :: "string option \<Rightarrow> job \<Rightarrow> string option" where
  "effective_key key j = (if given_key key then key else idempotency_key j)"

lemma keyed_job_simps [simp]:
  "idempotency_key (keyed_job key j) = effective_key key j"
  "queue (keyed_job key j) = queue j" "status (keyed_job key j) = status j"
  "jid (keyed_job key j) = jid j" "wf_job (keyed_job key j) = wf_job j"
  by (simp_all add: keyed_job_def effective_key_def wf_job_def)

text \<open>The outcomes of an enqueue without a validation hook, by how far it got.\<close>

lemma enqueue_cases:
  assumes "enqueue R px cap now None key j w = (res, j', w')"
  obtains (length_err) e where "res = Inl e" "j' = j" "on_server (stream_length R px (queue j)) w = (Inl e, w')"
  | (full) depth where "res = Inl (QueueFull (queue j) depth cap)" "j' = j" "cap \<le> depth"
      "on_server (stream_length R px (queue j)) w = (Inr depth, w')"
  | (key_err) e depth w1 where "res = Inl e" "j' = keyed_job key j" "depth < cap"
      "on_server (stream_length R px (queue j)) w = (Inr depth, w1)"
      "check_key now key w1 = (Inl e, w')"
  | (outbox_err) e depth w1 w2 where "res = Inl e" "j' = keyed_job key j" "depth < cap"
      "on_server (stream_length R px (queue j)) w = (Inr depth, w1)"
      "check_key now key w1 = (Inr (), w2)"
      "write_outbox (keyed_job key j) w2 = (Inl e, w')"
  | (sent) depth w1 w2 w3 where "j' = keyed_job key j" "depth < cap"
      "on_server (stream_length R px (queue j)) w = (Inr depth, w1)"
      "check_key now key w1 = (Inr (), w2)"
      "write_outbox (keyed_job key j) w2 = (Inr (), w3)"
      "on_server (xadd R px (queue j) (keyed_job key j) (cap + 1000) True) w3 = (res, w')"
proof -
  obtain r1 w1 where 1: "on_server (stream_length R px (queue j)) w = (r1, w1)" by fastforce
  show ?thesis
  proof (cases r1)
    case (Inl e)
    with assms 1 show ?thesis by (intro length_err [of e]) (auto simp: enqueue_def)
  next
    case (Inr depth)
    show ?thesis
    proof (cases "cap \<le> depth")
      case True
      with assms 1 Inr show ?thesis by (intro full [of depth]) (auto simp: enqueue_def)
    next
      case False
      obtain r2 w2 where 2: "check_key now key w1 = (r2, w2)" by fastforce
      show ?thesis
      proof (cases r2)
        case e2: (Inl e)
        with assms 1 2 Inr False show ?thesis
          by (intro key_err [of e depth w1]) (simp_all add: enqueue_def Let_def)
      next
        case u2: (Inr u)
        obtain r3 w3 where 3: "write_outbox (keyed_job key j) w2 = (r3, w3)" by fastforce
        show ?thesis
        proof (cases r3)
          case (Inl e)
          with assms 1 2 3 \<open>r1 = Inr depth\<close> False u2 show ?thesis
            by (intro outbox_err [of e depth w1 w2]) (simp_all add: enqueue_def Let_def)
        next
          case u3: (Inr u')
          with assms 1 2 3 \<open>r1 = Inr depth\<close> False u2 show ?thesis
            by (intro sent [of depth w1 w2 w3])
               (auto simp add: enqueue_def Let_def split: prod.splits)
        qed
      qed
    qed
  qed
qed

lemma enqueue_store:
  assumes "enqueue R px cap now None key j w = (res, j', w')" "store w = Some db"
  obtains (before) e db' where "res = Inl e" "store w' = Some db'" "committed db' = committed db"
      "working db' = working db"
      "server w' = snd (stream_length R px (queue j) (server w))"
  | (after) depth r1 db' st where "store w' = Some db'" "depth < cap"
      "status j = Member st"
      "committed db' = committed db @ [row_of (keyed_job key j) (status_value st)]"
      "working db = None" "working db' = None"
      "constraint (committed db) (row_of (keyed_job key j) (status_value st)) = None"
      "stream_length R px (queue j) (server w) = (Inr depth, r1)"
      "xadd R px (queue j) (keyed_job key j) (cap + 1000) True r1 = (res, server w')"
  using assms(1)
proof (cases rule: enqueue_cases)
  case (length_err e)
  with assms(2) before show ?thesis using on_server_frame on_server_run by (metis snd_conv)
next
  case (full depth)
  with assms(2) before show ?thesis using on_server_frame on_server_run by (metis snd_conv)
next
  case (key_err e depth w1)
  have w1: "store w1 = Some db" "server w1 = snd (stream_length R px (queue j) (server w))"
    using key_err on_server_frame on_server_run assms(2) by (metis snd_conv)+
  then obtain db' where "store w' = Some db'" "committed db' = committed db" "working db' = working db"
    using check_key_frame(3) [OF key_err(5)] by (auto simp: option_rel_Some1)
  moreover have "server w' = server w1" using check_key_frame(1) [OF key_err(5)] .
  ultimately show ?thesis using before key_err(1) w1 by simp
next
  case (outbox_err e depth w1 w2)
  have w1: "store w1 = Some db" "server w1 = snd (stream_length R px (queue j) (server w))"
    using outbox_err on_server_frame on_server_run assms(2) by (metis snd_conv)+
  then obtain db2 where db2: "store w2 = Some db2" "committed db2 = committed db"
      "working db2 = working db" "server w2 = server w1"
    using check_key_frame [OF outbox_err(5)] by (auto simp: option_rel_Some1)
  from outbox_err(6) show ?thesis
  proof (cases rule: write_outbox_cases)
    case (err e' d d')
    with db2 w1 outbox_err(1) before show ?thesis by simp
  qed simp_all
next
  case (sent depth w1 w2 w3)
  have w1: "store w1 = Some db" "stream_length R px (queue j) (server w) = (Inr depth, server w1)"
    using sent on_server_frame on_server_run assms(2) by metis+
  then obtain db2 where db2: "store w2 = Some db2" "committed db2 = committed db"
      "working db2 = working db" "server w2 = server w1"
    using check_key_frame [OF sent(4)] by (auto simp: option_rel_Some1)
  have run: "xadd R px (queue j) (keyed_job key j) (cap + 1000) True (server w3) = (res, server w')"
    and st: "store w' = store w3"
    using on_server_run [OF sent(6)] on_server_frame(1) [OF sent(6)] by simp_all
  from sent(5) show ?thesis
  proof (cases rule: write_outbox_cases)
    case (ok d d' st')
    with db2 have "server w3 = server w1" "store w' = Some d'" "committed d = committed db"
        "working db = None" using st by auto
    with ok sent run w1 show ?thesis
      by (intro after [of d' depth st' "server w1"]) (simp_all add: db2)
  qed (use db2 in simp_all)
qed

section \<open>Keys across enqueues\<close>

text \<open>
  The enqueuer with a store, as an operation on the server and the database: what the key
  registry sees.
\<close>

definition enqueue_stored ::
    "'r redis \<Rightarrow> string \<Rightarrow> int \<Rightarrow> py_datetime \<Rightarrow> string option \<times> job \<Rightarrow>
     ('r \<times> sqlite, exn, string) io" where
  "enqueue_stored R px cap now kj rdb =
     (case enqueue R px cap now None (fst kj) (snd kj)
             \<lparr>server = fst rdb, store = Some (snd rdb), metrics = []\<rparr> of
        (res, _, w) \<Rightarrow> (res, server w, the (store w)))"

inductive other_step :: "'r \<times> sqlite \<Rightarrow> 'r \<times> sqlite \<Rightarrow> bool" where
  other_server: "other_step (r, db) (r', db)"
| other_store: "store_step db db' \<Longrightarrow> other_step (r, db) (r, db')"

lemma enqueue_stored_cases:
  assumes "enqueue_stored R px cap now kj rdb = (res, rdb')"
  obtains e where "res = Inl e" "committed_keys (snd rdb') = committed_keys (snd rdb)"
  | st where "committed (snd rdb') =
        committed (snd rdb) @ [row_of (keyed_job (fst kj) (snd kj)) (status_value st)]"
      "constraint (committed (snd rdb)) (row_of (keyed_job (fst kj) (snd kj)) (status_value st)) = None"
proof -
  let ?w = "\<lparr>server = fst rdb, store = Some (snd rdb), metrics = []\<rparr>"
  obtain j' w' where run: "enqueue R px cap now None (fst kj) (snd kj) ?w = (res, j', w')"
    and rdb': "rdb' = (server w', the (store w'))"
    using assms by (auto simp: enqueue_stored_def split: prod.splits)
  have "store ?w = Some (snd rdb)" by simp
  with run show ?thesis
  proof (cases rule: enqueue_store)
    case (before e db')
    with rdb' that(1) [of e] show ?thesis by (simp add: committed_keys_def)
  next
    case (after depth r1 db' st)
    with rdb' that(2) [of st] show ?thesis by simp
  qed
qed

interpretation enqueuer: key_registry "\<lambda>rdb. committed_keys (snd rdb)"
  "\<lambda>kj. effective_key (fst kj) (snd kj)" "enqueue_stored R px cap now" other_step
  for R px cap now
proof
  fix kj rdb r rdb' k
  assume run: "enqueue_stored R px cap now kj rdb = (Inr r, rdb')"
    and key: "effective_key (fst kj) (snd kj) = Some k"
  from run show "k \<in> committed_keys (snd rdb')"
    by (cases rule: enqueue_stored_cases) (auto simp: key row_of_def committed_keys_def)
  from run show "k \<notin> committed_keys (snd rdb)"
    by (cases rule: enqueue_stored_cases)
       (auto simp: key row_of_def committed_keys_def set_keys_of constraint_def split: if_splits)
next
  fix kj rdb res rdb' assume "enqueue_stored R px cap now kj rdb = (res, rdb')"
  then show "committed_keys (snd rdb) \<subseteq> committed_keys (snd rdb')"
    by (cases rule: enqueue_stored_cases) (auto simp: committed_keys_def)
next
  fix rdb rdb' assume "other_step rdb rdb'"
  then show "committed_keys (snd rdb) \<subseteq> committed_keys (snd rdb')"
    by (induction rule: other_step.induct) (simp_all add: committed_keys_def store_step_committed)
qed

section \<open>Properties\<close>

text \<open>The world of the witnesses: an empty server and an empty outbox.\<close>

definition demo_world :: "mem world" where
  "demo_world = \<lparr>server = mem_init, store = Some (connect [] []), metrics = []\<rparr>"

lemma demo_world_simps [simp]:
  "server demo_world = mem_init" "store demo_world = Some (connect [] [])" "metrics demo_world = []"
  by (simp_all add: demo_world_def)

definition reports_length :: "'r redis \<Rightarrow> (string \<Rightarrow> 'r \<Rightarrow> nat) \<Rightarrow> bool" where
  "reports_length R len \<longleftrightarrow> (\<forall>k r res r'. rc_xlen R k r = (res, r') \<longrightarrow>
     (\<forall>k. len k r' = len k r) \<and> (\<forall>n. res = Inr n \<longrightarrow> n = int (len k r)))"

definition adds_one :: "'r redis \<Rightarrow> (string \<Rightarrow> 'r \<Rightarrow> nat) \<Rightarrow> bool" where
  "adds_one R len \<longleftrightarrow> (\<forall>k kvs m a r res r'. rc_xadd R k kvs m a r = (res, r') \<longrightarrow>
     len k r' \<le> Suc (len k r) \<and> (\<forall>k'. k' \<noteq> k \<longrightarrow> len k' r' = len k' r))"

lemma mem_takes: "\<exists>i r'. rc_xadd mem_client k kvs m a r = (Inr i, r')"
  by simp

lemma mem_reports_length: "reports_length mem_client (\<lambda>k m. length (streams m k))"
  by (auto simp: reports_length_def)

lemma mem_adds_one: "adds_one mem_client (\<lambda>k m. length (streams m k))"
  by (auto simp: adds_one_def)

lemma demo_transaction:
  "status j = Member st \<Longrightarrow> transaction (insert_outbox j) (connect [] []) =
     (Inr (), connect [row_of j (status_value st)] [])"
  by (simp add: transaction_def begin_immediate_def next_lock_def connect_def open_txn_def
    table_def io_bind_def insert_outbox_def status_attr_def exec_insert_def constraint_def
    commit_def)

lemma demo_enqueue:
  assumes "wf_job j" "status j = Member st"
  shows "\<exists>w'. enqueue mem_client ''relayq'' 10 t None None j demo_world = (Inr (mem_id 1), j, w') \<and>
    store w' = Some (connect [row_of j (status_value st)] [])"
proof -
  obtain body where body: "job_text j = Inr body" using job_text_Inr assms(1) by blast
  have key: "keyed_job None j = j" by (simp add: keyed_job_def given_key_def)
  show ?thesis
    by (simp add: enqueue_def on_server_def stream_length_def check_key_def write_outbox_def
      demo_transaction [OF assms(2)] xadd_def io_bind_def body key Let_def)
qed

text \<open>C2. Outbox first. With a store, an enqueue ends in one of two ways. Either it raises with
  the committed table as it was and nothing sent to the server beyond the length query, or the
  job's row is committed and the result is exactly that of the one \<open>XADD\<close> sent after it. So a
  stream entry never exists without its outbox row, and a failed \<open>XADD\<close> leaves the row behind.\<close>

theorem enqueue_outbox_first:
  assumes "store w = Some db" "enqueue R px cap now None key j w = (res, j', w')"
  shows "\<exists>db'. store w' = Some db' \<and>
    ((\<exists>e. res = Inl e \<and> committed db' = committed db \<and>
        server w' = snd (stream_length R px (queue j) (server w))) \<or>
     (\<exists>st. status j = Member st \<and>
        committed db' = committed db @ [row_of (keyed_job key j) (status_value st)] \<and>
        xadd R px (queue j) (keyed_job key j) (cap + 1000) True
          (snd (stream_length R px (queue j) (server w))) = (res, server w')))"
  using assms(2,1)
proof (cases rule: enqueue_store)
  case (before e db')
  then show ?thesis by auto
next
  case (after depth r1 db' st)
  then show ?thesis by (intro exI [of _ db'] conjI disjI2 exI [of _ st]) simp_all
qed

theorem enqueue_outbox_first_witness:
  "\<exists>w'. enqueue mem_client ''relayq'' 10 base_time None None sample_job demo_world =
       (Inr (mem_id 1), sample_job, w') \<and>
     xadd mem_client ''relayq'' ''default'' sample_job 1010 True mem_init =
       (Inr (mem_id 1), server w')"
proof -
  obtain w' where run: "enqueue mem_client ''relayq'' 10 base_time None None sample_job demo_world =
      (Inr (mem_id 1), sample_job, w')"
    using demo_enqueue [of sample_job PENDING base_time] by auto
  have "store demo_world = Some (connect [] [])" by simp
  from enqueue_outbox_first [OF this run] run show ?thesis
    by (auto simp: connect_def keyed_job_def given_key_def stream_length_def)
qed

text \<open>Backpressure. When the stream is at or over the maximum depth, an enqueue raises
  \<open>QueueFull\<close> with the queue, its depth and the limit, and changes nothing: no key is looked up, no
  row is written, nothing is appended, and the job object is as it was.\<close>

theorem enqueue_full_no_effect:
  assumes "stream_length R px (queue j) (server w) = (Inr depth, r)" "cap \<le> depth"
  shows "enqueue R px cap now None key j w =
    (Inl (QueueFull (queue j) depth cap), j, w\<lparr>server := r\<rparr>)"
  using assms by (simp add: enqueue_def on_server_def)

theorem enqueue_full_no_effect_witness:
  "enqueue mem_client ''relayq'' 0 base_time None None sample_job demo_world =
     (Inl (QueueFull ''default'' 0 0), sample_job, demo_world)"
proof -
  have "stream_length mem_client ''relayq'' (queue sample_job) (server demo_world) = (Inr 0, mem_init)"
    by (simp add: stream_length_def)
  from enqueue_full_no_effect [OF this, of 0 base_time None] show ?thesis
    by (simp add: demo_world_def)
qed

text \<open>The stream stays bounded. With a server that reports a stream's length and grows it by at
  most one entry per \<open>XADD\<close>, no enqueue takes the stream of any queue over the maximum depth,
  whatever its outcome.\<close>

theorem enqueue_keeps_bound:
  assumes "reports_length R len" "adds_one R len"
    and "\<And>q. int (len (stream_key px q) (server w)) \<le> cap"
    and "store w = Some db" "enqueue R px cap now None key j w = (res, j', w')"
  shows "int (len (stream_key px q) (server w')) \<le> cap"
proof -
  let ?r1 = "snd (stream_length R px (queue j) (server w))"
  have same: "len k ?r1 = len k (server w)" for k
    using assms(1) unfolding reports_length_def stream_length_def by (metis prod.collapse)
  show ?thesis using assms(5,4)
  proof (cases rule: enqueue_store)
    case (before e db')
    then show ?thesis using assms(3) same by simp
  next
    case (after depth r1 db' st)
    then have depth: "depth = int (len (stream_key px (queue j)) (server w))"
      using assms(1) unfolding reports_length_def stream_length_def by blast
    have r1: "len k r1 = len k (server w)" for k using after(8) same [of k] by simp
    show ?thesis
    proof (cases "job_text (keyed_job key j)")
      case (Inl e)
      then show ?thesis using after(9) r1 assms(3) by (simp add: xadd_def io_bind_def)
    next
      case (Inr body)
      then have "rc_xadd R (stream_key px (queue j)) [(''job'', body)]
          (if cap + 1000 \<noteq> 0 then Some (cap + 1000) else None) (cap + 1000 \<noteq> 0) r1 = (res, server w')"
        using after(9) by (simp add: xadd_def io_bind_def)
      then have "len (stream_key px (queue j)) (server w') \<le> Suc (len (stream_key px (queue j)) r1)"
        "\<And>k'. k' \<noteq> stream_key px (queue j) \<Longrightarrow> len k' (server w') = len k' r1"
        using assms(2) unfolding adds_one_def by blast+
      then show ?thesis using r1 depth after(2) assms(3) by (cases "q = queue j") auto
    qed
  qed
qed

theorem enqueue_keeps_bound_witness:
  "case enqueue mem_client ''relayq'' 1 base_time None None sample_job demo_world of
     (res, j', w') \<Rightarrow> int (length (streams (server w') (stream_key ''relayq'' ''q''))) \<le> 1"
proof -
  obtain res j' w' where run: "enqueue mem_client ''relayq'' 1 base_time None None sample_job demo_world =
      (res, j', w')" by (metis prod_cases3)
  have "int (length (streams (server w') (stream_key ''relayq'' ''q''))) \<le> 1"
    by (rule enqueue_keeps_bound [OF mem_reports_length mem_adds_one _ _ run]) simp_all
  with run show ?thesis by simp
qed

text \<open>A duplicate key is refused. When the outbox already shows a readable row with the given
  key, the enqueue raises \<open>IdempotencyConflict\<close> with that key, after the length query and before
  any write: the table and the stream are as they were.\<close>

theorem enqueue_conflict:
  assumes "stream_length R px (queue j) (server w) = (Inr depth, r)" "depth < cap"
    and "store w = Some db" "locks db = []" "k \<noteq> []"
    and "find (\<lambda>x. r_key x = Some k) (table db) = Some row" "job_of_row now row = Inr old"
  shows "enqueue R px cap now None (Some k) j w =
    (Inl (IdempotencyConflict k), j\<lparr>idempotency_key := Some k\<rparr>, w\<lparr>server := r\<rparr>)"
  using assms
  by (simp add: enqueue_def on_server_def check_key_def given_key_def keyed_job_def
    find_by_idempotency_key_def fetch_job_unlocked)

theorem enqueue_conflict_witness:
  "let j = sample_job\<lparr>idempotency_key := Some ''k''\<rparr>;
       w = demo_world\<lparr>store := Some (connect [row_of j ''pending''] [])\<rparr>
   in enqueue mem_client ''relayq'' 10 base_time None (Some ''k'') sample_job w =
     (Inl (IdempotencyConflict ''k''), j, w)"
proof -
  define j where "j = sample_job\<lparr>idempotency_key := Some ''k''\<rparr>"
  define w where "w = demo_world\<lparr>store := Some (connect [row_of j ''pending''] [])\<rparr>"
  have len: "stream_length mem_client ''relayq'' (queue sample_job) (server w) = (Inr 0, mem_init)"
    by (simp add: stream_length_def w_def)
  have row: "find (\<lambda>x. r_key x = Some ''k'') (table (connect [row_of j ''pending''] [])) =
      Some (row_of j ''pending'')"
    by (simp add: connect_def row_of_def j_def)
  have old: "job_of_row base_time (row_of j ''pending'') = Inr (j\<lparr>created_at := base_time\<rparr>)"
    using job_of_row_of [of j PENDING base_time] by (simp add: j_def)
  have "enqueue mem_client ''relayq'' 10 base_time None (Some ''k'') sample_job w =
      (Inl (IdempotencyConflict ''k''), sample_job\<lparr>idempotency_key := Some ''k''\<rparr>,
       w\<lparr>server := mem_init\<rparr>)"
    by (rule enqueue_conflict [OF len _ _ _ _ row old]) (simp_all add: w_def connect_def)
  moreover have "w\<lparr>server := mem_init\<rparr> = w" by (simp add: w_def demo_world_def)
  ultimately show ?thesis by (simp add: j_def w_def Let_def)
qed

text \<open>At most one job per key. Over any run of enqueues through a store (each accepted or
  refused, for any reason), server steps, status updates, reads and reconnections, the keys of the
  accepted jobs are distinct, and none of them was recorded before the run.\<close>

theorem enqueue_accepts_key_once:
  assumes "registry_run (enqueue_stored R px cap now) other_step s kjs t"
  shows "distinct (accepted_keys (\<lambda>kj. effective_key (fst kj) (snd kj)) kjs) \<and>
    set (accepted_keys (\<lambda>kj. effective_key (fst kj) (snd kj)) kjs) \<subseteq>
      committed_keys (snd t) - committed_keys (snd s)"
  using assms by (rule enqueuer.run_accepts_once)

theorem enqueue_accepts_key_once_witness:
  "let j = sample_job\<lparr>idempotency_key := Some ''k''\<rparr> in
   \<exists>s. set (accepted_keys (\<lambda>kj. effective_key (fst kj) (snd kj)) ([] @ [(None, j)])) \<subseteq>
     committed_keys s - {}"
proof -
  define j where "j = sample_job\<lparr>idempotency_key := Some ''k''\<rparr>"
  have "wf_job j" by (simp add: j_def wf_job_def)
  then obtain w' where run: "enqueue mem_client ''relayq'' 10 base_time None None j demo_world =
      (Inr (mem_id 1), j, w')"
    using demo_enqueue [of j PENDING base_time] by (auto simp: j_def)
  then have "enqueue_stored mem_client ''relayq'' 10 base_time (None, j) (mem_init, connect [] []) =
      (Inr (mem_id 1), (server w', the (store w')))"
    by (simp add: enqueue_stored_def demo_world_def)
  then have "registry_run (enqueue_stored mem_client ''relayq'' 10 base_time) other_step
      (mem_init, connect [] []) ([] @ [(None, j)]) (server w', the (store w'))"
    by (rule run_accept [OF run_start])
  from enqueue_accepts_key_once [OF this] show ?thesis
    by (auto simp: j_def Let_def connect_def committed_keys_def)
qed

text \<open>Without a store nothing is deduplicated. An enqueuer built without one, as the API builds
  it, accepts a job whatever its key and however often: if the stream is below the limit and the
  server takes the entry, the result is the entry's id.\<close>

theorem enqueue_without_store:
  assumes "store w = None" "wf_job j"
    and "stream_length R px (queue j) (server w) = (Inr depth, r)" "depth < cap"
    and "\<And>kvs m a. \<exists>i r'. rc_xadd R (stream_key px (queue j)) kvs m a r = (Inr i, r')"
  shows "\<exists>i j' w'. enqueue R px cap now None key j w = (Inr i, j', w') \<and> store w' = None"
proof -
  have "wf_job (keyed_job key j)" using assms(2) by simp
  then obtain body where body: "job_text (keyed_job key j) = Inr body" by (rule job_text_Inr)
  obtain i r' where "rc_xadd R (stream_key px (queue j)) [(''job'', body)]
      (if cap + 1000 \<noteq> 0 then Some (cap + 1000) else None) (cap + 1000 \<noteq> 0) r = (Inr i, r')"
    using assms(5) by blast
  then have "xadd R px (queue j) (keyed_job key j) (cap + 1000) True r = (Inr i, r')"
    using body by (simp add: xadd_def io_bind_def)
  then have "enqueue R px cap now None key j w = (Inr i, keyed_job key j, w\<lparr>server := r'\<rparr>)"
    using assms(1,3,4)
    by (simp add: enqueue_def on_server_def check_key_skip write_outbox_def Let_def)
  with assms(1) show ?thesis by simp
qed

theorem enqueue_without_store_witness:
  "\<exists>i j' w'. enqueue mem_client ''relayq'' 10 base_time None (Some ''k'') sample_job
     (demo_world\<lparr>store := None\<rparr>) = (Inr i, j', w') \<and> store w' = None"
  by (rule enqueue_without_store [where depth = 0 and r = mem_init])
     (simp_all add: stream_length_def del: mem_client_simps(2) add: mem_takes)

text \<open>A status update blocks the outbox. Once \<open>update_status\<close> has run on a connection, every
  enqueue through it that gets as far as the outbox raises \<open>OperationalError\<close> (a transaction is
  already open) and appends nothing, until the connection is closed.\<close>

theorem enqueue_after_status_update:
  assumes "store w = Some (snd (update_status i st a db))" "\<not> given_key key"
    and "stream_length R px (queue j) (server w) = (Inr depth, r)" "depth < cap"
  shows "enqueue R px cap now None key j w = (Inl nested_begin, j, w\<lparr>server := r\<rparr>)"
proof -
  let ?db = "snd (update_status i st a db)"
  have "working ?db \<noteq> None"
    unfolding update_status_def by (metis exec_update_cases option.discI prod.collapse)
  then have "transaction (insert_outbox j) ?db = (Inl nested_begin, ?db)"
    by (simp add: transaction_def begin_immediate_def)
  then show ?thesis
    using assms
    by (simp add: enqueue_def on_server_def write_outbox_def check_key_skip keyed_job_def Let_def)
qed

theorem enqueue_after_status_update_witness:
  "\<exists>r. enqueue mem_client ''relayq'' 10 base_time None None sample_job
     (demo_world\<lparr>store := Some (snd (update_status ''x'' DEAD None (connect [] [])))\<rparr>) =
     (Inl nested_begin, sample_job, r)"
proof -
  have len: "stream_length mem_client ''relayq'' (queue sample_job)
      (server (demo_world\<lparr>store := Some (snd (update_status ''x'' DEAD None (connect [] [])))\<rparr>)) =
      (Inr 0, mem_init)"
    by (simp add: stream_length_def)
  show ?thesis
    by (rule exI, rule enqueue_after_status_update [OF _ _ len]) (simp_all add: given_key_def)
qed

end
