(* ===== verification/Execute.thy ===== *)
theory Execute
  imports Enqueue Retry
begin

text \<open>
  \<open>relayq/application/execute.py\<close>: one delivery of a job. The handler is the user's code, a
  parameter: from the job it is given, how the call ends. It shares the \<open>Job\<close> object with the
  executor, so the object it leaves is part of its result.

  The methods return the \<open>Job\<close> object as they leave it, beside the result and the world. Log
  lines are not modelled; what they compute and may raise while doing so (the reason text, the
  retry delay) is.
\<close>

section \<open>The handler call\<close>

text \<open>
  \<open>ran_for\<close> is how long the call runs when nothing cancels it; \<open>measured\<close> the difference of the
  clock readings around it; \<open>outcome\<close> its result, \<open>CancelledError\<close> when the worker's task is
  cancelled; \<open>left\<close> the job object when the call is over.
\<close>

record handler_run =
  ran_for :: rat
  measured :: rat
  outcome :: "exn + unit"
  left :: job

type_synonym handler = "job \<Rightarrow> handler_run"

text \<open>\<open>async with asyncio.timeout(T): await handler(job)\<close>.\<close>

definition timed :: "rat \<Rightarrow> handler_run \<Rightarrow> exn + unit" where
  "timed T h = (if T < ran_for h then Inl TimeoutError else outcome h)"

section \<open>Guarded effects\<close>

text \<open>\<open>try: m except Exception: log\<close>.\<close>

definition swallow :: "('s, exn, unit) io \<Rightarrow> ('s, exn, unit) io" where
  "swallow m s = (case m s of
     (Inl e, s') \<Rightarrow> if is_exception e then (Inr (), s') else (Inl e, s')
   | (Inr _, s') \<Rightarrow> (Inr (), s'))"

text \<open>The outbox note of \<open>execute\<close> and \<open>_handle_failure\<close>: \<open>if self.store: try: ... \<close>.\<close>

definition note_status ::
    "string \<Rightarrow> job_status \<Rightarrow> int option \<Rightarrow> ('r world, exn, unit) io" where
  "note_status i st attempt w =
     (case store w of
        None \<Rightarrow> (Inr (), w)
      | Some db \<Rightarrow> (case swallow (update_status i st attempt) db of
          (res, db) \<Rightarrow> (res, w\<lparr>store := Some db\<rparr>)))"

definition noted :: "(prom_log \<Rightarrow> prom_log) \<Rightarrow> ('r world, exn, unit) io" where
  "noted f w = (Inr (), on_metrics f w)"

section \<open>Failure\<close>

definition bury ::
    "'r redis \<Rightarrow> string \<Rightarrow> string \<Rightarrow> string \<Rightarrow> job \<Rightarrow> string \<Rightarrow> string \<Rightarrow> ('r world, exn, unit) io" where
  "bury R px ns q j reason entry_id =
     io_bind (on_server (xadd_dlq R px q j reason)) (\<lambda>_.
     io_bind (on_server (xack R px q entry_id)) (\<lambda>_.
       noted (incr_dead_letter ns (kind j))))"

definition handle_failure ::
    "'r redis \<Rightarrow> string \<Rightarrow> string \<Rightarrow> retry_policy \<Rightarrow> rat \<Rightarrow> (rat \<Rightarrow> string) \<Rightarrow>
     string \<Rightarrow> string \<Rightarrow> job \<Rightarrow> exn \<Rightarrow> 'r world \<Rightarrow> (exn + unit) \<times> job \<times> 'r world" where
  "handle_failure R px ns policy u show_float q entry_id j e w =
     (let j = j\<lparr>attempts := attempts j + 1\<rparr>;
          w = on_metrics (incr_delivery_attempts ns (kind j) False) w;
          (res, w) =
            (if should_dlq j then
               (let reason = exn_name e @ '': '' @ exn_str show_float e
                in io_bind (swallow (bury R px ns q j reason entry_id)) (\<lambda>_.
                     note_status (jid j) DEAD None) w)
             else
               io_bind (io_lift (delay policy u (attempts j - 1))) (\<lambda>_.
                 note_status (jid j) FAILED (Some (attempts j))) w)
      in (res, j, w))"

section \<open>One delivery\<close>

definition execute ::
    "'r redis \<Rightarrow> string \<Rightarrow> string \<Rightarrow> retry_policy \<Rightarrow> rat \<Rightarrow> (rat \<Rightarrow> string) \<Rightarrow> rat \<Rightarrow>
     string \<Rightarrow> string \<Rightarrow> job \<Rightarrow> handler \<Rightarrow> 'r world \<Rightarrow> (exn + unit) \<times> job \<times> 'r world" where
  "execute R px ns policy u show_float job_timeout q entry_id j handler w =
     (case note_status (jid j) PROCESSING (Some (attempts j)) w of
        (Inl e, w) \<Rightarrow> (Inl e, j, w)
      | (Inr _, w) \<Rightarrow>
     (let run = handler j; j = left run;
          observed = on_metrics (observe_processing_seconds ns (kind j) (measured run)) w
      in case timed job_timeout run of
           Inl TimeoutError \<Rightarrow>
             handle_failure R px ns policy u show_float q entry_id j
               (JobTimeout (jid j) job_timeout) observed
         | Inl e \<Rightarrow>
             if is_exception e then
               handle_failure R px ns policy u show_float q entry_id j e observed
             else (Inl e, j, w)
         | Inr _ \<Rightarrow>
             (case io_bind (swallow (io_bind (on_server (xack R px q entry_id)) (\<lambda>_. io_ret ())))
                    (\<lambda>_. io_bind (note_status (jid j) COMPLETED None) (\<lambda>_.
                       noted (incr_delivery_attempts ns (kind j) True))) observed of
                (res, w) \<Rightarrow> (res, j, w))))"

section \<open>Laws\<close>

lemma swallow_cases:
  assumes "swallow m s = (res, s')"
  obtains (ended) r where "m s = (r, s')" "res = Inr ()" "\<And>e. r = Inl e \<Longrightarrow> is_exception e"
  | (cancelled) e where "m s = (Inl e, s')" "res = Inl e" "\<not> is_exception e"
proof (cases "m s")
  case (Pair r t)
  show ?thesis
  proof (cases "\<exists>e. r = Inl e \<and> \<not> is_exception e")
    case True
    then obtain e where e: "r = Inl e" "\<not> is_exception e" by blast
    with assms Pair show ?thesis by (intro cancelled) (simp_all add: swallow_def)
  next
    case False
    with assms Pair have "res = Inr ()" "s' = t" by (auto simp: swallow_def split: sum.splits)
    with False Pair show ?thesis by (intro ended [of r]) auto
  qed
qed

lemma note_status_eq:
  "note_status i st a w = (Inr (), w\<lparr>store := map_option (\<lambda>db. snd (update_status i st a db)) (store w)\<rparr>)"
proof (cases "store w")
  case None
  then show ?thesis by (simp add: note_status_def)
next
  case (Some db)
  obtain r db' where run: "update_status i st a db = (r, db')" by fastforce
  then have "\<forall>e. r = Inl e \<longrightarrow> is_exception e"
    by (auto simp: update_status_def locked_def elim!: exec_update_cases)
  with run Some show ?thesis
    by (cases r) (simp_all add: note_status_def swallow_def)
qed

lemma note_status_simps [simp]:
  "fst (note_status i st a w) = Inr ()"
  "server (snd (note_status i st a w)) = server w"
  "metrics (snd (note_status i st a w)) = metrics w"
  by (simp_all add: note_status_eq)

lemma noted_eq: "noted f w = (Inr (), on_metrics f w)"
  by (simp add: noted_def)

lemma bury_cases:
  assumes "bury R px ns q j reason entry_id w = (res, w')"
  obtains (dlq_failed) e where "res = Inl e"
      "xadd_dlq R px q j reason (server w) = (Inl e, server w')" "metrics w' = metrics w"
      "store w' = store w"
  | (ack_failed) e i r where "res = Inl e"
      "xadd_dlq R px q j reason (server w) = (Inr i, r)"
      "xack R px q entry_id r = (Inl e, server w')" "metrics w' = metrics w" "store w' = store w"
  | (buried) i n r where "res = Inr ()"
      "xadd_dlq R px q j reason (server w) = (Inr i, r)"
      "xack R px q entry_id r = (Inr n, server w')"
      "metrics w' = incr_dead_letter ns (kind j) (metrics w)" "store w' = store w"
proof -
  obtain r1 s1 where 1: "xadd_dlq R px q j reason (server w) = (r1, s1)" by fastforce
  obtain r2 s2 where 2: "xack R px q entry_id s1 = (r2, s2)" by fastforce
  show ?thesis
    using assms 1 2 that
    by (cases r1; cases r2) (auto simp: bury_def io_bind_def on_server_def noted_def on_metrics_def)
qed

text \<open>A failed delivery with retries left: what it changes.\<close>

lemma handle_failure_retry:
  assumes "\<not> max_retries j \<le> attempts j" "delay policy u (attempts j) = Inr d"
  shows "handle_failure R px ns policy u sf q entry_id j e w =
    (Inr (), j\<lparr>attempts := attempts j + 1\<rparr>,
     (on_metrics (incr_delivery_attempts ns (kind j) False) w)
       \<lparr>store := map_option (\<lambda>db. snd (update_status (jid j) FAILED (Some (attempts j + 1)) db)) (store w)\<rparr>)"
  using assms
  by (simp add: handle_failure_def should_dlq_def Let_def io_bind_def note_status_eq)

lemma handle_failure_dead:
  assumes "max_retries j \<le> attempts j"
    and "swallow (bury R px ns q (j\<lparr>attempts := attempts j + 1\<rparr>) (exn_name e @ '': '' @ exn_str sf e) entry_id)
      (on_metrics (incr_delivery_attempts ns (kind j) False) w) = (res, w1)"
  shows "handle_failure R px ns policy u sf q entry_id j e w =
    (res, j\<lparr>attempts := attempts j + 1\<rparr>,
     if res = Inr () then snd (note_status (jid j) DEAD None w1) else w1)"
  using assms
  by (cases res) (simp_all add: handle_failure_def should_dlq_def Let_def io_bind_def note_status_eq)

text \<open>The exception \<open>execute\<close> reports for a handler call, if it fails.\<close>

definition failure_of :: "rat \<Rightarrow> handler_run \<Rightarrow> exn option" where
  "failure_of T h = (case timed T h of
     Inl TimeoutError \<Rightarrow> Some (JobTimeout (jid (left h)) T)
   | Inl e \<Rightarrow> if is_exception e then Some e else None
   | Inr _ \<Rightarrow> None)"

text \<open>The world in which the outcome of the handler is dealt with.\<close>

definition after_run :: "string \<Rightarrow> job \<Rightarrow> handler_run \<Rightarrow> 'r world \<Rightarrow> 'r world" where
  "after_run ns j h w = on_metrics (observe_processing_seconds ns (kind (left h)) (measured h))
     (snd (note_status (jid j) PROCESSING (Some (attempts j)) w))"

lemma after_run_simps [simp]:
  "server (after_run ns j h w) = server w"
  "store (after_run ns j h w) = map_option (\<lambda>db. snd (update_status (jid j) PROCESSING (Some (attempts j)) db)) (store w)"
  "metrics (after_run ns j h w) = observe_processing_seconds ns (kind (left h)) (measured h) (metrics w)"
  by (simp_all add: after_run_def note_status_eq on_metrics_def)

lemma execute_failed:
  assumes "failure_of T (h j) = Some e"
  shows "execute R px ns policy u sf T q entry_id j h w =
    handle_failure R px ns policy u sf q entry_id (left (h j)) e (after_run ns j (h j) w)"
  using assms
  by (auto simp: execute_def failure_of_def after_run_def note_status_eq Let_def
    split: sum.splits exn.splits if_splits)

lemma execute_succeeded:
  assumes "timed T (h j) = Inr ()"
  shows "execute R px ns policy u sf T q entry_id j h w =
    (case io_bind (swallow (io_bind (on_server (xack R px q entry_id)) (\<lambda>_. io_ret ())))
            (\<lambda>_. io_bind (note_status (jid (left (h j))) COMPLETED None) (\<lambda>_.
               noted (incr_delivery_attempts ns (kind (left (h j))) True)))
            (after_run ns j (h j) w) of
       (res, w) \<Rightarrow> (res, left (h j), w))"
  using assms by (simp add: execute_def after_run_def note_status_eq Let_def)

section \<open>Handlers of the witnesses\<close>

definition ok_handler :: handler where
  "ok_handler j = \<lparr>ran_for = 1, measured = 1, outcome = Inr (), left = j\<rparr>"

definition bad_handler :: handler where
  "bad_handler j = \<lparr>ran_for = 1, measured = 1, outcome = Inl (HandlerError ''ValueError'' ''boom''),
     left = j\<rparr>"

definition slow_handler :: handler where
  "slow_handler j = \<lparr>ran_for = 400, measured = 300, outcome = Inr (), left = j\<rparr>"

lemma demo_handlers [simp]:
  "timed 300 (ok_handler j) = Inr ()" "failure_of 300 (ok_handler j) = None" "left (ok_handler j) = j" "measured (ok_handler j) = 1"
  "timed 300 (bad_handler j) = Inl (HandlerError ''ValueError'' ''boom'')"
  "failure_of 300 (bad_handler j) = Some (HandlerError ''ValueError'' ''boom'')"
  "left (bad_handler j) = j" "measured (bad_handler j) = 1"
  "failure_of 300 (slow_handler j) = Some (JobTimeout (jid j) 300)"
  "left (slow_handler j) = j" "measured (slow_handler j) = 300"
  by (simp_all add: ok_handler_def bad_handler_def slow_handler_def timed_def failure_of_def)

lemma mem_never_cancels:
  "fst (rc_xadd mem_client k kvs m a r) \<noteq> Inl CancelledError"
  "fst (rc_xack mem_client s g i r) \<noteq> Inl CancelledError"
  "fst (xack mem_client px q i r) \<noteq> Inl CancelledError"
  "fst (xadd_dlq mem_client px q j' reason r) \<noteq> Inl CancelledError"
  by (auto simp: xack_def xadd_dlq_def io_bind_def job_text_def to_dict_def status_attr_def
    py_dumps_def split: status_field.split)

section \<open>Redelivery\<close>

text \<open>
  The same entry delivered once per handler call of the list: each delivery decodes the fields
  anew, as \<open>read_group\<close> and \<open>autoclaim_stale\<close> do, and executes the job.
\<close>

fun redeliver ::
    "'r redis \<Rightarrow> string \<Rightarrow> string \<Rightarrow> retry_policy \<Rightarrow> rat \<Rightarrow> (rat \<Rightarrow> string) \<Rightarrow> rat \<Rightarrow> py_datetime \<Rightarrow>
     string \<Rightarrow> entry \<Rightarrow> handler list \<Rightarrow> 'r world \<Rightarrow> 'r world" where
  "redeliver R px ns policy u sf T now q e [] w = w"
| "redeliver R px ns policy u sf T now q e (h # hs) w =
     (case decode_entry now (snd e) of
        Inr (Some j) \<Rightarrow>
          (case execute R px ns policy u sf T q (fst e) j h w of
             (_, _, w) \<Rightarrow> redeliver R px ns policy u sf T now q e hs w)
      | _ \<Rightarrow> redeliver R px ns policy u sf T now q e hs w)"

lemma execute_retry_server:
  assumes "failure_of T (h j) = Some e" "attempts (left (h j)) < max_retries (left (h j))"
    and "execute R px ns policy u sf T q entry_id j h w = (res, j', w')"
  shows "server w' = server w"
proof -
  have "handle_failure R px ns policy u sf q entry_id (left (h j)) e (after_run ns j (h j) w) = (res, j', w')"
    using assms by (simp add: execute_failed)
  with assms(2) show ?thesis
    by (cases "delay policy u (attempts (left (h j)))")
       (auto simp: handle_failure_def should_dlq_def io_bind_def note_status_eq on_metrics_def Let_def)
qed

section \<open>Properties\<close>

text \<open>C20. Success. A handler that returns within the timeout has its entry acknowledged and its job
  marked completed, and both are counted: the server sees one \<open>XACK\<close>, the outbox the notes
  \<open>PROCESSING\<close> and \<open>COMPLETED\<close> in this order, and a failing \<open>XACK\<close> changes none of it.\<close>

theorem execute_success:
  assumes "timed T (h j) = Inr ()" "fst (xack R px q entry_id (server w)) \<noteq> Inl CancelledError"
  shows "execute R px ns policy u sf T q entry_id j h w =
    (Inr (), left (h j),
     \<lparr>server = snd (xack R px q entry_id (server w)),
      store = map_option (\<lambda>db. snd (update_status (jid (left (h j))) COMPLETED None
        (snd (update_status (jid j) PROCESSING (Some (attempts j)) db)))) (store w),
      metrics = incr_delivery_attempts ns (kind (left (h j))) True
        (observe_processing_seconds ns (kind (left (h j))) (measured (h j)) (metrics w))\<rparr>)"
proof -
  obtain r s where ack: "xack R px q entry_id (server w) = (r, s)" by fastforce
  let ?m = "io_bind (on_server (xack R px q entry_id)) (\<lambda>_. io_ret ())"
  have "swallow ?m (after_run ns j (h j) w) = (Inr (), (after_run ns j (h j) w)\<lparr>server := s\<rparr>)"
    using ack assms(2) by (cases r) (simp_all add: swallow_def io_bind_def on_server_def)
  then show ?thesis
    using assms(1) ack
    by (simp add: execute_succeeded io_bind_def note_status_eq noted_eq on_metrics_def
      option.map_comp comp_def)
qed

theorem execute_success_witness:
  "\<exists>w'. execute mem_client ''relayq'' ''relayq'' default_policy 0 (\<lambda>_. []) 300 ''default'' ''1-0'' sample_job
     ok_handler demo_world = (Inr (), sample_job, w') \<and> length (metrics w') = 2"
  using execute_success [of 300 ok_handler sample_job mem_client "''relayq''" "''default''" "''1-0''" demo_world]
    mem_never_cancels(3)
  by (simp add: metric_defs del: mem_client_simps)

text \<open>C18. Failure with retries left. When the handler fails (it raises, or runs past the timeout) and
  the attempt is not the last one the job allows, nothing is sent to the server, so the entry stays
  pending; the job's attempt count goes up by one and the outbox notes \<open>FAILED\<close> with it.\<close>

theorem execute_retry:
  assumes "failure_of T (h j) = Some e" "attempts (left (h j)) < max_retries (left (h j))"
    and "max_attempts policy \<le> 1024"
  shows "execute R px ns policy u sf T q entry_id j h w =
    (let j' = (left (h j))\<lparr>attempts := attempts (left (h j)) + 1\<rparr>
     in (Inr (), j',
         \<lparr>server = server w,
          store = map_option (\<lambda>db. snd (update_status (jid j') FAILED (Some (attempts j'))
            (snd (update_status (jid j) PROCESSING (Some (attempts j)) db)))) (store w),
          metrics = incr_delivery_attempts ns (kind j') False
            (observe_processing_seconds ns (kind j') (measured (h j)) (metrics w))\<rparr>))"
proof -
  obtain d where "delay policy u (attempts (left (h j))) = Inr d"
    using assms(3) delay_total by blast
  with assms(1,2) show ?thesis
    by (simp add: execute_failed handle_failure_retry on_metrics_def Let_def option.map_comp comp_def)
qed

theorem execute_retry_witness:
  "\<exists>w'. execute mem_client ''relayq'' ''relayq'' default_policy 0 (\<lambda>_. []) 300 ''default'' ''1-0'' sample_job
     slow_handler demo_world = (Inr (), sample_job\<lparr>attempts := 1\<rparr>, w') \<and> server w' = mem_init"
  using execute_retry [of 300 slow_handler sample_job _ default_policy mem_client "''relayq''" "''relayq''"
      0 "\<lambda>_. []" "''default''" "''1-0''" demo_world]
  by (simp add: Let_def default_policy_def)

text \<open>C4. No job is lost on its last attempt. When the handler fails and no retry is left, the
  dead-letter write comes first and the entry is acknowledged only after it succeeded: if the write
  raises, no \<open>XACK\<close> is sent and the entry stays pending; either way the delivery returns normally,
  and the outbox notes \<open>DEAD\<close>.\<close>

theorem execute_buries_before_ack:
  assumes "failure_of T (h j) = Some e" "max_retries (left (h j)) \<le> attempts (left (h j))"
    and "\<And>r. fst (xadd_dlq R px q ((left (h j))\<lparr>attempts := attempts (left (h j)) + 1\<rparr>)
           (exn_name e @ '': '' @ exn_str sf e) r) \<noteq> Inl CancelledError"
    and "\<And>r. fst (xack R px q entry_id r) \<noteq> Inl CancelledError"
  shows "\<exists>j' w'. execute R px ns policy u sf T q entry_id j h w = (Inr (), j', w') \<and>
    j' = (left (h j))\<lparr>attempts := attempts (left (h j)) + 1\<rparr> \<and>
    store w' = map_option (\<lambda>db. snd (update_status (jid j') DEAD None
      (snd (update_status (jid j) PROCESSING (Some (attempts j)) db)))) (store w) \<and>
    (case xadd_dlq R px q j' (exn_name e @ '': '' @ exn_str sf e) (server w) of
       (Inl _, r) \<Rightarrow> server w' = r
     | (Inr _, r) \<Rightarrow> server w' = snd (xack R px q entry_id r))"
proof -
  define j' where "j' = (left (h j))\<lparr>attempts := attempts (left (h j)) + 1\<rparr>"
  define reason where "reason = exn_name e @ '': '' @ exn_str sf e"
  let ?w = "on_metrics (incr_delivery_attempts ns (kind (left (h j))) False) (after_run ns j (h j) w)"
  obtain r1 w1 where bury: "bury R px ns q j' reason entry_id ?w = (r1, w1)" by fastforce
  have ends: "r1 \<noteq> Inl CancelledError \<and> store w1 = store ?w \<and>
     (case xadd_dlq R px q j' reason (server w) of
        (Inl _, r) \<Rightarrow> server w1 = r
      | (Inr _, r) \<Rightarrow> server w1 = snd (xack R px q entry_id r))"
    using bury
  proof (cases rule: bury_cases)
    case (dlq_failed x)
    then show ?thesis using assms(3) [of "server w"] by (auto simp: j'_def reason_def)
  next
    case (ack_failed x i r)
    then show ?thesis using assms(4) [of r] by auto
  next
    case (buried i n r)
    then show ?thesis by auto
  qed
  then have "swallow (bury R px ns q j' reason entry_id) ?w = (Inr (), w1)"
    using bury by (cases r1) (auto simp: swallow_def is_exception_def)
  then have "execute R px ns policy u sf T q entry_id j h w =
      (Inr (), j', snd (note_status (jid j') DEAD None w1))"
    using handle_failure_dead [OF assms(2), of R px ns q e sf entry_id "after_run ns j (h j) w" "Inr ()" w1]
    by (simp add: execute_failed [where j = j and h = h, OF assms(1)] j'_def reason_def)
  moreover have "store (snd (note_status (jid j') DEAD None w1)) =
      map_option (\<lambda>db. snd (update_status (jid j') DEAD None
        (snd (update_status (jid j) PROCESSING (Some (attempts j)) db)))) (store w)"
    using ends by (simp add: note_status_eq option.map_comp comp_def)
  ultimately show ?thesis
    unfolding reason_def [symmetric] j'_def [symmetric] using ends
    by (intro exI [of _ j'] exI [of _ "snd (note_status (jid j') DEAD None w1)"] conjI)
       (simp_all split: prod.splits sum.splits)
qed

theorem execute_buries_before_ack_witness:
  "\<exists>w' i r. execute mem_client ''relayq'' ''relayq'' default_policy 0 (\<lambda>_. []) 300 ''default'' ''1-0''
      (sample_job\<lparr>attempts := 3\<rparr>) bad_handler demo_world =
      (Inr (), sample_job\<lparr>attempts := 4\<rparr>, w') \<and>
    xadd_dlq mem_client ''relayq'' ''default'' (sample_job\<lparr>attempts := 4\<rparr>) ''ValueError: boom'' mem_init =
      (Inr i, r) \<and>
    server w' = snd (xack mem_client ''relayq'' ''default'' ''1-0'' r)"
proof -
  let ?j = "sample_job\<lparr>attempts := 3\<rparr>" and ?j' = "sample_job\<lparr>attempts := 4\<rparr>"
  have "wf_job ?j'" by (simp add: wf_job_def)
  then obtain body where body: "job_text ?j' = Inr body" using job_text_Inr by blast
  obtain i r where dlq: "xadd_dlq mem_client ''relayq'' ''default'' ?j' ''ValueError: boom'' mem_init = (Inr i, r)"
    by (simp add: xadd_dlq_def io_bind_def body)
  have fails: "failure_of 300 (bad_handler ?j) = Some (HandlerError ''ValueError'' ''boom'')"
    by simp
  have last: "max_retries (left (bad_handler ?j)) \<le> attempts (left (bad_handler ?j))" by simp
  from execute_buries_before_ack [where h = bad_handler and j = ?j and R = mem_client
      and px = "''relayq''" and ns = "''relayq''" and policy = default_policy and u = 0 and sf = "\<lambda>_. []"
      and q = "''default''" and entry_id = "''1-0''" and w = demo_world,
      OF fails last mem_never_cancels(4) mem_never_cancels(3)]
  obtain w' where "execute mem_client ''relayq'' ''relayq'' default_policy 0 (\<lambda>_. []) 300 ''default'' ''1-0'' ?j
      bad_handler demo_world = (Inr (), ?j', w')"
    "server w' = snd (xack mem_client ''relayq'' ''default'' ''1-0'' r)"
    by (auto simp: dlq)
  with dlq show ?thesis by blast
qed

text \<open>C21. A delivery never raises into the worker: whatever the handler does short of being
  cancelled, and whatever the server and the database raise, \<open>execute\<close> returns None.\<close>

theorem execute_total:
  assumes "timed T (h j) \<noteq> Inl CancelledError" "max_attempts policy \<le> 1024"
    and "\<And>k kvs m a r. fst (rc_xadd R k kvs m a r) \<noteq> Inl CancelledError"
    and "\<And>s g i r. fst (rc_xack R s g i r) \<noteq> Inl CancelledError"
  shows "fst (execute R px ns policy u sf T q entry_id j h w) = Inr ()"
proof -
  have ack: "fst (xack R px q entry_id r) \<noteq> Inl CancelledError" for r
    using assms(4) by (simp add: xack_def)
  have dlq: "fst (xadd_dlq R px q j' reason r) \<noteq> Inl CancelledError" for j' reason r
    using assms(3)
    by (auto simp: xadd_dlq_def io_bind_def job_text_def to_dict_def status_attr_def py_dumps_def
      split: status_field.split)
  consider (ok) "timed T (h j) = Inr ()" | (failed) e where "failure_of T (h j) = Some e"
  proof (cases "timed T (h j)")
    case (Inl e)
    then show ?thesis using assms(1) that(2) by (cases e) (auto simp: failure_of_def is_exception_def)
  next
    case (Inr u)
    then show ?thesis using that(1) by simp
  qed
  then show ?thesis
  proof cases
    case ok
    obtain r s where run: "xack R px q entry_id (server w) = (r, s)" by fastforce
    with ack [of "server w"] have "r \<noteq> Inl CancelledError" by simp
    with ok run show ?thesis
      by (cases r) (auto simp: execute_succeeded io_bind_def swallow_def on_server_def note_status_eq
        noted_eq is_exception_def)
  next
    case (failed e)
    show ?thesis
    proof (cases "max_retries (left (h j)) \<le> attempts (left (h j))")
      case True
      let ?j = "(left (h j))\<lparr>attempts := attempts (left (h j)) + 1\<rparr>"
      let ?m = "bury R px ns q ?j (exn_name e @ '': '' @ exn_str sf e) entry_id"
      let ?w = "on_metrics (incr_delivery_attempts ns (kind (left (h j))) False) (after_run ns j (h j) w)"
      obtain r1 w1 where bury: "swallow ?m ?w = (r1, w1)" by fastforce
      then have "r1 = Inr ()"
      proof (cases rule: swallow_cases)
        case (cancelled x)
        from cancelled(1) show ?thesis
          by (cases rule: bury_cases) (use cancelled(3) dlq ack in \<open>auto simp: is_exception_def\<close>, metis fst_conv)+
      qed
      with handle_failure_dead [OF True bury] show ?thesis by (simp add: execute_failed failed)
    next
      case False
      obtain d where "delay policy u (attempts (left (h j))) = Inr d"
        using delay_total assms(2) by blast
      with False show ?thesis by (simp add: execute_failed failed handle_failure_retry)
    qed
  qed
qed

theorem execute_total_witness:
  "fst (execute mem_client ''relayq'' ''relayq'' default_policy 0 (\<lambda>_. []) 300 ''default'' ''1-0''
      (sample_job\<lparr>attempts := 3\<rparr>) bad_handler demo_world) = Inr ()"
  by (rule execute_total) (use mem_never_cancels(1,2) in \<open>simp_all add: default_policy_def\<close>)

text \<open>C22. Retries never run out. The attempt count of a stream entry is the one it was added with: a
  failed delivery counts on the decoded copy only. So an entry whose job was added with retries
  left is neither acknowledged nor written to the dead letters, however often it is delivered and
  fails: nothing at all is sent to the server.\<close>

theorem redelivery_never_exhausts:
  assumes "carries e (fst e, j)" "attempts j < max_retries j"
    and "\<forall>h\<in>set hs. failure_of T (h j) \<noteq> None \<and> attempts (left (h j)) = attempts j \<and>
      max_retries (left (h j)) = max_retries j"
  shows "server (redeliver R px ns policy u sf T now q e hs w) = server w"
  using assms(3)
proof (induction hs arbitrary: w)
  case (Cons h hs)
  obtain res j' w' where run: "execute R px ns policy u sf T q (fst e) j h w = (res, j', w')"
    by (metis prod_cases3)
  moreover obtain x where "failure_of T (h j) = Some x" using Cons.prems by auto
  ultimately have "server w' = server w"
    using execute_retry_server Cons.prems assms(2) by (metis list.set_intros(1))
  with run Cons show ?case by (simp add: decode_entry_carries [OF assms(1)])
qed simp

theorem redelivery_never_exhausts_witness:
  "server (redeliver mem_client ''relayq'' ''relayq'' default_policy 0 (\<lambda>_. []) 300 base_time ''default'' sample_entry
     (replicate 100 bad_handler) demo_world) = mem_init"
proof -
  have "carries sample_entry (fst sample_entry, sample_job)"
    using sample_entry_carries by (simp add: sample_entry_def)
  then have "server (redeliver mem_client ''relayq'' ''relayq'' default_policy 0 (\<lambda>_. []) 300 base_time ''default''
      sample_entry (replicate 100 bad_handler) demo_world) = server demo_world"
    by (rule redelivery_never_exhausts) simp_all
  then show ?thesis by (simp only: demo_world_simps)
qed

end
