(* ===== verification/ExecuteSteps.thy ===== *)
theory ExecuteSteps
  imports Execute
begin

text \<open>
  \<open>Executor.execute\<close> cut at its awaits. Between two awaits the coroutine runs undisturbed; at an
  await other tasks of the worker run. \<open>exec_step\<close> is one such piece: it starts where the last await
  returned and ends at the next one, or at the end of the call. The awaits are the handler's call
  and the commands sent to the server, each of which takes effect on the server at one moment.
  Run without interruption, the pieces are \<open>execute\<close>.
\<close>

section \<open>The executor and its stages\<close>

record 'r executor =
  ex_redis :: "'r redis"
  ex_prefix :: string
  ex_ns :: string
  ex_policy :: retry_policy
  ex_show :: "rat \<Rightarrow> string"
  ex_timeout :: rat

text \<open>\<open>Executor(...)\<close>: without a retry policy, the default one.\<close>

definition new_executor ::
    "'r redis \<Rightarrow> string \<Rightarrow> string \<Rightarrow> retry_policy option \<Rightarrow> (rat \<Rightarrow> string) \<Rightarrow> rat \<Rightarrow> 'r executor" where
  "new_executor R px ns policy show_float timeout =
     \<lparr>ex_redis = R, ex_prefix = px, ex_ns = ns,
      ex_policy = (case policy of None \<Rightarrow> default_policy | Some p \<Rightarrow> p),
      ex_show = show_float, ex_timeout = timeout\<rparr>"

text \<open>
  Where a call is: not begun, awaiting the handler, the acknowledgement of a success, the dead-letter
  write with its reason, the acknowledgement after it, or ended with a result.
\<close>

datatype stage = Begin | Handling | Acking | Burying string | Releasing | Ended "exn + unit"

section \<open>The pieces\<close>

text \<open>The part of \<open>_handle_failure\<close> up to its first await.\<close>

definition fail_step ::
    "'r executor \<Rightarrow> rat \<Rightarrow> job \<Rightarrow> exn \<Rightarrow> 'r world \<Rightarrow> (stage \<times> job) \<times> 'r world" where
  "fail_step x u j e w =
     (let j = j\<lparr>attempts := attempts j + 1\<rparr>;
          w = on_metrics (incr_delivery_attempts (ex_ns x) (kind j) False) w
      in if should_dlq j then ((Burying (exn_name e @ '': '' @ exn_str (ex_show x) e), j), w)
         else (case delay (ex_policy x) u (attempts j - 1) of
             Inl e \<Rightarrow> ((Ended (Inl e), j), w)
           | Inr _ \<Rightarrow> (case note_status (jid j) FAILED (Some (attempts j)) w of
               (res, w) \<Rightarrow> ((Ended res, j), w))))"

text \<open>The end of the dead-letter branch: the outbox note, after the guarded block.\<close>

definition note_dead :: "job \<Rightarrow> 'r world \<Rightarrow> (stage \<times> job) \<times> 'r world" where
  "note_dead j w = (case note_status (jid j) DEAD None w of (res, w) \<Rightarrow> ((Ended res, j), w))"

fun exec_step ::
    "'r executor \<Rightarrow> string \<Rightarrow> string \<Rightarrow> rat \<Rightarrow> handler \<Rightarrow> stage \<times> job \<Rightarrow> 'r world \<Rightarrow>
     (stage \<times> job) \<times> 'r world" where
  "exec_step x q entry_id u h (Begin, j) w =
     (case note_status (jid j) PROCESSING (Some (attempts j)) w of
        (Inl e, w) \<Rightarrow> ((Ended (Inl e), j), w)
      | (Inr _, w) \<Rightarrow> ((Handling, j), w))"
| "exec_step x q entry_id u h (Handling, j) w =
     (let run = h j; j = left run;
          observed = on_metrics (observe_processing_seconds (ex_ns x) (kind j) (measured run)) w
      in case timed (ex_timeout x) run of
           Inl TimeoutError \<Rightarrow> fail_step x u j (JobTimeout (jid j) (ex_timeout x)) observed
         | Inl e \<Rightarrow> if is_exception e then fail_step x u j e observed else ((Ended (Inl e), j), w)
         | Inr _ \<Rightarrow> ((Acking, j), observed))"
| "exec_step x q entry_id u h (Acking, j) w =
     (case swallow (io_bind (on_server (xack (ex_redis x) (ex_prefix x) q entry_id)) (\<lambda>_. io_ret ())) w of
        (Inl e, w) \<Rightarrow> ((Ended (Inl e), j), w)
      | (Inr _, w) \<Rightarrow> (case note_status (jid j) COMPLETED None w of
          (Inl e, w) \<Rightarrow> ((Ended (Inl e), j), w)
        | (Inr _, w) \<Rightarrow> ((Ended (Inr ()), j), on_metrics (incr_delivery_attempts (ex_ns x) (kind j) True) w)))"
| "exec_step x q entry_id u h (Burying reason, j) w =
     (case on_server (xadd_dlq (ex_redis x) (ex_prefix x) q j reason) w of
        (Inr _, w) \<Rightarrow> ((Releasing, j), w)
      | (Inl e, w) \<Rightarrow> if is_exception e then note_dead j w else ((Ended (Inl e), j), w))"
| "exec_step x q entry_id u h (Releasing, j) w =
     (case on_server (xack (ex_redis x) (ex_prefix x) q entry_id) w of
        (Inr _, w) \<Rightarrow> note_dead j (on_metrics (incr_dead_letter (ex_ns x) (kind j)) w)
      | (Inl e, w) \<Rightarrow> if is_exception e then note_dead j w else ((Ended (Inl e), j), w))"
| "exec_step x q entry_id u h (Ended res, j) w = ((Ended res, j), w)"

text \<open>
  The command a call is awaiting reaching the server: what a cancellation at the await may leave
  behind.
\<close>

fun exec_send :: "'r executor \<Rightarrow> string \<Rightarrow> string \<Rightarrow> stage \<times> job \<Rightarrow> 'r world \<Rightarrow> 'r world" where
  "exec_send x q entry_id (Acking, j) w = snd (on_server (xack (ex_redis x) (ex_prefix x) q entry_id) w)"
| "exec_send x q entry_id (Burying reason, j) w =
     snd (on_server (xadd_dlq (ex_redis x) (ex_prefix x) q j reason) w)"
| "exec_send x q entry_id (Releasing, j) w = snd (on_server (xack (ex_redis x) (ex_prefix x) q entry_id) w)"
| "exec_send x q entry_id _ w = w"

section \<open>An undisturbed run\<close>

fun exec_run ::
    "'r executor \<Rightarrow> string \<Rightarrow> string \<Rightarrow> rat \<Rightarrow> handler \<Rightarrow> nat \<Rightarrow> stage \<times> job \<Rightarrow> 'r world \<Rightarrow>
     (stage \<times> job) \<times> 'r world" where
  "exec_run x q entry_id u h 0 t w = (t, w)"
| "exec_run x q entry_id u h (Suc n) t w =
     (case exec_step x q entry_id u h t w of (t, w) \<Rightarrow> exec_run x q entry_id u h n t w)"

lemma exec_run_ended [simp]: "exec_run x q eid u h n (Ended r, j) w = ((Ended r, j), w)"
  by (induction n) simp_all

lemma note_dead_eq: "note_dead j w = ((Ended (Inr ()), j), snd (note_status (jid j) DEAD None w))"
  by (simp add: note_dead_def note_status_eq)

text \<open>From the failure on, the pieces are \<open>handle_failure\<close>.\<close>

lemma fail_step_run:
  "(case fail_step x u j e w of (t, w) \<Rightarrow> exec_run x q eid u' h (Suc (Suc n)) t w) =
   (case handle_failure (ex_redis x) (ex_prefix x) (ex_ns x) (ex_policy x) u (ex_show x) q eid j e w of
      (res, j, w) \<Rightarrow> ((Ended res, j), w))"
proof -
  let ?j = "j\<lparr>attempts := attempts j + 1\<rparr>"
  let ?w = "on_metrics (incr_delivery_attempts (ex_ns x) (kind j) False) w"
  let ?reason = "exn_name e @ '': '' @ exn_str (ex_show x) e"
  let ?m = "bury (ex_redis x) (ex_prefix x) (ex_ns x) q ?j ?reason eid"
  show ?thesis
  proof (cases "max_retries j \<le> attempts j")
    case False
    then show ?thesis
      by (cases "delay (ex_policy x) u (attempts j)")
         (simp_all add: fail_step_def handle_failure_def should_dlq_def io_bind_def note_status_eq Let_def)
  next
    case True
    obtain r1 s1 where 1: "xadd_dlq (ex_redis x) (ex_prefix x) q ?j ?reason (server w) = (r1, s1)" by fastforce
    obtain r2 s2 where 2: "xack (ex_redis x) (ex_prefix x) q eid s1 = (r2, s2)" by fastforce
    have fail: "fail_step x u j e w = ((Burying ?reason, ?j), ?w)"
      using True by (simp add: fail_step_def should_dlq_def Let_def)
    obtain r w1 where b: "swallow ?m ?w = (r, w1)" by fastforce
    note dead = handle_failure_dead [OF True b, where policy = "ex_policy x" and u = u]
    show ?thesis
      unfolding fail dead using b 1 2
      by (cases r1; cases r2)
         (auto simp: bury_def swallow_def io_bind_def on_server_def noted_def note_dead_eq
           split: if_splits)
  qed
qed

lemma exec_handling:
  "exec_step x q eid u h (Handling, j) w =
     (let observed = on_metrics (observe_processing_seconds (ex_ns x) (kind (left (h j))) (measured (h j))) w
      in case failure_of (ex_timeout x) (h j) of
           Some e \<Rightarrow> fail_step x u (left (h j)) e observed
         | None \<Rightarrow> (case timed (ex_timeout x) (h j) of
             Inr _ \<Rightarrow> ((Acking, left (h j)), observed)
           | Inl e \<Rightarrow> ((Ended (Inl e), left (h j)), w)))"
  by (auto simp: failure_of_def Let_def split: sum.split exn.split)

declare exec_step.simps(2) [simp del]

section \<open>What the pieces keep\<close>

text \<open>Every piece is a composition of guarded server commands, outbox notes and metric calls; so
  what these keep of the server, it keeps.\<close>

lemma note_dead_frame [simp]:
  "server (snd (note_dead j w)) = server w" "metrics (snd (note_dead j w)) = metrics w"
  by (simp_all add: note_dead_eq)

lemma fail_step_server [simp]: "server (snd (fail_step x u j e w)) = server w"
  by (simp add: fail_step_def note_status_eq on_metrics_def Let_def split: sum.split)

lemma exec_step_server:
  "server (snd (exec_step x q eid u h (st, j) w)) = server (exec_send x q eid (st, j) w)"
proof (cases st)
  case Begin
  then show ?thesis by (simp add: note_status_eq)
next
  case Handling
  then show ?thesis by (simp add: exec_handling on_metrics_def Let_def split: sum.split option.split)
next
  case Acking
  obtain r s where "xack (ex_redis x) (ex_prefix x) q eid (server w) = (r, s)" by fastforce
  with Acking show ?thesis
    by (cases r) (simp_all add: swallow_def io_bind_def on_server_def note_status_eq on_metrics_def)
next
  case (Burying reason)
  obtain r s where "xadd_dlq (ex_redis x) (ex_prefix x) q j reason (server w) = (r, s)" by fastforce
  with Burying show ?thesis by (cases r) (simp_all add: on_server_def note_dead_eq)
next
  case Releasing
  obtain r s where "xack (ex_redis x) (ex_prefix x) q eid (server w) = (r, s)" by fastforce
  with Releasing show ?thesis by (cases r) (simp_all add: on_server_def note_dead_eq on_metrics_def)
next
  case (Ended r)
  then show ?thesis by simp
qed

lemma exec_send_frame [simp]:
  "store (exec_send x q eid t w) = store w" "metrics (exec_send x q eid t w) = metrics w"
  by (induction x q eid t w rule: exec_send.induct; simp add: on_server_def split: prod.split)+

section \<open>Properties\<close>

text \<open>C8. The pieces are the call. Run one after the other without a task between them, from the
  beginning, at most five pieces of \<open>execute\<close> end it with the result, the job object and the world
  that \<open>execute\<close> as a whole gives, whatever the handler does and whatever the server answers.\<close>

theorem exec_run_execute:
  "exec_run x q entry_id u h 5 (Begin, j) w =
     (case execute (ex_redis x) (ex_prefix x) (ex_ns x) (ex_policy x) u (ex_show x) (ex_timeout x)
             q entry_id j h w of (res, j, w) \<Rightarrow> ((Ended res, j), w))"
proof -
  let ?begun = "snd (note_status (jid j) PROCESSING (Some (attempts j)) w)"
  let ?w = "after_run (ex_ns x) j (h j) w"
  have run: "exec_run x q entry_id u h 5 (Begin, j) w =
      (case exec_step x q entry_id u h (Handling, j) ?begun of
         (t, w) \<Rightarrow> exec_run x q entry_id u h (Suc (Suc (Suc 0))) t w)"
    by (simp add: note_status_eq numeral_eq_Suc del: exec_step.simps(2) split: prod.split)
  show ?thesis
  proof (cases "failure_of (ex_timeout x) (h j)")
    case (Some e)
    then have "exec_step x q entry_id u h (Handling, j) ?begun = fail_step x u (left (h j)) e ?w"
      by (simp add: exec_handling after_run_def)
    with run fail_step_run show ?thesis by (simp only: execute_failed [where h = h and j = j, OF Some])
  next
    case None
    show ?thesis
    proof (cases "timed (ex_timeout x) (h j)")
      case (Inl e)
      with None have "e = CancelledError" by (cases e) (auto simp: failure_of_def is_exception_def)
      with Inl None run show ?thesis by (simp add: exec_handling execute_def note_status_eq Let_def)
    next
      case (Inr v)
      have "exec_step x q entry_id u h (Handling, j) ?begun = ((Acking, left (h j)), ?w)"
        using Inr None by (simp add: exec_handling after_run_def)
      moreover obtain r s where "xack (ex_redis x) (ex_prefix x) q entry_id (server ?w) = (r, s)" by fastforce
      ultimately show ?thesis
        using run Inr by (cases r) (auto simp: execute_succeeded swallow_def io_bind_def on_server_def note_status_eq noted_eq)
    qed
  qed
qed

end
