(* ===== verification/Admission.thy ===== *)
theory Admission
  imports Enqueue
begin

text \<open>
  \<open>relayq/worker/admission.py\<close>: the depth check a worker makes before it polls. The age limit the
  constructor also takes is used by no method.
\<close>

record admission =
  ad_depth :: int
  ad_oldest :: rat

text \<open>\<open>AdmissionController(...)\<close> with its defaults.\<close>

definition new_admission :: "int option \<Rightarrow> rat option \<Rightarrow> admission" where
  "new_admission depth oldest =
     \<lparr>ad_depth = (case depth of None \<Rightarrow> 5000 | Some d \<Rightarrow> d),
      ad_oldest = (case oldest of None \<Rightarrow> 300 | Some t \<Rightarrow> t)\<rparr>"

definition depth_reason :: "int \<Rightarrow> int \<Rightarrow> string" where
  "depth_reason depth max_depth = ''depth '' @ int_str depth @ '' >= '' @ int_str max_depth"

definition check :: "'r redis \<Rightarrow> string \<Rightarrow> int \<Rightarrow> string \<Rightarrow> ('r, exn, unit) io" where
  "check R px max_depth q =
     io_bind (stream_length R px q) (\<lambda>depth.
       if max_depth \<le> depth then io_raise (AdmissionBlocked q (depth_reason depth max_depth))
       else io_ret ())"

definition is_healthy :: "'r redis \<Rightarrow> string \<Rightarrow> int \<Rightarrow> string \<Rightarrow> ('r, exn, bool) io" where
  "is_healthy R px max_depth q r =
     (case check R px max_depth q r of
        (Inr _, r) \<Rightarrow> (Inr True, r)
      | (Inl (AdmissionBlocked _ _), r) \<Rightarrow> (Inr False, r)
      | (Inl e, r) \<Rightarrow> (Inl e, r))"

lemma check_server: "snd (check R px max_depth q r) = snd (stream_length R px q r)"
  by (auto simp: check_def io_bind_def split: prod.split sum.split)

lemma check_blocked:
  "stream_length R px q r = (Inr depth, r') \<Longrightarrow> max_depth \<le> depth \<Longrightarrow>
   check R px max_depth q r = (Inl (AdmissionBlocked q (depth_reason depth max_depth)), r')"
  by (simp add: check_def io_bind_def)

lemma check_open:
  "stream_length R px q r = (Inr depth, r') \<Longrightarrow> depth < max_depth \<Longrightarrow>
   check R px max_depth q r = (Inr (), r')"
  by (simp add: check_def io_bind_def)

text \<open>The health check answers exactly whether the stream is shorter than the limit, and raises
  only what the length query raises; the check before it names the queue and both numbers.\<close>

theorem is_healthy_iff:
  assumes "stream_length R px q r = (Inr depth, r')"
  shows "is_healthy R px max_depth q r = (Inr (depth < max_depth), r') \<and>
    (depth < max_depth \<or>
     check R px max_depth q r = (Inl (AdmissionBlocked q (depth_reason depth max_depth)), r'))"
  using assms check_blocked [OF assms] check_open [OF assms]
  by (cases "depth < max_depth") (simp_all add: is_healthy_def)

theorem is_healthy_iff_witness:
  "is_healthy mem_client ''relayq'' 1 ''q'' (mem_with ''q'' [sample_entry]) =
     (Inr False, mem_with ''q'' [sample_entry])"
proof -
  have "stream_length mem_client ''relayq'' ''q'' (mem_with ''q'' [sample_entry]) =
      (Inr 1, mem_with ''q'' [sample_entry])"
    by (simp add: stream_length_def mem_with_def)
  from is_healthy_iff [OF this, of 1] show ?thesis by simp
qed

end
