(* ===== verification/Recover.thy ===== *)
theory Recover
  imports Execute
begin

text \<open>
  \<open>relayq/application/recover.py\<close>: the recovery worker. A round claims the stale entries of every
  queue; what is claimed is only logged, so a claim's result is unit. The loop sets the flag
  \<open>_running\<close> and runs rounds until \<open>stop\<close> clears it. The flag is read between two rounds only, so
  the rounds observed are given as a list that says of each whether another task calls \<open>stop\<close> while
  it, or the sleep after it, lasts; the sleep itself has no effect of the model. An exception that is
  no \<open>Exception\<close> (the task is cancelled) leaves the loop.
\<close>

definition claim_interval :: rat where
  "claim_interval = 15"

record recovery =
  rec_worker :: string
  rec_min_idle :: int
  rec_batch :: int
  rec_running :: bool

definition default_recovery :: "string \<Rightarrow> recovery" where
  "default_recovery worker_id = \<lparr>rec_worker = worker_id, rec_min_idle = 30000, rec_batch = 10,
     rec_running = False\<rparr>"

definition claim_stale ::
    "'r redis \<Rightarrow> string \<Rightarrow> py_datetime \<Rightarrow> recovery \<Rightarrow> string \<Rightarrow> ('r, exn, unit) io" where
  "claim_stale R px now rc q =
     io_bind (autoclaim_stale R px now q (rec_worker rc) (rec_min_idle rc) (rec_batch rc))
       (\<lambda>claimed. io_ret ())"

fun recover_round ::
    "'r redis \<Rightarrow> string \<Rightarrow> py_datetime \<Rightarrow> recovery \<Rightarrow> string list \<Rightarrow> ('r, exn, unit) io" where
  "recover_round R px now rc [] = io_ret ()"
| "recover_round R px now rc (q # qs) =
     io_bind (swallow (claim_stale R px now rc q)) (\<lambda>_. recover_round R px now rc qs)"

definition stop_recovery :: "recovery \<Rightarrow> recovery" where
  "stop_recovery rc = rc\<lparr>rec_running := False\<rparr>"

fun recover_rounds ::
    "'r redis \<Rightarrow> string \<Rightarrow> py_datetime \<Rightarrow> recovery \<Rightarrow> string list \<Rightarrow> bool list \<Rightarrow>
     ('r, exn, recovery) io" where
  "recover_rounds R px now rc qs [] = io_ret rc"
| "recover_rounds R px now rc qs (stopped # calls) =
     (if rec_running rc
      then io_bind (recover_round R px now rc qs)
        (\<lambda>_. recover_rounds R px now (if stopped then stop_recovery rc else rc) qs calls)
      else io_ret rc)"

definition recover_loop ::
    "'r redis \<Rightarrow> string \<Rightarrow> py_datetime \<Rightarrow> recovery \<Rightarrow> string list \<Rightarrow> bool list \<Rightarrow>
     ('r, exn, recovery) io" where
  "recover_loop R px now rc qs calls =
     recover_rounds R px now (rc\<lparr>rec_running := True\<rparr>) qs calls"

definition rounds_until_stop :: "bool list \<Rightarrow> nat" where
  "rounds_until_stop calls = min (length calls) (Suc (length (takeWhile Not calls)))"

section \<open>What decoding can raise\<close>

definition no_cancel :: "exn + 'a \<Rightarrow> bool" where
  "no_cancel m \<longleftrightarrow> m \<noteq> Inl CancelledError"

lemma no_cancel_basic [simp]:
  "no_cancel (Inr a)" "no_cancel (Inl e) \<longleftrightarrow> is_exception e"
  by (simp_all add: no_cancel_def is_exception_def)

lemma no_cancel_bind [intro]: "no_cancel m \<Longrightarrow> (\<And>a. no_cancel (f a)) \<Longrightarrow> no_cancel (res_bind m f)"
  by (cases m) auto

lemma no_cancel_getters [simp, intro]:
  "no_cancel (get_str d k x)" "no_cancel (get_int d k i)" "no_cancel (get_opt d k)"
  "no_cancel (item_str d k)" "no_cancel (get_status d)" "no_cancel (get_created now d)"
  "no_cancel (text_of v)" "no_cancel (py_loads s)"
  by (simp_all add: getters status_of_def text_of_def py_loads_def
    split: option.split json.split rtext.split)

lemma no_cancel_from_dict [simp, intro]: "no_cancel (from_dict now v)"
  by (cases v) (auto simp: from_dict_def intro!: no_cancel_bind)

lemma no_cancel_decode_entry [simp, intro]: "no_cancel (decode_entry now fs)"
proof -
  have "no_cancel (parse_job now raw)" for raw
    unfolding parse_job_def by (intro no_cancel_bind no_cancel_getters no_cancel_from_dict)
  then have "parse_job now raw = Inl e \<Longrightarrow> is_exception e" for raw e
    by (metis no_cancel_basic(2))
  then show ?thesis
    by (auto simp: decode_entry_def intro!: no_cancel_bind split: option.split sum.split)
qed

lemma no_cancel_decode_entries [simp, intro]: "no_cancel (decode_entries now name es)"
proof (induction es)
  case (Cons e es)
  then show ?case by (cases e) (auto intro!: no_cancel_bind split: option.split)
qed simp

section \<open>Rounds\<close>

lemma claim_stale_server:
  "snd (claim_stale R px now rc q r) =
   snd (rc_xautoclaim R (stream_key px q) (group_key px q) (consumer_name (rec_worker rc))
     (rec_min_idle rc) ''0-0'' (rec_batch rc) r)"
  by (auto simp: claim_stale_def autoclaim_stale_def io_bind_def split: prod.split sum.split option.split)

lemma claim_stale_no_cancel:
  assumes "no_cancel (fst (rc_xautoclaim R (stream_key px q) (group_key px q)
      (consumer_name (rec_worker rc)) (rec_min_idle rc) ''0-0'' (rec_batch rc) r))"
  shows "no_cancel (fst (claim_stale R px now rc q r))"
proof -
  obtain m r' where "rc_xautoclaim R (stream_key px q) (group_key px q)
      (consumer_name (rec_worker rc)) (rec_min_idle rc) ''0-0'' (rec_batch rc) r = (m, r')"
    by fastforce
  moreover have "no_cancel (fst (case d of Inl e \<Rightarrow> (Inl e, r') | Inr a \<Rightarrow> io_ret () r'))"
    if "no_cancel d" for d :: "exn + (string \<times> string \<times> job) list"
    using that by (cases d) simp_all
  ultimately show ?thesis
    using assms by (cases m) (auto simp: claim_stale_def autoclaim_stale_def io_bind_def split: option.split)
qed

lemma recover_round_eq:
  assumes "\<And>q r. no_cancel (fst (claim_stale R px now rc q r))"
  shows "recover_round R px now rc qs r =
    (Inr (), fold (\<lambda>q r. snd (claim_stale R px now rc q r)) qs r)"
proof (induction qs arbitrary: r)
  case (Cons q qs)
  obtain m r' where m: "claim_stale R px now rc q r = (m, r')" by fastforce
  with assms [of q r] have "swallow (claim_stale R px now rc q) r = (Inr (), r')"
    by (cases m) (simp_all add: swallow_def)
  with Cons m show ?case by (simp add: io_bind_def)
qed simp

definition claim_all ::
    "'r redis \<Rightarrow> string \<Rightarrow> recovery \<Rightarrow> string list \<Rightarrow> 'r \<Rightarrow> 'r" where
  "claim_all R px rc qs r =
     fold (\<lambda>q r. snd (rc_xautoclaim R (stream_key px q) (group_key px q)
       (consumer_name (rec_worker rc)) (rec_min_idle rc) ''0-0'' (rec_batch rc) r)) qs r"

lemma recover_round_claims:
  assumes "\<And>s g c i st n r. no_cancel (fst (rc_xautoclaim R s g c i st n r))"
  shows "recover_round R px now rc qs r = (Inr (), claim_all R px rc qs r)"
proof -
  have "recover_round R px now rc qs r =
      (Inr (), fold (\<lambda>q r. snd (claim_stale R px now rc q r)) qs r)"
    by (rule recover_round_eq) (simp add: claim_stale_no_cancel assms)
  then show ?thesis by (simp add: claim_all_def claim_stale_server)
qed

lemma recover_rounds_stopped [simp]:
  "\<not> rec_running rc \<Longrightarrow> recover_rounds R px now rc qs calls r = (Inr rc, r)"
  by (cases calls) simp_all

lemma rounds_until_stop_simps [simp]:
  "rounds_until_stop [] = 0"
  "rounds_until_stop (True # calls) = 1"
  "rounds_until_stop (False # calls) = Suc (rounds_until_stop calls)"
  by (simp_all add: rounds_until_stop_def)

lemma recover_rounds_claims:
  assumes "\<And>s g c i st n r. no_cancel (fst (rc_xautoclaim R s g c i st n r))" "rec_running rc"
  shows "recover_rounds R px now rc qs calls r =
    (Inr (if True \<in> set calls then stop_recovery rc else rc),
     (claim_all R px rc qs ^^ rounds_until_stop calls) r)"
  using assms(2)
proof (induction calls arbitrary: r)
  case (Cons stopped calls)
  have round: "recover_round R px now rc qs r = (Inr (), claim_all R px rc qs r)"
    by (rule recover_round_claims) (rule assms(1))
  show ?case
  proof (cases stopped)
    case True
    with Cons.prems round show ?thesis by (simp add: io_bind_def stop_recovery_def)
  next
    case False
    with Cons round show ?thesis by (simp add: io_bind_def funpow_swap1)
  qed
qed simp

text \<open>C39. One queue's failure does not stop recovery, and only \<open>stop\<close> does: unless the client cancels
  the task, every round of the loop claims on every queue, in the order given, whatever the claims of
  the other queues raised (a server error, an entry that does not decode); the loop itself raises
  nothing; it makes every round up to the one in which \<open>stop\<close> is first called, finishes that one, and
  makes none after it. Whether \<open>stop\<close> was called before the loop began makes no difference.\<close>

theorem recover_loop_isolates:
  assumes "\<And>s g c i st n r. no_cancel (fst (rc_xautoclaim R s g c i st n r))"
  shows "recover_loop R px now rc qs calls r =
    (Inr (rc\<lparr>rec_running := True \<notin> set calls\<rparr>),
     (claim_all R px rc qs ^^ rounds_until_stop calls) r)"
proof -
  have "claim_all R px (rc\<lparr>rec_running := True\<rparr>) qs = claim_all R px rc qs"
    by (simp add: claim_all_def fun_eq_iff)
  then show ?thesis
    using recover_rounds_claims [OF assms, of "rc\<lparr>rec_running := True\<rparr>" px now qs calls r]
    by (simp add: recover_loop_def stop_recovery_def)
qed

theorem recover_loop_isolates_witness:
  "fst (recover_loop mem_client ''relayq'' base_time (default_recovery ''w'') [''a'', ''b'']
     [False, True, False] mem_init) = Inr (default_recovery ''w'')"
proof -
  have "no_cancel (fst (rc_xautoclaim mem_client s g c i st n r))" for s g c i st n r
    by simp
  then show ?thesis by (subst recover_loop_isolates) (simp_all add: default_recovery_def)
qed

end
