(* ===== verification/Worker.thy ===== *)
theory Worker
  imports Admission Recover ExecuteSteps Runs Bags
begin

text \<open>
  \<open>relayq/worker/runner.py\<close> and \<open>relayq/worker/shutdown.py\<close>: the worker loop, its job tasks and the
  drain at shutdown, as one step relation. A step runs from one \<open>await\<close> of the loop to the next, or
  from one \<open>await\<close> of a job task to the next (\<open>exec_step\<close>), or is one callback of the event loop;
  steps of the loop and of the tasks interleave freely.

  What the environment decides is left open in each step: the clock reading, the random draw of a
  backoff, how the handler's call ends (a task cancelled while its handler runs is one whose call
  ends with \<open>CancelledError\<close>), when shutdown is requested, when the loop's own task is cancelled, when the
  drain's timeout passes.
\<close>

section \<open>State\<close>

text \<open>Where the loop is: at its condition, before the admission check, before the poll, in the
  \<open>for\<close> over the jobs read (with those not started yet), in the first or the second wait of
  \<open>drain\<close>, or returned.\<close>

type_synonym delivery = "string \<times> string \<times> job"

datatype phase = Top | Admit | Poll | Spawn "delivery list" | Drain | Cancelling | Stopped

record 'r worker_config =
  wc_redis :: "'r redis"
  wc_prefix :: string
  wc_ns :: string
  wc_policy :: retry_policy
  wc_show :: "rat \<Rightarrow> string"
  wc_job_timeout :: rat
  wc_queue :: string
  wc_worker :: string
  wc_admission :: "admission option"
  wc_recovery :: "recovery option"
  wc_concurrency :: nat
  wc_poll_timeout :: int
  wc_poll_batch :: int

text \<open>A job task: what it was created for, the \<open>Job\<close> object as it is now, and where its call of
  \<open>execute\<close> is.\<close>

record task =
  t_delivery :: delivery
  t_job :: job
  t_stage :: stage

text \<open>
  \<open>tasks\<close> holds the tasks whose coroutine has not ended, \<open>ended\<close> those that ended and whose done
  callback has not run yet; \<open>_inflight\<close> is both together.
\<close>

record 'r worker =
  phase :: phase
  world :: "'r world"
  permits :: nat
  tasks :: "task list"
  ended :: "delivery list"
  stopping :: bool

definition running :: "'r worker \<Rightarrow> delivery list" where
  "running s = map t_delivery (tasks s)"

definition inflight :: "'r worker \<Rightarrow> int" where
  "inflight s = int (length (running s) + length (ended s))"

text \<open>The start of \<open>run\<close>: the group is created, or its error escapes.\<close>

definition start_worker :: "'r worker_config \<Rightarrow> 'r world \<Rightarrow> exn + 'r worker" where
  "start_worker c w =
     (case on_server (ensure_group (wc_redis c) (wc_prefix c) (wc_queue c)) w of
        (Inl e, _) \<Rightarrow> Inl e
      | (Inr _, w) \<Rightarrow> Inr \<lparr>phase = Top, world = w, permits = wc_concurrency c, tasks = [],
          ended = [], stopping = False\<rparr>)"

text \<open>\<open>run_worker.py\<close>: the worker of the Docker image and its handler, which does nothing. It has no
  admission controller, no recovery worker and no store.\<close>

definition docker_config :: "'r redis \<Rightarrow> (rat \<Rightarrow> string) \<Rightarrow> 'r worker_config" where
  "docker_config R show_float = \<lparr>wc_redis = R, wc_prefix = ''relayq'', wc_ns = ''relayq'',
     wc_policy = default_policy, wc_show = show_float, wc_job_timeout = 300, wc_queue = ''default'',
     wc_worker = ''docker-worker'', wc_admission = None, wc_recovery = None, wc_concurrency = 10,
     wc_poll_timeout = 2000, wc_poll_batch = 1\<rparr>"

definition docker_handler :: "rat \<Rightarrow> rat \<Rightarrow> handler" where
  "docker_handler length_s seconds j = \<lparr>ran_for = length_s, measured = seconds, outcome = Inr (), left = j\<rparr>"

section \<open>The operations between two awaits\<close>

definition admit :: "'r worker_config \<Rightarrow> ('r world, exn, unit) io" where
  "admit c = (case wc_admission c of
     None \<Rightarrow> io_ret ()
   | Some a \<Rightarrow> on_server (check (wc_redis c) (wc_prefix c) (ad_depth a) (wc_queue c)))"

definition poll :: "'r worker_config \<Rightarrow> py_datetime \<Rightarrow> ('r world, exn, delivery list) io" where
  "poll c now = on_server (read_group (wc_redis c) (wc_prefix c) now (wc_queue c) (wc_worker c)
     (wc_poll_batch c) (wc_poll_timeout c))"

definition gauge :: "'r worker_config \<Rightarrow> 'r worker \<Rightarrow> 'r worker" where
  "gauge c s = s\<lparr>world := on_metrics (observe_worker_inflight (wc_ns c) (wc_queue c) (inflight s)) (world s)\<rparr>"

text \<open>\<open>acquire\<close>, \<open>create_task\<close>, \<open>_inflight.add\<close>, gauge.\<close>

definition new_task :: "delivery \<Rightarrow> task" where
  "new_task d = \<lparr>t_delivery = d, t_job = snd (snd d), t_stage = Begin\<rparr>"

definition spawn :: "'r worker_config \<Rightarrow> delivery \<Rightarrow> delivery list \<Rightarrow> 'r worker \<Rightarrow> 'r worker" where
  "spawn c d rest s =
     gauge c (s\<lparr>phase := Spawn rest, permits := permits s - 1, tasks := tasks s @ [new_task d]\<rparr>)"

text \<open>\<open>_process_job\<close> up to its next await: the call of \<open>execute\<close> goes on. When that has ended, its
  \<open>finally\<close> releases the permit and sets the gauge while the task is still in \<open>_inflight\<close>. Every
  exception but \<open>CancelledError\<close> is logged; that one ends the task.\<close>

definition executor_of :: "'r worker_config \<Rightarrow> 'r executor" where
  "executor_of c = new_executor (wc_redis c) (wc_prefix c) (wc_ns c) (Some (wc_policy c)) (wc_show c)
     (wc_job_timeout c)"

definition over :: "task \<Rightarrow> bool" where
  "over t = (case t_stage t of Ended _ \<Rightarrow> True | _ \<Rightarrow> False)"

definition go_on :: "'r worker_config \<Rightarrow> rat \<Rightarrow> handler \<Rightarrow> task \<Rightarrow> 'r world \<Rightarrow> task \<times> 'r world" where
  "go_on c u h t w =
     (case exec_step (executor_of c) (wc_queue c) (fst (snd (t_delivery t))) u h (t_stage t, t_job t) w of
        ((st, j), w) \<Rightarrow> (t\<lparr>t_job := j, t_stage := st\<rparr>, w))"

definition finish_task :: "'r worker_config \<Rightarrow> nat \<Rightarrow> 'r world \<Rightarrow> 'r worker \<Rightarrow> 'r worker" where
  "finish_task c i w s =
     gauge c (s\<lparr>world := w, permits := permits s + 1, tasks := drop_nth i (tasks s),
       ended := ended s @ [t_delivery (tasks s ! i)]\<rparr>)"

definition process_job ::
    "'r worker_config \<Rightarrow> rat \<Rightarrow> handler \<Rightarrow> nat \<Rightarrow> 'r worker \<Rightarrow> 'r worker" where
  "process_job c u h i s =
     (case go_on c u h (tasks s ! i) (world s) of
        (t, w) \<Rightarrow> if over t then finish_task c i w s
                 else s\<lparr>world := w, tasks := (tasks s)[i := t]\<rparr>)"

text \<open>Cancelled at an await of a command, the call raises \<open>CancelledError\<close> there, and the command may
  or may not have reached the server. A task that has not begun is not among those cancelled: it is
  scheduled when it is created, and the cancellation of a task comes in a later pass of the event
  loop, from the drain's second round or after the worker has returned.\<close>

definition sent_by :: "'r worker_config \<Rightarrow> task \<Rightarrow> 'r world \<Rightarrow> 'r world" where
  "sent_by c t w =
     exec_send (executor_of c) (wc_queue c) (fst (snd (t_delivery t))) (t_stage t, t_job t) w"

section \<open>Steps\<close>

text \<open>The events of a run. \<open>Executed d\<close>: the call of \<open>_process_job\<close> for d is over, whether its execution
  returned, raised or was cancelled.\<close>

datatype event =
    Polled "delivery list"
  | Started delivery
  | Executed delivery
  | ShutdownRequested
  | LoopCancelled
  | DrainTimedOut
  | Silent

text \<open>
  \<open>GracefulShutdown\<close>: the request sets the event, at any time. \<open>drain\<close> returns once no task runs; when
  its timeout passes first it cancels the tasks and waits for them a second time, for a bounded
  time, and returns whether they ended or not. It can be cancelled itself.
\<close>

inductive drain_step :: "'r worker \<Rightarrow> event \<Rightarrow> 'r worker \<Rightarrow> bool" where
  request: "drain_step s ShutdownRequested (s\<lparr>stopping := True\<rparr>)"
| drain_done: "phase s = Drain \<Longrightarrow> running s = [] \<Longrightarrow> drain_step s Silent (s\<lparr>phase := Stopped\<rparr>)"
| drain_timeout: "phase s = Drain \<Longrightarrow> running s \<noteq> [] \<Longrightarrow>
    drain_step s DrainTimedOut (s\<lparr>phase := Cancelling\<rparr>)"
| cancel_wait: "phase s = Cancelling \<Longrightarrow> drain_step s Silent (s\<lparr>phase := Stopped\<rparr>)"
| cancel_drain: "phase s \<in> {Drain, Cancelling} \<Longrightarrow>
    drain_step s LoopCancelled (s\<lparr>phase := Stopped\<rparr>)"

text \<open>The loop, its tasks, and the drain.\<close>

inductive worker_step :: "'r worker_config \<Rightarrow> 'r worker \<Rightarrow> event \<Rightarrow> 'r worker \<Rightarrow> bool" for c where
  top_stop: "phase s = Top \<Longrightarrow> stopping s \<Longrightarrow> worker_step c s Silent (s\<lparr>phase := Drain\<rparr>)"
| top_go: "phase s = Top \<Longrightarrow> \<not> stopping s \<Longrightarrow> worker_step c s Silent (s\<lparr>phase := Admit\<rparr>)"
| admit_ok: "phase s = Admit \<Longrightarrow> admit c (world s) = (Inr (), w) \<Longrightarrow>
    worker_step c s Silent (s\<lparr>phase := Poll, world := w\<rparr>)"
| admit_blocked: "phase s = Admit \<Longrightarrow> admit c (world s) = (Inl e, w) \<Longrightarrow> is_exception e \<Longrightarrow>
    worker_step c s Silent (s\<lparr>phase := Top, world := w\<rparr>)"
| poll_jobs: "phase s = Poll \<Longrightarrow> poll c now (world s) = (Inr ds, w) \<Longrightarrow>
    worker_step c s (Polled ds) (s\<lparr>phase := (if ds = [] then Top else Spawn ds), world := w\<rparr>)"
| poll_error: "phase s = Poll \<Longrightarrow> poll c now (world s) = (Inl e, w) \<Longrightarrow> is_exception e \<Longrightarrow>
    worker_step c s (Polled []) (s\<lparr>phase := Top, world := w\<rparr>)"
| spawn_next: "phase s = Spawn (d # ds) \<Longrightarrow> 0 < permits s \<Longrightarrow>
    worker_step c s (Started d) (spawn c d ds s)"
| spawn_end: "phase s = Spawn [] \<Longrightarrow> worker_step c s Silent (s\<lparr>phase := Top\<rparr>)"
| task_runs: "i < length (tasks s) \<Longrightarrow> \<not> over (fst (go_on c u h (tasks s ! i) (world s))) \<Longrightarrow>
    worker_step c s Silent (process_job c u h i s)"
| task_end: "i < length (tasks s) \<Longrightarrow> over (fst (go_on c u h (tasks s ! i) (world s))) \<Longrightarrow>
    worker_step c s (Executed (t_delivery (tasks s ! i))) (process_job c u h i s)"
| task_cancelled: "i < length (tasks s) \<Longrightarrow> phase s \<in> {Cancelling, Stopped} \<Longrightarrow>
    t_stage (tasks s ! i) \<notin> {Begin, Handling} \<Longrightarrow> w \<in> {world s, sent_by c (tasks s ! i) (world s)} \<Longrightarrow>
    worker_step c s (Executed (t_delivery (tasks s ! i))) (finish_task c i w s)"
| task_discard: "d \<in> set (ended s) \<Longrightarrow>
    worker_step c s Silent (s\<lparr>ended := remove1 d (ended s)\<rparr>)"
| recovery: "wc_recovery c = Some rc \<Longrightarrow> phase s \<notin> {Drain, Cancelling, Stopped} \<Longrightarrow>
    on_server (recover_round (wc_redis c) (wc_prefix c) now rc [wc_queue c]) (world s) = (r, w) \<Longrightarrow>
    worker_step c s Silent (s\<lparr>world := w\<rparr>)"
| cancel_loop: "phase s \<notin> {Drain, Cancelling, Stopped} \<Longrightarrow>
    worker_step c s LoopCancelled (s\<lparr>phase := Drain\<rparr>)"
| cancel_reply: "phase s = Poll \<Longrightarrow> poll c now (world s) = (r, w) \<Longrightarrow>
    worker_step c s LoopCancelled (s\<lparr>phase := Drain, world := w\<rparr>)"
| draining: "drain_step s ev t \<Longrightarrow> worker_step c s ev t"

text \<open>A run and its events, in order.\<close>

abbreviation worker_run :: "'r worker_config \<Rightarrow> 'r worker \<Rightarrow> event list \<Rightarrow> 'r worker \<Rightarrow> bool" where
  "worker_run c \<equiv> run_of (worker_step c)"

lemmas worker_nil = run_nil [where step = "worker_step c" for c]
lemmas worker_snoc = run_snoc [where step = "worker_step c" for c]

inductive_cases worker_stepE: "worker_step c s ev t"

inductive_cases drain_stepE: "drain_step s ev t"


section \<open>Laws\<close>

lemma gauge_simps [simp]:
  "phase (gauge c s) = phase s" "permits (gauge c s) = permits s" "tasks (gauge c s) = tasks s"
  "ended (gauge c s) = ended s" "stopping (gauge c s) = stopping s"
  by (simp_all add: gauge_def)

lemma spawn_simps [simp]:
  "phase (spawn c d ds s) = Spawn ds" "permits (spawn c d ds s) = permits s - 1"
  "tasks (spawn c d ds s) = tasks s @ [new_task d]" "ended (spawn c d ds s) = ended s"
  "stopping (spawn c d ds s) = stopping s"
  by (simp_all add: spawn_def)

lemma finish_task_simps [simp]:
  "phase (finish_task c i w s) = phase s" "permits (finish_task c i w s) = permits s + 1"
  "tasks (finish_task c i w s) = drop_nth i (tasks s)"
  "ended (finish_task c i w s) = ended s @ [t_delivery (tasks s ! i)]"
  "stopping (finish_task c i w s) = stopping s"
  by (simp_all add: finish_task_def)

lemma running_drop_nth:
  assumes "i < length ts"
  shows "mset (map t_delivery ts) = add_mset (t_delivery (ts ! i)) (mset (map t_delivery (drop_nth i ts)))"
  using mset_drop_nth [of i "map t_delivery ts"] assms by (simp add: drop_nth_map)

lemma new_task_simps [simp]:
  "t_delivery (new_task d) = d" "t_job (new_task d) = snd (snd d)" "t_stage (new_task d) = Begin"
  by (simp_all add: new_task_def)

lemma process_job_end:
  assumes "over (fst (go_on c u h (tasks s ! i) (world s)))"
  shows "process_job c u h i s = finish_task c i (snd (go_on c u h (tasks s ! i) (world s))) s"
  using assms by (cases "go_on c u h (tasks s ! i) (world s)") (simp add: process_job_def)

lemma go_on_delivery [simp]: "t_delivery (fst (go_on c u h t w)) = t_delivery t"
  by (simp add: go_on_def split: prod.split)

lemma go_on_server: "server (snd (go_on c u h t w)) = server (sent_by c t w)"
proof -
  have "snd (go_on c u h t w) =
      snd (exec_step (executor_of c) (wc_queue c) (fst (snd (t_delivery t))) u h (t_stage t, t_job t) w)"
    by (simp add: go_on_def split: prod.split)
  then show ?thesis by (simp add: exec_step_server sent_by_def)
qed

lemma process_job_runs:
  assumes "\<not> over (fst (go_on c u h (tasks s ! i) (world s)))"
  shows "process_job c u h i s = s\<lparr>world := snd (go_on c u h (tasks s ! i) (world s)),
      tasks := (tasks s)[i := fst (go_on c u h (tasks s ! i) (world s))]\<rparr>"
  using assms by (cases "go_on c u h (tasks s ! i) (world s)") (simp add: process_job_def)

lemma running_same:
  "i < length (tasks s) \<Longrightarrow> t_delivery t = t_delivery (tasks s ! i) \<Longrightarrow>
   map t_delivery ((tasks s)[i := t]) = map t_delivery (tasks s)"
  by (metis list_update_id map_update)

lemma start_worker_simps:
  assumes "start_worker c w = Inr s"
  shows "phase s = Top" "permits s = wc_concurrency c" "tasks s = []" "running s = []" "ended s = []"
    "\<not> stopping s"
  using assms by (auto simp: start_worker_def running_def split: prod.splits sum.splits)

subsection \<open>The bulkhead\<close>

lemma step_permits:
  assumes "worker_step c s ev t"
  shows "permits t + length (running t) = permits s + length (running s)"
  using assms
  by (cases rule: worker_step.cases)
     (auto simp: running_def process_job_end process_job_runs elim!: drain_stepE)

lemma run_permits:
  "worker_run c s evs t \<Longrightarrow> permits t + length (running t) = permits s + length (running s)"
  by (induction rule: run_of.induct) (simp_all add: step_permits)

subsection \<open>Accounting of deliveries\<close>

fun polled :: "event list \<Rightarrow> delivery list" where
  "polled [] = []"
| "polled (Polled ds # evs) = ds @ polled evs"
| "polled (_ # evs) = polled evs"

fun started :: "event list \<Rightarrow> delivery list" where
  "started [] = []"
| "started (Started d # evs) = d # started evs"
| "started (_ # evs) = started evs"

fun executed :: "event list \<Rightarrow> delivery list" where
  "executed [] = []"
| "executed (Executed d # evs) = d # executed evs"
| "executed (_ # evs) = executed evs"

definition backlog :: "phase \<Rightarrow> delivery list" where
  "backlog p = (case p of Spawn ds \<Rightarrow> ds | _ \<Rightarrow> [])"

lemma backlog_simps [simp]:
  "backlog Top = []" "backlog Admit = []" "backlog Poll = []" "backlog (Spawn ds) = ds"
  "backlog Drain = []" "backlog Cancelling = []" "backlog Stopped = []"
  by (simp_all add: backlog_def)

lemma polled_append [simp]: "polled (evs @ evs') = polled evs @ polled evs'"
  by (induction evs rule: polled.induct) simp_all

lemma started_append [simp]: "started (evs @ evs') = started evs @ started evs'"
  by (induction evs rule: started.induct) simp_all

lemma executed_append [simp]: "executed (evs @ evs') = executed evs @ executed evs'"
  by (induction evs rule: executed.induct) simp_all

lemma step_running:
  assumes "worker_step c s ev t"
  shows "mset (running s) + mset (started [ev]) = mset (executed [ev]) + mset (running t)"
  using assms
  by (cases rule: worker_step.cases)
     (auto simp: running_def process_job_end process_job_runs running_same running_drop_nth
       simp del: mset_map elim!: drain_stepE)

lemma step_backlog:
  assumes "worker_step c s ev t"
  shows "mset (started [ev]) + mset (backlog (phase t)) \<subseteq># mset (backlog (phase s)) + mset (polled [ev])"
    and "ev \<noteq> LoopCancelled \<Longrightarrow> backlog (phase s) @ polled [ev] = started [ev] @ backlog (phase t)"
  using assms
  by (cases rule: worker_step.cases; auto simp: process_job_end process_job_runs elim!: drain_stepE)+

lemma run_running:
  assumes "worker_run c s evs t"
  shows "mset (running s) + mset (started evs) = mset (executed evs) + mset (running t)"
  using assms
proof (induction rule: run_of.induct)
  case (run_snoc evs t ev t')
  have "mset (running s) + mset (started (evs @ [ev])) =
      mset (executed evs) + (mset (running t) + mset (started [ev]))"
    using run_snoc.IH by (simp only: started_append mset_append add.assoc [symmetric])
  also have "\<dots> = mset (executed (evs @ [ev])) + mset (running t')"
    by (simp only: step_running [OF run_snoc.hyps(2)] executed_append mset_append add.assoc [symmetric])
  finally show ?case .
qed simp

lemma run_backlog_subset:
  assumes "worker_run c s evs t"
  shows "mset (started evs) + mset (backlog (phase t)) \<subseteq># mset (backlog (phase s)) + mset (polled evs)"
  using assms
proof (induction rule: run_of.induct)
  case (run_snoc evs t ev t')
  have "mset (started (evs @ [ev])) + mset (backlog (phase t')) \<subseteq>#
      mset (started evs) + (mset (backlog (phase t)) + mset (polled [ev]))"
    using step_backlog(1) [OF run_snoc.hyps(2)] by (simp add: add.assoc)
  also have "\<dots> \<subseteq># mset (backlog (phase s)) + mset (polled evs) + mset (polled [ev])"
    using run_snoc.IH by (simp add: add.assoc [symmetric])
  finally show ?case by (simp add: add.assoc)
qed simp

lemma run_backlog:
  assumes "worker_run c s evs t" "LoopCancelled \<notin> set evs"
  shows "backlog (phase s) @ polled evs = started evs @ backlog (phase t)"
  using assms
proof (induction rule: run_of.induct)
  case (run_snoc evs t ev t')
  then have IH: "backlog (phase s) @ polled evs = started evs @ backlog (phase t)"
    and ev: "ev \<noteq> LoopCancelled" by auto
  have "(backlog (phase s) @ polled evs) @ polled [ev] = started evs @ backlog (phase t) @ polled [ev]"
    by (simp only: IH append_assoc)
  then show ?case
    by (simp only: step_backlog(2) [OF run_snoc.hyps(2) ev] polled_append started_append append_assoc)
qed simp

lemma step_stopped:
  assumes "worker_step c s ev t" "ev \<noteq> LoopCancelled" "ev \<noteq> DrainTimedOut"
    and "phase s \<noteq> Cancelling" "phase s = Stopped \<Longrightarrow> running s = []"
  shows "phase t \<noteq> Cancelling \<and> (phase t = Stopped \<longrightarrow> running t = [])"
  using assms
  by (cases rule: worker_step.cases)
     (auto simp: running_def process_job_end process_job_runs elim!: drain_stepE)

lemma run_stopped:
  assumes "worker_run c s evs t" "LoopCancelled \<notin> set evs" "DrainTimedOut \<notin> set evs"
    and "phase s = Top"
  shows "phase t \<noteq> Cancelling \<and> (phase t = Stopped \<longrightarrow> running t = [])"
  using assms
proof (induction rule: run_of.induct)
  case (run_snoc evs t ev t')
  then have IH: "phase t \<noteq> Cancelling" "phase t = Stopped \<Longrightarrow> running t = []" by auto
  show ?case by (rule step_stopped [OF run_snoc.hyps(2) _ _ IH]) (use run_snoc.prems in auto)
qed simp

subsection \<open>Polls after a shutdown request\<close>

definition polls :: "event list \<Rightarrow> nat" where
  "polls evs = length (filter (\<lambda>ev. case ev of Polled _ \<Rightarrow> True | _ \<Rightarrow> False) evs)"

definition poll_budget :: "phase \<Rightarrow> nat" where
  "poll_budget p = (if p = Admit \<or> p = Poll then 1 else 0)"

lemma step_polls:
  assumes "worker_step c s ev t" "stopping s"
  shows "stopping t \<and> polls [ev] + poll_budget (phase t) \<le> poll_budget (phase s)"
  using assms
  by (cases rule: worker_step.cases)
     (auto simp: polls_def poll_budget_def process_job_end process_job_runs elim!: drain_stepE)

lemma run_polls:
  assumes "worker_run c s evs t" "stopping s"
  shows "stopping t \<and> polls evs + poll_budget (phase t) \<le> poll_budget (phase s)"
  using assms
proof (induction rule: run_of.induct)
  case (run_snoc evs t ev t')
  then have "stopping t" by simp
  with step_polls [OF run_snoc.hyps(2)] run_snoc show ?case by (auto simp: polls_def)
qed (simp add: polls_def)

subsection \<open>The in-flight gauge\<close>

definition gauge_values :: "prom_log \<Rightarrow> rat list" where
  "gauge_values calls = concat (map (\<lambda>pc. case pc of GaugeSet m ls v \<Rightarrow> [v] | _ \<Rightarrow> []) calls)"

lemma gauge_values_append [simp]:
  "gauge_values (cs @ cs') = gauge_values cs @ gauge_values cs'"
  by (simp add: gauge_values_def)

lemma gauge_values_calls [simp]:
  "gauge_values (observe_processing_seconds ns k x cs) = gauge_values cs"
  "gauge_values (incr_delivery_attempts ns k b cs) = gauge_values cs"
  "gauge_values (incr_dead_letter ns k cs) = gauge_values cs"
  "gauge_values (observe_worker_inflight ns q n cs) = gauge_values cs @ [of_int n]"
  by (simp_all add: metric_defs gauge_values_def)

lemma swallow_snd: "snd (swallow m s) = snd (m s)"
  by (auto simp: swallow_def split: prod.split sum.split)

lemma metrics_on_metrics [simp]: "metrics (on_metrics f w) = f (metrics w)"
  by (simp add: on_metrics_def)

lemma fail_step_gauges [simp]:
  "gauge_values (metrics (snd (fail_step x u j e w))) = gauge_values (metrics w)"
  by (simp add: fail_step_def note_status_eq Let_def split: sum.split)

lemma exec_step_gauges:
  "gauge_values (metrics (snd (exec_step x q eid u h (st, j) w))) = gauge_values (metrics w)"
proof (cases st)
  case Handling
  then show ?thesis by (simp add: exec_handling Let_def split: sum.split option.split)
next
  case Acking
  obtain r s where "xack (ex_redis x) (ex_prefix x) q eid (server w) = (r, s)" by fastforce
  with Acking show ?thesis
    by (cases r) (simp_all add: swallow_def io_bind_def on_server_def note_status_eq)
next
  case (Burying reason)
  obtain r s where "xadd_dlq (ex_redis x) (ex_prefix x) q j reason (server w) = (r, s)" by fastforce
  with Burying show ?thesis by (cases r) (simp_all add: on_server_def)
next
  case Releasing
  obtain r s where "xack (ex_redis x) (ex_prefix x) q eid (server w) = (r, s)" by fastforce
  with Releasing show ?thesis by (cases r) (simp_all add: on_server_def)
qed (simp_all add: note_status_eq)

lemma go_on_gauges [simp]:
  "gauge_values (metrics (snd (go_on c u h t w))) = gauge_values (metrics w)"
proof -
  obtain st j w' where "exec_step (executor_of c) (wc_queue c) (fst (snd (t_delivery t))) u h
      (t_stage t, t_job t) w = ((st, j), w')" by (metis prod_cases3 prod.exhaust)
  with exec_step_gauges [of "executor_of c" "wc_queue c" "fst (snd (t_delivery t))" u h "t_stage t" "t_job t" w]
  show ?thesis by (simp add: go_on_def)
qed

lemma finish_task_gauges:
  assumes "gauge_values (metrics w) = gauge_values (metrics (world s))"
  shows "\<exists>v\<ge>1. gauge_values (metrics (world (finish_task c i w s))) = gauge_values (metrics (world s)) @ [v]"
  using assms by (simp add: finish_task_def gauge_def inflight_def)

lemma step_gauges:
  assumes "worker_step c s ev t"
  shows "\<exists>vs. gauge_values (metrics (world t)) = gauge_values (metrics (world s)) @ vs \<and> list_all ((\<le>) 1) vs"
  using assms
proof (cases rule: worker_step.cases)
  case (task_end i u h)
  have "\<exists>v\<ge>1. gauge_values (metrics (world t)) = gauge_values (metrics (world s)) @ [v]"
    unfolding task_end process_job_end [OF task_end(4)] by (rule finish_task_gauges) simp
  then obtain v where "1 \<le> v" "gauge_values (metrics (world t)) = gauge_values (metrics (world s)) @ [v]" by blast
  then show ?thesis by (intro exI [of _ "[v]"]) simp
next
  case (task_cancelled i w)
  have "\<exists>v\<ge>1. gauge_values (metrics (world t)) = gauge_values (metrics (world s)) @ [v]"
    unfolding task_cancelled(2) by (rule finish_task_gauges) (use task_cancelled(6) in \<open>auto simp: sent_by_def\<close>)
  then obtain v where "1 \<le> v" "gauge_values (metrics (world t)) = gauge_values (metrics (world s)) @ [v]" by blast
  then show ?thesis by (intro exI [of _ "[v]"]) simp
qed (auto simp: admit_def poll_def spawn_def gauge_def inflight_def running_def process_job_runs
  dest!: on_server_frame(2) elim!: drain_stepE split: option.splits)

lemma run_gauges:
  assumes "worker_run c s evs t"
  shows "\<exists>vs. gauge_values (metrics (world t)) = gauge_values (metrics (world s)) @ vs \<and> list_all ((\<le>) 1) vs"
  using assms
proof (induction rule: run_of.induct)
  case (run_snoc evs t ev t')
  then obtain vs vs' where "gauge_values (metrics (world t)) = gauge_values (metrics (world s)) @ vs"
    "gauge_values (metrics (world t')) = gauge_values (metrics (world t)) @ vs'"
    "list_all ((\<le>) 1) vs" "list_all ((\<le>) 1) vs'"
    using step_gauges [OF run_snoc.hyps(2)] by blast
  then show ?case by (intro exI [of _ "vs @ vs'"]) simp
qed simp

section \<open>A run for the witnesses\<close>

text \<open>A job with an idempotency key, and its entry.\<close>

definition demo_job :: job where
  "demo_job = sample_job\<lparr>idempotency_key := Some ''k''\<rparr>"

lemma demo_job_simps [simp]:
  "jid demo_job = jid sample_job" "kind demo_job = kind sample_job" "payload demo_job = payload sample_job"
  "status demo_job = Member PENDING" "attempts demo_job = 0" "max_retries demo_job = 3"
  "idempotency_key demo_job = Some ''k''" "queue demo_job = ''default''" "created_at demo_job = base_time"
  by (simp_all add: demo_job_def)

lemma wf_demo_job [simp]: "wf_job demo_job"
  by (simp add: wf_job_def)

definition demo_text :: string where
  "demo_text = (case job_text demo_job of Inr s \<Rightarrow> s | Inl _ \<Rightarrow> [])"

lemma demo_text: "job_text demo_job = Inr demo_text"
  using job_text_Inr [OF wf_demo_job] by (force simp: demo_text_def)

definition demo_entry :: entry where
  "demo_entry = (''1-0'', sent_fields True [(''job'', demo_text)])"

lemma demo_entry_carries: "carries demo_entry (''1-0'', demo_job)"
  by (auto simp: carries_def demo_entry_def demo_text intro!: exI [of _ True] exI [of _ "[(''job'', demo_text)]"])

definition demo_config :: "mem worker_config" where
  "demo_config = \<lparr>wc_redis = mem_client, wc_prefix = ''relayq'', wc_ns = ''relayq'',
     wc_policy = default_policy, wc_show = (\<lambda>_. []), wc_job_timeout = 300, wc_queue = ''default'',
     wc_worker = ''w'', wc_admission = Some (new_admission (Some 10) None), wc_recovery = None, wc_concurrency = 1,
     wc_poll_timeout = 2000, wc_poll_batch = 1\<rparr>"

definition demo_delivery :: delivery where
  "demo_delivery = (stream_key ''relayq'' ''default'', ''1-0'', demo_job)"

definition busy_world :: "mem world" where
  "busy_world = \<lparr>server = mem_with ''default'' [demo_entry], store = None, metrics = []\<rparr>"

lemma demo_start:
  "\<exists>s. start_worker demo_config busy_world = Inr s \<and>
     streams (server (world s)) = streams (mem_with ''default'' [demo_entry]) \<and> seen (server (world s)) = (\<lambda>_. 0)"
  by (simp add: start_worker_def demo_config_def busy_world_def on_server_def ensure_group_def
    mem_with_def mem_init_def)

lemma demo_poll:
  assumes "streams (server w) = streams (mem_with ''default'' [demo_entry])" "seen (server w) = (\<lambda>_. 0)"
  shows "\<exists>w'. poll demo_config base_time w = (Inr [demo_delivery], w')"
proof -
  obtain r' where "rc_xreadgroup mem_client (group_key ''relayq'' ''default'') (consumer_name ''w'')
      [(stream_key ''relayq'' ''default'', ''>'')] 1 2000 (server w) =
    (Inr [(RStr (stream_key ''relayq'' ''default''), [demo_entry])], r')"
    using assms by (auto simp: mem_with_def Let_def)
  moreover have "list_all2 carries [demo_entry] [(''1-0'', demo_job)]"
    by (simp add: demo_entry_carries)
  ultimately have "read_group mem_client ''relayq'' base_time ''default'' ''w'' 1 2000 (server w) =
      (Inr [demo_delivery], r')"
    using decode_entries_carries [of "RStr (stream_key ''relayq'' ''default'')" "stream_key ''relayq'' ''default''"
      "[demo_entry]" "[(''1-0'', demo_job)]" base_time]
    by (simp add: read_group_def io_bind_def demo_delivery_def)
  then show ?thesis by (simp add: poll_def demo_config_def on_server_def)
qed

text \<open>One job is read, started, executed and the worker shut down.\<close>

definition demo_events :: "event list" where
  "demo_events = ((((((((((([] @ [Silent]) @ [Silent]) @ [Polled [demo_delivery]]) @ [Started demo_delivery])
     @ [ShutdownRequested]) @ [Silent]) @ [Silent]) @ [Executed demo_delivery]) @ [Silent]) @ [Silent]) @ [Silent])"

lemma demo_polled:
  "\<exists>s t. start_worker demo_config busy_world = Inr s \<and>
     worker_run demo_config s ((([] @ [Silent]) @ [Silent]) @ [Polled [demo_delivery]]) t \<and>
     phase t = Spawn [demo_delivery] \<and> permits t = 1 \<and> tasks t = [] \<and> ended t = []"
proof -
  obtain s where s: "start_worker demo_config busy_world = Inr s"
    "streams (server (world s)) = streams (mem_with ''default'' [demo_entry])"
    "seen (server (world s)) = (\<lambda>_. 0)"
    using demo_start by blast
  note st = start_worker_simps [OF s(1)]
  let ?d = demo_delivery
  have "admit demo_config (world s) = (Inr (), world s)"
    using s(2) by (simp add: admit_def demo_config_def new_admission_def on_server_def check_def stream_length_def
      io_bind_def mem_with_def)
  then obtain s2 where s2: "worker_step demo_config (s\<lparr>phase := Admit\<rparr>) Silent s2"
    "s2 = s\<lparr>phase := Poll, world := world s\<rparr>"
    using admit_ok [of "s\<lparr>phase := Admit\<rparr>" demo_config "world s"] by simp
  have "poll demo_config base_time (world s2) = poll demo_config base_time (world s)"
    by (simp add: s2)
  then obtain w3 where "poll demo_config base_time (world s2) = (Inr [?d], w3)"
    using demo_poll s(2,3) by metis
  then have "worker_step demo_config s2 (Polled [?d]) (s2\<lparr>phase := Spawn [?d], world := w3\<rparr>)"
    using poll_jobs [of s2 demo_config base_time "[?d]" w3] s2(2) by simp
  then obtain s3 where s3: "worker_step demo_config s2 (Polled [?d]) s3" "phase s3 = Spawn [?d]"
    "permits s3 = 1" "tasks s3 = []" "ended s3 = []"
    using s2 st by (simp add: demo_config_def)
  have t1: "worker_step demo_config s Silent (s\<lparr>phase := Admit\<rparr>)"
    by (rule top_go) (simp_all add: st)
  show ?thesis
    by (intro exI [of _ s] exI [of _ s3] conjI s(1) s3(2-5)
      worker_snoc [OF worker_snoc [OF worker_snoc [OF worker_nil t1] s2(1)] s3(1)])
qed

lemma demo_run:
  "\<exists>s t. start_worker demo_config busy_world = Inr s \<and> worker_run demo_config s demo_events t \<and>
     phase t = Stopped \<and>
     ''1-0'' \<notin> set (pending (server (world t)) (stream_key ''relayq'' ''default'', group_key ''relayq'' ''default''))"
proof -
  let ?d = demo_delivery
  obtain s s3 where s: "start_worker demo_config busy_world = Inr s"
    and start: "worker_run demo_config s ((([] @ [Silent]) @ [Silent]) @ [Polled [?d]]) s3"
    and s3: "phase s3 = Spawn [?d]" "permits s3 = 1" "tasks s3 = []" "ended s3 = []"
    using demo_polled by blast
  define s4 where "s4 = spawn demo_config ?d [] s3"
  have t4: "worker_step demo_config s3 (Started ?d) s4"
    unfolding s4_def by (rule spawn_next) (simp_all add: s3)
  define s5 where "s5 = s4\<lparr>stopping := True\<rparr>"
  have t5: "worker_step demo_config s4 ShutdownRequested s5"
    unfolding s5_def by (rule draining, rule request)
  define a where "a = process_job demo_config 0 ok_handler 0 s5"
  define b where "b = process_job demo_config 0 ok_handler 0 a"
  define s6 where "s6 = process_job demo_config 0 ok_handler 0 b"
  have s5: "tasks s5 = [\<lparr>t_delivery = ?d, t_job = demo_job, t_stage = Begin\<rparr>]" "phase s5 = Spawn []"
    "stopping s5"
    by (simp_all add: s5_def s4_def s3 new_task_def demo_delivery_def)
  obtain w1 where g1: "go_on demo_config 0 ok_handler (tasks s5 ! 0) (world s5) =
      (\<lparr>t_delivery = ?d, t_job = demo_job, t_stage = Handling\<rparr>, w1)"
    by (simp add: s5 go_on_def note_status_eq)
  have ta: "worker_step demo_config s5 Silent a"
    unfolding a_def by (rule task_runs) (use g1 in \<open>simp_all add: s5(1) over_def\<close>)
  have a: "tasks a = [\<lparr>t_delivery = ?d, t_job = demo_job, t_stage = Handling\<rparr>]" "phase a = Spawn []"
    "stopping a"
    using g1 s5 by (simp_all add: a_def process_job_def over_def)
  obtain w2 where g2: "go_on demo_config 0 ok_handler (tasks a ! 0) (world a) =
      (\<lparr>t_delivery = ?d, t_job = demo_job, t_stage = Acking\<rparr>, w2)"
    by (simp add: a go_on_def exec_handling executor_of_def new_executor_def demo_config_def Let_def)
  have tb: "worker_step demo_config a Silent b"
    unfolding b_def by (rule task_runs) (use g2 in \<open>simp_all add: a(1) over_def\<close>)
  have b: "tasks b = [\<lparr>t_delivery = ?d, t_job = demo_job, t_stage = Acking\<rparr>]" "phase b = Spawn []"
    "stopping b"
    using g2 a by (simp_all add: b_def process_job_def over_def)
  have g3: "over (fst (go_on demo_config 0 ok_handler (tasks b ! 0) (world b)))"
    using mem_never_cancels(3) [of "''relayq''" "''default''" "''1-0''"]
    by (auto simp: b go_on_def over_def swallow_def io_bind_def on_server_def note_status_eq
      executor_of_def new_executor_def demo_config_def demo_delivery_def split: prod.split sum.split)
  have t6: "worker_step demo_config b (Executed ?d) s6"
    using task_end [OF _ g3] by (simp add: s6_def b(1))
  have s6: "tasks s6 = []" "phase s6 = Spawn []" "stopping s6"
    by (simp_all add: s6_def process_job_end [OF g3] b drop_nth_def)
  have acked: "''1-0'' \<notin> set (pending (server (world s6)) (stream_key ''relayq'' ''default'', group_key ''relayq'' ''default''))"
  proof -
    have "server (world s6) = server (snd (go_on demo_config 0 ok_handler (tasks b ! 0) (world b)))"
      by (simp add: s6_def process_job_end [OF g3] finish_task_def gauge_def)
    also have "\<dots> = snd (xack mem_client ''relayq'' ''default'' ''1-0'' (server (world b)))"
      by (simp add: go_on_server sent_by_def b on_server_def executor_of_def new_executor_def demo_config_def
        demo_delivery_def split: prod.split)
    finally show ?thesis by (simp add: xack_def)
  qed
  define s7 where "s7 = s6\<lparr>phase := Top\<rparr>"
  have t7: "worker_step demo_config s6 Silent s7"
    unfolding s7_def by (rule spawn_end) (simp add: s6)
  have t8: "worker_step demo_config s7 Silent (s7\<lparr>phase := Drain\<rparr>)"
    by (rule top_stop) (simp_all add: s7_def s6)
  have t9: "worker_step demo_config (s7\<lparr>phase := Drain\<rparr>) Silent (s7\<lparr>phase := Drain, phase := Stopped\<rparr>)"
    by (rule draining, rule drain_done) (simp_all add: s7_def s6 running_def)
  have "worker_run demo_config s demo_events (s7\<lparr>phase := Drain, phase := Stopped\<rparr>)"
    unfolding demo_events_def
    by (rule worker_snoc [OF worker_snoc [OF worker_snoc [OF worker_snoc [OF worker_snoc [OF worker_snoc
      [OF worker_snoc [OF worker_snoc [OF start t4] t5] ta] tb] t6] t7] t8] t9])
  with s acked show ?thesis
    by (intro exI [of _ s] exI [of _ "s7\<lparr>phase := Drain, phase := Stopped\<rparr>"] conjI) (simp_all add: s7_def)
qed

lemma demo_event_lists [simp]:
  "polled demo_events = [demo_delivery]" "executed demo_events = [demo_delivery]"
  "LoopCancelled \<notin> set demo_events" "DrainTimedOut \<notin> set demo_events"
  by (simp_all add: demo_events_def)

section \<open>Properties\<close>

text \<open>The bulkhead holds: in every state a worker can reach, the free permits and the running
  tasks together are the configured concurrency, so never more jobs run than it allows.\<close>

theorem worker_bulkhead:
  assumes "start_worker c w = Inr s" "worker_run c s evs t"
  shows "permits t + length (running t) = wc_concurrency c"
  using run_permits [OF assms(2)] start_worker_simps [OF assms(1)] by simp

theorem worker_bulkhead_witness:
  "\<exists>s t. worker_run demo_config s demo_events t \<and> permits t + length (running t) = wc_concurrency demo_config"
proof -
  obtain s t where r: "start_worker demo_config busy_world = Inr s"
    "worker_run demo_config s demo_events t" using demo_run by blast
  from worker_bulkhead [OF r] r(2) show ?thesis by blast
qed

text \<open>C11. No delivery is executed twice or dropped: in every reachable state the jobs executed, the
  jobs running and the jobs waiting for a permit are among the jobs polled, each at most as often;
  unless the loop itself was cancelled they are exactly those, and jobs are started in the order
  they were read.\<close>

theorem worker_accounts_deliveries:
  assumes "start_worker c w = Inr s" "worker_run c s evs t"
  shows "mset (executed evs) + mset (running t) + mset (backlog (phase t)) \<subseteq># mset (polled evs) \<and>
    (LoopCancelled \<notin> set evs \<longrightarrow>
       mset (executed evs) + mset (running t) + mset (backlog (phase t)) = mset (polled evs) \<and>
       started evs @ backlog (phase t) = polled evs)"
proof -
  note st = start_worker_simps [OF assms(1)]
  have run: "mset (executed evs) + mset (running t) = mset (started evs)"
    using run_running [OF assms(2)] st by simp
  then show ?thesis
    using run_backlog_subset [OF assms(2)] run_backlog [OF assms(2)] st
    by (simp flip: mset_append)
qed

theorem worker_accounts_deliveries_witness:
  "\<exists>s t. worker_run demo_config s demo_events t \<and>
     mset (executed demo_events) + mset (running t) + mset (backlog (phase t)) = {#demo_delivery#}"
proof -
  obtain s t where r: "start_worker demo_config busy_world = Inr s"
    "worker_run demo_config s demo_events t" using demo_run by blast
  from worker_accounts_deliveries [OF r] r(2) show ?thesis by auto
qed

text \<open>C7. A graceful shutdown finishes what it read: when the worker has returned, and neither was its
  loop cancelled nor did the drain time out, nothing is running and every job it ever polled was
  executed, each exactly as often as it was polled.\<close>

theorem graceful_shutdown_drains:
  assumes "start_worker c w = Inr s" "worker_run c s evs t" "phase t = Stopped"
    and "LoopCancelled \<notin> set evs" "DrainTimedOut \<notin> set evs"
  shows "running t = [] \<and> mset (executed evs) = mset (polled evs)"
proof -
  note st = start_worker_simps [OF assms(1)]
  have "running t = []" using run_stopped [OF assms(2,4,5) st(1)] assms(3) by simp
  moreover have "polled evs = started evs"
    using run_backlog [OF assms(2,4)] st assms(3) by simp
  ultimately show ?thesis using run_running [OF assms(2)] st by simp
qed

theorem graceful_shutdown_drains_witness:
  "\<exists>s t. worker_run demo_config s demo_events t \<and> running t = [] \<and>
     mset (executed demo_events) = mset (polled demo_events)"
proof -
  obtain s t where r: "start_worker demo_config busy_world = Inr s"
    "worker_run demo_config s demo_events t" "phase t = Stopped" using demo_run by blast
  from graceful_shutdown_drains [OF r] r(2) show ?thesis by auto
qed

text \<open>Shutdown stops polling: once shutdown is requested, the loop polls at most once more, and
  only if it had already passed its condition.\<close>

theorem shutdown_stops_polling:
  assumes "stopping s" "worker_run c s evs t"
  shows "polls evs \<le> (if phase s = Admit \<or> phase s = Poll then 1 else 0)"
  using run_polls [OF assms(2,1)] by (simp add: poll_budget_def)

theorem shutdown_stops_polling_witness:
  "\<exists>s. stopping s \<and> phase s = Top \<and>
     worker_run demo_config s ([] @ [Silent]) (s\<lparr>phase := Drain\<rparr>) \<and> polls ([] @ [Silent]) = 0"
proof -
  obtain s0 where "start_worker demo_config busy_world = Inr s0" using demo_start by blast
  note st = start_worker_simps [OF this]
  define s where "s = s0\<lparr>stopping := True\<rparr>"
  have s: "stopping s" "phase s = Top" by (simp_all add: s_def st)
  have run: "worker_run demo_config s ([] @ [Silent]) (s\<lparr>phase := Drain\<rparr>)"
    by (rule worker_snoc [OF worker_nil top_stop]) (simp_all add: s)
  from shutdown_stops_polling [OF s(1) run] s run show ?thesis by auto
qed

text \<open>The in-flight gauge never returns to zero: every value the worker sets it to is at least one,
  because the task that ends is still counted when it sets the gauge. An idle worker that has run
  a job keeps reporting one in flight.\<close>

theorem inflight_gauge_positive:
  assumes "start_worker c w = Inr s" "worker_run c s evs t"
    and "metrics w = []"
  shows "list_all ((\<le>) 1) (gauge_values (metrics (world t)))"
proof -
  have "metrics (world s) = []"
    using assms(1,3) on_server_frame(2)
    by (fastforce simp: start_worker_def split: prod.splits sum.splits)
  with run_gauges [OF assms(2)] show ?thesis by (auto simp: gauge_values_def)
qed

theorem inflight_gauge_positive_witness:
  "\<exists>s t. worker_run demo_config s demo_events t \<and>
     list_all ((\<le>) 1) (gauge_values (metrics (world t)))"
proof -
  obtain s t where r: "start_worker demo_config busy_world = Inr s"
    "worker_run demo_config s demo_events t" using demo_run by blast
  from inflight_gauge_positive [OF r] r(2) show ?thesis by (auto simp: busy_world_def)
qed

text \<open>C28. The worker is never stuck: in every reachable state before it has returned, with a positive
  concurrency and a client that does not cancel it, the loop or one of its tasks can step on its
  own; in particular a full bulkhead always has a running job to wait for.\<close>

theorem worker_never_stuck:
  assumes "start_worker c w = Inr s" "worker_run c s evs t" "0 < wc_concurrency c" "phase t \<noteq> Stopped"
    and "fst (admit c (world t)) \<noteq> Inl CancelledError"
    and "fst (poll c now (world t)) \<noteq> Inl CancelledError"
  shows "\<exists>ev t'. worker_step c t ev t' \<and> ev \<noteq> ShutdownRequested \<and> ev \<noteq> LoopCancelled"
proof -
  have inv: "permits t + length (running t) = wc_concurrency c"
    using run_permits [OF assms(2)] start_worker_simps [OF assms(1)] by simp
  show ?thesis
  proof (cases "phase t")
    case Top
    then show ?thesis by (cases "stopping t") (blast intro: top_stop top_go)+
  next
    case Admit
    obtain r w' where a: "admit c (world t) = (r, w')" by fastforce
    show ?thesis
    proof (cases r)
      case (Inl e)
      then have "is_exception e" using a assms(5) by (simp add: is_exception_def)
      with a Admit Inl show ?thesis by (blast intro: admit_blocked)
    next
      case (Inr x)
      with a Admit show ?thesis by (cases x) (blast intro: admit_ok)
    qed
  next
    case Poll
    obtain r w' where a: "poll c now (world t) = (r, w')" by fastforce
    show ?thesis
    proof (cases r)
      case (Inl e)
      then have "is_exception e" using a assms(6) by (simp add: is_exception_def)
      with a Poll Inl show ?thesis by (blast intro: poll_error)
    next
      case (Inr x)
      with a Poll show ?thesis by (blast intro: poll_jobs)
    qed
  next
    case (Spawn ds)
    show ?thesis
    proof (cases ds)
      case Nil
      with Spawn show ?thesis by (blast intro: spawn_end)
    next
      case (Cons d ds')
      show ?thesis
      proof (cases "0 < permits t")
        case True
        with Spawn Cons show ?thesis by (blast intro: spawn_next)
      next
        case False
        with inv assms(3) have i: "0 < length (tasks t)" by (auto simp: running_def)
        show ?thesis
          by (cases "over (fst (go_on c u h (tasks t ! 0) (world t)))")
             (use task_end [OF i] task_runs [OF i] in blast)+
      qed
    qed
  next
    case Drain
    then show ?thesis by (cases "running t = []") (blast intro: draining drain_done drain_timeout)+
  next
    case Cancelling
    then show ?thesis by (blast intro: draining cancel_wait)
  next
    case Stopped
    with assms(4) show ?thesis by simp
  qed
qed

theorem worker_never_stuck_witness:
  "\<exists>s ev t. start_worker demo_config busy_world = Inr s \<and> worker_step demo_config s ev t \<and>
     ev \<noteq> ShutdownRequested \<and> ev \<noteq> LoopCancelled"
proof -
  obtain s where s: "start_worker demo_config busy_world = Inr s"
    "streams (server (world s)) = streams (mem_with ''default'' [demo_entry])"
    "seen (server (world s)) = (\<lambda>_. 0)"
    using demo_start by blast
  have "fst (admit demo_config (world s)) \<noteq> Inl CancelledError"
    using s(2) by (simp add: admit_def demo_config_def new_admission_def on_server_def check_def stream_length_def
      io_bind_def mem_with_def)
  moreover have "fst (poll demo_config base_time (world s)) \<noteq> Inl CancelledError"
    using demo_poll [OF s(2,3)] by auto
  ultimately have "\<exists>ev t. worker_step demo_config s ev t \<and> ev \<noteq> ShutdownRequested \<and> ev \<noteq> LoopCancelled"
    by (intro worker_never_stuck [OF s(1) worker_nil]) (simp_all add: start_worker_simps [OF s(1)] demo_config_def)
  with s(1) show ?thesis by blast
qed

end
