(* ===== verification/Pool.thy ===== *)
theory Pool
  imports Worker
begin

text \<open>
  What a worker promises, without server, tasks and callbacks: a pool of bounded size that takes
  batches of deliveries one after the other, starts them in order while it has room, and after a
  request to stop takes no new batch, lets what runs end, and returns. The worker of \<open>Worker\<close>
  refines it, event by event.
\<close>

section \<open>The specification\<close>

text \<open>Taking batches; waiting for what runs; gone on without waiting because the wait took too long;
  returned.\<close>

datatype pool_mode = Accepting | Draining | Forced | Returned

record pool =
  mode :: pool_mode
  waiting :: "delivery list"
  active :: "delivery multiset"
  room :: nat
  asked :: bool

definition new_pool :: "nat \<Rightarrow> pool" where
  "new_pool n = \<lparr>mode = Accepting, waiting = [], active = {#}, room = n, asked = False\<rparr>"

inductive pool_step :: "pool \<Rightarrow> event \<Rightarrow> pool \<Rightarrow> bool" where
  takes: "mode p = Accepting \<Longrightarrow> waiting p = [] \<Longrightarrow> pool_step p (Polled ds) (p\<lparr>waiting := ds\<rparr>)"
| starts: "mode p = Accepting \<Longrightarrow> waiting p = d # ds \<Longrightarrow> 0 < room p \<Longrightarrow>
    pool_step p (Started d) (p\<lparr>waiting := ds, active := add_mset d (active p), room := room p - 1\<rparr>)"
| ends: "d \<in># active p \<Longrightarrow>
    pool_step p (Executed d) (p\<lparr>active := active p - {#d#}, room := room p + 1\<rparr>)"
| is_asked: "pool_step p ShutdownRequested (p\<lparr>asked := True\<rparr>)"
| stops_taking: "mode p = Accepting \<Longrightarrow> waiting p = [] \<Longrightarrow> asked p \<Longrightarrow>
    pool_step p Silent (p\<lparr>mode := Draining\<rparr>)"
| gives_up: "mode p = Accepting \<Longrightarrow> pool_step p LoopCancelled (p\<lparr>mode := Draining, waiting := []\<rparr>)"
| is_drained: "mode p = Draining \<Longrightarrow> active p = {#} \<Longrightarrow> pool_step p Silent (p\<lparr>mode := Returned\<rparr>)"
| loses_patience: "mode p = Draining \<Longrightarrow> active p \<noteq> {#} \<Longrightarrow> pool_step p DrainTimedOut (p\<lparr>mode := Forced\<rparr>)"
| goes: "mode p = Forced \<Longrightarrow> pool_step p Silent (p\<lparr>mode := Returned\<rparr>)"
| breaks_off: "mode p \<in> {Draining, Forced} \<Longrightarrow> pool_step p LoopCancelled (p\<lparr>mode := Returned\<rparr>)"
| works: "pool_step p Silent p"

text \<open>The pool's own guarantees: its size; and after a return that nothing forced, nothing runs.\<close>

interpretation pool_size: step_invariant pool_step "\<lambda>p. room p + size (active p) = n" for n
proof
  fix p ev q assume "room p + size (active p) = n" "pool_step p ev q"
  then show "room q + size (active q) = n"
    by (auto elim!: pool_step.cases simp: size_Diff_singleton dest: multi_member_split)
qed

section \<open>The refinement\<close>

definition mode_of :: "phase \<Rightarrow> pool_mode" where
  "mode_of ph = (case ph of Drain \<Rightarrow> Draining | Cancelling \<Rightarrow> Forced | Stopped \<Rightarrow> Returned | _ \<Rightarrow> Accepting)"

definition pool_of :: "'r worker \<Rightarrow> pool" where
  "pool_of s = \<lparr>mode = mode_of (phase s), waiting = backlog (phase s), active = mset (running s),
     room = permits s, asked = stopping s\<rparr>"

lemma mode_of_simps [simp]:
  "mode_of Top = Accepting" "mode_of Admit = Accepting" "mode_of Poll = Accepting"
  "mode_of (Spawn ds) = Accepting" "mode_of Drain = Draining" "mode_of Cancelling = Forced"
  "mode_of Stopped = Returned"
  by (simp_all add: mode_of_def)

lemma mode_of_open: "ph \<notin> {Drain, Cancelling, Stopped} \<Longrightarrow> mode_of ph = Accepting"
  by (cases ph) simp_all

lemma pool_of_simps [simp]:
  "mode (pool_of s) = mode_of (phase s)" "waiting (pool_of s) = backlog (phase s)"
  "active (pool_of s) = mset (running s)" "room (pool_of s) = permits s" "asked (pool_of s) = stopping s"
  by (simp_all add: pool_of_def)

lemma pool_eqI:
  assumes "mode p = mode q" "waiting p = waiting q" "active p = active q" "room p = room q" "asked p = asked q"
  shows "p = (q :: pool)"
  using assms by (cases p, cases q) simp

text \<open>A step of the specification, to the abstraction of a state given by its fields.\<close>

lemma pool_stepI:
  assumes "pool_step (pool_of s) ev' p" "ev = ev'" "mode_of (phase t) = mode p" "backlog (phase t) = waiting p"
    and "mset (running t) = active p" "permits t = room p" "stopping t = asked p"
  shows "pool_step (pool_of s) ev (pool_of t)"
proof -
  have "pool_of t = p" by (rule pool_eqI) (simp_all add: assms(3-7))
  with assms(1,2) show ?thesis by simp
qed

lemma drop_running:
  assumes "i < length (tasks s)"
  shows "t_delivery (tasks s ! i) \<in># mset (running s)"
    and "mset (map t_delivery (drop_nth i (tasks s))) = mset (running s) - {#t_delivery (tasks s ! i)#}"
  using running_drop_nth [OF assms] by (simp_all only: running_def union_single_eq_member add_mset_remove_trivial)

lemma finish_running: "running (finish_task c i w s) = map t_delivery (drop_nth i (tasks s))"
  by (simp add: running_def)

lemma worker_step_pool:
  assumes "worker_step c s ev t"
  shows "pool_step (pool_of s) ev (pool_of t)"
  using assms
proof (cases rule: worker_step.cases)
  case top_stop
  then show ?thesis by (intro pool_stepI [OF stops_taking]) (simp_all add: running_def)
next
  case top_go
  then show ?thesis by (intro pool_stepI [OF works]) (simp_all add: running_def)
next
  case (admit_ok w)
  then show ?thesis by (intro pool_stepI [OF works]) (simp_all add: running_def)
next
  case (admit_blocked e w)
  then show ?thesis by (intro pool_stepI [OF works]) (simp_all add: running_def)
next
  case (poll_jobs now ds w)
  then show ?thesis by (intro pool_stepI [OF takes]) (simp_all add: running_def)
next
  case (poll_error now e w)
  then show ?thesis by (intro pool_stepI [OF takes]) (simp_all add: running_def)
next
  case (spawn_next d ds)
  then show ?thesis by (intro pool_stepI [OF starts]) (simp_all add: running_def)
next
  case spawn_end
  then show ?thesis by (intro pool_stepI [OF works]) (simp_all add: running_def)
next
  case (task_runs i u h)
  then show ?thesis
    by (intro pool_stepI [OF works]) (simp_all add: process_job_runs running_def running_same del: mset_map)
next
  case (task_end i u h)
  with drop_running [OF task_end(3)] show ?thesis
    by (intro pool_stepI [OF ends]) (simp_all add: process_job_end finish_running del: mset_map)
next
  case (task_cancelled i w)
  with drop_running [OF task_cancelled(3)] show ?thesis
    by (intro pool_stepI [OF ends]) (simp_all add: finish_running del: mset_map)
next
  case (task_discard d)
  then show ?thesis by (intro pool_stepI [OF works]) (simp_all add: running_def)
next
  case (recovery rc now r w)
  then show ?thesis by (intro pool_stepI [OF works]) (simp_all add: running_def)
next
  case cancel_loop
  then show ?thesis by (intro pool_stepI [OF gives_up]) (simp_all add: running_def mode_of_open)
next
  case (cancel_reply now r w)
  then show ?thesis by (intro pool_stepI [OF gives_up]) (simp_all add: running_def)
next
  case draining
  then show ?thesis
  proof (cases rule: drain_step.cases)
    case request
    then show ?thesis by (intro pool_stepI [OF is_asked]) (simp_all add: running_def)
  next
    case drain_done
    then show ?thesis by (intro pool_stepI [OF is_drained]) (simp_all add: running_def)
  next
    case drain_timeout
    then show ?thesis by (intro pool_stepI [OF loses_patience]) (simp_all add: running_def)
  next
    case cancel_wait
    then show ?thesis by (intro pool_stepI [OF goes]) (simp_all add: running_def)
  next
    case cancel_drain
    then show ?thesis by (intro pool_stepI [OF breaks_off]) (auto simp: running_def)
  qed
qed

interpretation pool: refinement_map "worker_step c" "\<lambda>_. True" pool_step pool_of for c
  by unfold_locales (auto intro: worker_step_pool)

section \<open>Properties\<close>

lemma pool_of_start: "start_worker c w = Inr s \<Longrightarrow> pool_of s = new_pool (wc_concurrency c)"
  by (rule pool_eqI) (simp_all add: new_pool_def start_worker_simps)

text \<open>C12. The worker refines the pool: every run of a started worker is, event by event, a run of the pool
  of its concurrency, which ends in the abstraction of the worker's state. So it takes a batch only
  when the last one is started, starts in order and only with a free permit, stops taking batches
  only when asked or cancelled, and returns on its own only when nothing runs; free permits and
  running tasks together are always the concurrency.\<close>

theorem worker_implements_pool:
  assumes "start_worker c w = Inr s" "worker_run c s evs t"
  shows "run_of pool_step (new_pool (wc_concurrency c)) evs (pool_of t) \<and>
    permits t + length (running t) = wc_concurrency c"
proof -
  have run: "run_of pool_step (new_pool (wc_concurrency c)) evs (pool_of t)"
    using pool.run_abs [OF assms(2)] pool_of_start [OF assms(1)] by simp
  with pool_size.run_keeps [OF run, of "wc_concurrency c"] show ?thesis by (simp add: new_pool_def)
qed

theorem worker_implements_pool_witness:
  "\<exists>t. run_of pool_step (new_pool 1) demo_events (pool_of (t :: mem worker)) \<and> mode (pool_of t) = Returned"
proof -
  obtain s t where r: "start_worker demo_config busy_world = Inr s"
    "worker_run demo_config s demo_events t" "phase t = Stopped" using demo_run by blast
  from worker_implements_pool [OF r(1,2)] r(3) show ?thesis
    by (intro exI [of _ t]) (simp add: demo_config_def)
qed

end
