(* ===== verification/Keeps.thy ===== *)
theory Keeps
  imports Worker
begin

text \<open>
  What the operations keep of the server. Every operation of the program is a composition of
  client commands with effects that do not touch the server; so a predicate on the server's state
  that the commands keep is kept by the operations: by the pieces of a delivery, by an enqueue, and
  by every step of a worker.
\<close>

section \<open>Invariants of the server through the operations\<close>

definition keeps :: "('s \<Rightarrow> bool) \<Rightarrow> ('s, 'e, 'a) io \<Rightarrow> bool" where
  "keeps P m \<longleftrightarrow> (\<forall>s. P s \<longrightarrow> P (snd (m s)))"

lemma keepsD: "keeps P m \<Longrightarrow> P s \<Longrightarrow> m s = (res, s') \<Longrightarrow> P s'"
  by (force simp: keeps_def)

lemma keeps_basic [simp, intro]:
  "keeps P (io_ret a)" "keeps P (io_raise e)" "keeps P (io_lift r)"
  "keeps P (Pair res)"
  by (simp_all add: keeps_def)

lemma keeps_bind [intro]: "keeps P m \<Longrightarrow> (\<And>a. keeps P (f a)) \<Longrightarrow> keeps P (io_bind m f)"
  by (auto simp: keeps_def io_bind_def split: prod.split sum.split)

lemma keeps_swallow [intro]: "keeps P m \<Longrightarrow> keeps P (swallow m)"
  by (simp add: keeps_def swallow_snd)

abbreviation on_world :: "('r \<Rightarrow> bool) \<Rightarrow> 'r world \<Rightarrow> bool" where
  "on_world P \<equiv> \<lambda>w. P (server w)"

lemma keeps_on_server [intro]: "keeps P m \<Longrightarrow> keeps (on_world P) (on_server m)"
  by (auto simp: keeps_def on_server_def split: prod.split)

lemma keeps_world: "keeps (on_world P) m \<Longrightarrow> P (server w) \<Longrightarrow> P (server (snd (m w)))"
  by (simp add: keeps_def)

lemma keeps_note_status [simp, intro]: "keeps (on_world P) (note_status i st a)"
  by (simp add: keeps_def)

lemma keeps_noted [simp, intro]: "keeps (on_world P) (noted f)"
  by (simp add: keeps_def noted_eq)

text \<open>A delivery sends its dead-letter write while it buries, and \<open>XACK\<close> only of its own entry, while it
  acknowledges or releases it.\<close>

definition acks :: "stage \<Rightarrow> bool" where
  "acks st \<longleftrightarrow> st = Acking \<or> st = Releasing"

lemma acks_simps [simp]:
  "acks Acking" "acks Releasing" "\<not> acks Begin" "\<not> acks Handling" "\<not> acks (Burying reason)" "\<not> acks (Ended r)"
  by (simp_all add: acks_def)

definition entry_of :: "task \<Rightarrow> string" where
  "entry_of t = fst (snd (t_delivery t))"

lemma keeps_exec_send:
  assumes "\<And>j reason. keeps P (xadd_dlq (ex_redis x) (ex_prefix x) q j reason)"
    and "acks st \<Longrightarrow> keeps P (xack (ex_redis x) (ex_prefix x) q eid)" "P (server w)"
  shows "P (server (exec_send x q eid (st, j) w))"
  using assms keeps_world [OF keeps_on_server [OF assms(1)]] keeps_world [OF keeps_on_server [OF assms(2)]]
  by (cases st) simp_all

lemma keeps_go_on:
  assumes "\<And>j reason. keeps P (xadd_dlq (wc_redis c) (wc_prefix c) (wc_queue c) j reason)"
    and "acks (t_stage t) \<Longrightarrow> keeps P (xack (wc_redis c) (wc_prefix c) (wc_queue c) (entry_of t))"
    and "P (server w)"
  shows "P (server (snd (go_on c u h t w)))" "P (server (sent_by c t w))"
proof -
  show sent: "P (server (sent_by c t w))"
    unfolding sent_by_def entry_of_def [symmetric]
    by (rule keeps_exec_send) (simp_all add: executor_of_def new_executor_def assms)
  then show "P (server (snd (go_on c u h t w)))" by (simp add: go_on_server)
qed

lemma keeps_enqueue:
  assumes "keeps P (stream_length R px (queue j))"
    and "\<And>depth r r1. stream_length R px (queue j) r = (Inr depth, r1) \<Longrightarrow> depth < cap \<Longrightarrow> P r \<Longrightarrow> P r1 \<Longrightarrow>
      P (snd (xadd R px (queue j) (keyed_job key j) (cap + 1000) True r1))"
    and "P (server w)" "enqueue R px cap now None key j w = (res, j', w')"
  shows "P (server w')"
  using assms(4)
proof (cases rule: enqueue_cases)
  case (length_err e)
  then show ?thesis using assms(1,3) by (metis keepsD on_server_run)
next
  case (full depth)
  then show ?thesis using assms(1,3) by (metis keepsD on_server_run)
next
  case (key_err e depth w1)
  then have "P (server w1)" using assms(1,3) by (metis keepsD on_server_run)
  with check_key_frame(1) [OF key_err(5)] show ?thesis by simp
next
  case (outbox_err e depth w1 w2)
  then have "P (server w1)" using assms(1,3) by (metis keepsD on_server_run)
  moreover have "server w' = server w2" using outbox_err(6) by (cases rule: write_outbox_cases) simp_all
  ultimately show ?thesis using check_key_frame(1) [OF outbox_err(5)] by simp
next
  case (sent depth w1 w2 w3)
  then have len: "stream_length R px (queue j) (server w) = (Inr depth, server w1)"
    using on_server_run by metis
  with assms(1,3) have "P (server w1)" by (metis keepsD)
  moreover have "server w3 = server w2" using sent(5) by (cases rule: write_outbox_cases) simp_all
  moreover have "server w2 = server w1" using check_key_frame(1) [OF sent(4)] .
  moreover have "xadd R px (queue j) (keyed_job key j) (cap + 1000) True (server w3) = (res, server w')"
    using on_server_run [OF sent(6)] .
  ultimately show ?thesis using assms(2) [OF len sent(2) assms(3)] by (metis snd_conv)
qed


section \<open>A step of a worker\<close>

text \<open>Every command a running worker sends keeps \<open>P\<close>: all but the acknowledgements, and all.\<close>

definition quiet :: "'r redis \<Rightarrow> string \<Rightarrow> ('r \<Rightarrow> bool) \<Rightarrow> bool" where
  "quiet R px P \<longleftrightarrow>
     (\<forall>q. keeps P (stream_length R px q)) \<and>
     (\<forall>q j reason. keeps P (xadd_dlq R px q j reason)) \<and>
     (\<forall>now q wid m ms. keeps P (read_group R px now q wid m ms)) \<and>
     (\<forall>now rc q. keeps P (claim_stale R px now rc q))"

definition harmless :: "'r redis \<Rightarrow> string \<Rightarrow> ('r \<Rightarrow> bool) \<Rightarrow> bool" where
  "harmless R px P \<longleftrightarrow>
     quiet R px P \<and> (\<forall>q eid. keeps P (xack R px q eid))"

lemma keeps_recover_round: "(\<And>q. keeps P (claim_stale R px now rc q)) \<Longrightarrow> keeps P (recover_round R px now rc qs)"
  by (induction qs) (auto intro!: keeps_bind keeps_swallow)

lemma acks_over: "acks (t_stage t) \<Longrightarrow> over (fst (go_on c u h t w))"
  by (auto simp: acks_def go_on_def over_def note_dead_eq split: prod.splits sum.splits if_splits)

text \<open>An acknowledgement ends its task, and the step that sends it says so.\<close>

lemma keeps_step:
  assumes "quiet (wc_redis c) (wc_prefix c) P"
    and "\<And>t. t \<in> set (tasks s) \<Longrightarrow> acks (t_stage t) \<Longrightarrow> ev = Executed (t_delivery t) \<Longrightarrow>
      keeps P (xack (wc_redis c) (wc_prefix c) (wc_queue c) (entry_of t))"
    and "worker_step c s ev t" "P (server (world s))"
  shows "P (server (world t))"
proof -
  note T = assms(1) [unfolded quiet_def] and w = assms(4)
  have admit: "keeps (on_world P) (admit c)"
    using T unfolding admit_def check_def
    by (auto intro!: keeps_on_server keeps_bind split: option.split)
  have poll: "keeps (on_world P) (poll c now)" for now
    using T unfolding poll_def by (intro keeps_on_server) simp
  have rec: "keeps (on_world P) (on_server (recover_round (wc_redis c) (wc_prefix c) now rc qs))" for now rc qs
    using T by (intro keeps_on_server keeps_recover_round) simp
  have task: "P (server (snd (go_on c u h t w)))" "P (server (sent_by c t w))"
    if "t \<in> set (tasks s)" "acks (t_stage t) \<Longrightarrow> ev = Executed (t_delivery t)" "P (server w)" for u h t w
    by (rule keeps_go_on; use T assms(2) that in simp)+
  from assms(3,4) show ?thesis
  proof (cases rule: worker_step.cases)
    case (task_runs i u h)
    then have "\<not> acks (t_stage (tasks s ! i))" using acks_over by blast
    then have "P (server (snd (go_on c u h (tasks s ! i) (world s))))"
      by (intro task(1)) (use task_runs w in simp_all)
    with task_runs show ?thesis by (simp add: process_job_runs)
  next
    case (task_end i u h)
    then show ?thesis using task(1) [OF nth_mem _ w] by (simp add: process_job_end finish_task_def gauge_def)
  next
    case (task_cancelled i w)
    then show ?thesis using task(2) [OF nth_mem _ w] w by (auto simp: finish_task_def gauge_def)
  next
    case (admit_ok w)
    then show ?thesis using keepsD [OF admit w] by simp
  next
    case (admit_blocked e w)
    then show ?thesis using keepsD [OF admit w] by simp
  next
    case (poll_jobs now ds w)
    then show ?thesis using keepsD [OF poll w] by simp
  next
    case (poll_error now e w)
    then show ?thesis using keepsD [OF poll w] by simp
  next
    case (recovery rc now r w)
    from keepsD [OF rec w recovery(5)] recovery(2) show ?thesis by simp
  next
    case (cancel_reply now r w)
    then show ?thesis using keepsD [OF poll w] by simp
  qed (auto simp: spawn_def gauge_def elim!: drain_stepE)
qed

lemma keeps_worker_step:
  assumes "harmless (wc_redis c) (wc_prefix c) P" "worker_step c s ev t" "P (server (world s))"
  shows "P (server (world t))"
proof (rule keeps_step [where P = P])
  show "quiet (wc_redis c) (wc_prefix c) P" using assms(1) by (simp add: harmless_def)
  show "keeps P (xack (wc_redis c) (wc_prefix c) (wc_queue c) (entry_of u))" for u
    using assms(1) by (simp add: harmless_def)
qed (use assms(2,3) in simp_all)

end
