(* ===== verification/Saturation.thy ===== *)
theory Saturation
  imports Keeps
begin

text \<open>
  What a full stream does over time. The depth that \<open>Enqueuer\<close> and \<open>AdmissionController\<close> compare
  with their limits is \<open>XLEN\<close>, the number of entries in the stream. An acknowledgement does not
  remove an entry, and the program deletes entries of dead-letter streams only; so the depth never
  goes down. This theory carries that invariant through every operation of a worker and of the
  enqueuers beside it.
\<close>

section \<open>Commands that do not shorten a stream\<close>

text \<open>
  What the Redis documentation says of the length of a stream, for a length function \<open>len\<close> on keys:
  \<open>XLEN\<close> answers it; reading, acknowledging and claiming leave every length alone; \<open>XADD\<close> touches
  its own key only, which it trims no further than to its \<open>MAXLEN\<close>; \<open>XDEL\<close> touches its own key
  only.
\<close>

definition keeps_length :: "'r redis \<Rightarrow> (string \<Rightarrow> 'r \<Rightarrow> nat) \<Rightarrow> bool" where
  "keeps_length R len \<longleftrightarrow>
     (\<forall>k r. (\<forall>k'. len k' (snd (rc_xlen R k r)) = len k' r) \<and>
        (\<forall>n. fst (rc_xlen R k r) = Inr n \<longrightarrow> n = int (len k r))) \<and>
     (\<forall>g c ss n ms r k. len k (snd (rc_xreadgroup R g c ss n ms r)) = len k r) \<and>
     (\<forall>s g i r k. len k (snd (rc_xack R s g i r)) = len k r) \<and>
     (\<forall>s g c i st n r k. len k (snd (rc_xautoclaim R s g c i st n r)) = len k r) \<and>
     (\<forall>k kvs m a r k'. k' \<noteq> k \<longrightarrow> len k' (snd (rc_xadd R k kvs m a r)) = len k' r) \<and>
     (\<forall>k kvs m a r. min (len k r) (case m of None \<Rightarrow> len k r | Some b \<Rightarrow> nat b) \<le>
        len k (snd (rc_xadd R k kvs m a r))) \<and>
     (\<forall>k i r k'. k' \<noteq> k \<longrightarrow> len k' (snd (rc_xdel R k i r)) = len k' r)"

lemma keeps_lengthD:
  assumes "keeps_length R len"
  shows "len k' (snd (rc_xlen R k r)) = len k' r"
    and "fst (rc_xlen R k r) = Inr n \<Longrightarrow> n = int (len k r)"
    and "len k (snd (rc_xreadgroup R g c ss m ms r)) = len k r"
    and "len k (snd (rc_xack R s g i r)) = len k r"
    and "len k (snd (rc_xautoclaim R s g c idle st m r)) = len k r"
    and "k' \<noteq> k \<Longrightarrow> len k' (snd (rc_xadd R k kvs mx a r)) = len k' r"
    and "min (len k r) (case mx of None \<Rightarrow> len k r | Some b \<Rightarrow> nat b) \<le> len k (snd (rc_xadd R k kvs mx a r))"
    and "k' \<noteq> k \<Longrightarrow> len k' (snd (rc_xdel R k i r)) = len k' r"
  using assms by (simp_all add: keeps_length_def)

text \<open>A statement on the length of a queue's stream; that the stream holds at least \<open>n\<close> entries.\<close>

definition sized :: "(string \<Rightarrow> 'r \<Rightarrow> nat) \<Rightarrow> string \<Rightarrow> string \<Rightarrow> (nat \<Rightarrow> bool) \<Rightarrow> 'r \<Rightarrow> bool" where
  "sized len px q p r \<longleftrightarrow> p (len (stream_key px q) r)"

abbreviation long :: "(string \<Rightarrow> 'r \<Rightarrow> nat) \<Rightarrow> string \<Rightarrow> string \<Rightarrow> nat \<Rightarrow> 'r \<Rightarrow> bool" where
  "long len px q n \<equiv> sized len px q ((\<le>) n)"

lemma sized_harmless:
  assumes "keeps_length R len"
  shows "harmless R px (sized len px q p)"
    and "keeps (sized len px q p) (delete_dlq_entry R px q' eid)"
proof -
  note L = keeps_lengthD [OF assms]
  have "keeps (sized len px q p) (rc_xadd R (dlq_key px q') kvs None False)" for q' kvs
    by (simp add: keeps_def sized_def L(6))
  then have dlq: "keeps (sized len px q p) (xadd_dlq R px q' j reason)" for q' j reason
    unfolding xadd_dlq_def by (intro keeps_bind keeps_basic)
  have "keeps (sized len px q p) (rc_xreadgroup R g c ss m ms)" for g c ss m ms
    by (simp add: keeps_def sized_def L(3))
  then have read: "keeps (sized len px q p) (read_group R px now q' wid m ms)" for now q' wid m ms
    unfolding read_group_def by (intro keeps_bind keeps_basic)
  show "harmless R px (sized len px q p)"
    by (simp add: harmless_def quiet_def dlq read)
       (simp add: keeps_def sized_def stream_length_def xack_def claim_stale_server L(1,4,5))
  have "keeps (sized len px q p) (rc_xdel R (dlq_key px q') eid)"
    by (simp add: keeps_def sized_def L(8))
  then show "keeps (sized len px q p) (delete_dlq_entry R px q' eid)"
    unfolding delete_dlq_entry_def by (intro keeps_bind keeps_basic)
qed

lemma long_enqueue:
  assumes "keeps_length R len" "int n \<le> cap + 1000" "long len px q n (server w)"
    and "enqueue R px cap now None key j w = (res, j', w')"
  shows "long len px q n (server w')"
proof (rule keeps_enqueue [where P = "long len px q n" and w = w, OF _ _ assms(3,4)])
  show "keeps (long len px q n) (stream_length R px (queue j))"
    using sized_harmless(1) [OF assms(1)] by (simp add: harmless_def quiet_def)
next
  fix depth :: int and r r1
  assume r1: "long len px q n r1"
  note L = keeps_lengthD [OF assms(1)]
  show "long len px q n (snd (xadd R px (queue j) (keyed_job key j) (cap + 1000) True r1))"
  proof (cases "job_text (keyed_job key j)")
    case (Inl e)
    then show ?thesis using r1 by (simp add: xadd_def io_bind_def)
  next
    case (Inr body)
    let ?m = "if cap + 1000 \<noteq> 0 then Some (cap + 1000) else None"
    have x: "xadd R px (queue j) (keyed_job key j) (cap + 1000) True r1 =
        rc_xadd R (stream_key px (queue j)) [(''job'', body)] ?m (cap + 1000 \<noteq> 0) r1"
      using Inr by (simp add: xadd_def io_bind_def)
    show ?thesis
    proof (cases "queue j = q")
      case True
      have bound: "n \<le> nat (cap + 1000)" using assms(2) by linarith
      have "n \<le> min (len (stream_key px q) r1) (case ?m of None \<Rightarrow> len (stream_key px q) r1 | Some b \<Rightarrow> nat b)"
        using r1 bound by (simp add: sized_def)
      also have "\<dots> \<le> len (stream_key px q)
          (snd (rc_xadd R (stream_key px q) [(''job'', body)] ?m (cap + 1000 \<noteq> 0) r1))"
        by (rule L(7))
      finally show ?thesis using x True by (simp add: sized_def)
    next
      case False
      then show ?thesis using x r1 L(6) [of "stream_key px q" "stream_key px (queue j)"]
        by (simp add: sized_def)
    qed
  qed
qed

section \<open>A worker, the enqueuers beside it and the dead-letter clean-up\<close>

inductive system_run ::
    "'r worker_config \<Rightarrow> int \<Rightarrow> 'r worker \<Rightarrow> event list \<Rightarrow> 'r worker \<Rightarrow> bool" for c cap s where
  sys_start: "system_run c cap s [] s"
| sys_worker: "system_run c cap s evs t \<Longrightarrow> worker_step c t ev t' \<Longrightarrow>
    system_run c cap s (evs @ [ev]) t'"
| sys_enqueue: "system_run c cap s evs t \<Longrightarrow>
    enqueue (wc_redis c) (wc_prefix c) cap now None key j (world t) = (res, j', w) \<Longrightarrow>
    system_run c cap s evs (t\<lparr>world := w\<rparr>)"
| sys_delete: "system_run c cap s evs t \<Longrightarrow>
    on_server (delete_dlq_entry (wc_redis c) (wc_prefix c) q eid) (world t) = (res', w) \<Longrightarrow>
    system_run c cap s evs (t\<lparr>world := w\<rparr>)"

lemma sized_worker_step:
  assumes "keeps_length (wc_redis c) len" "worker_step c s ev t"
    and "sized len (wc_prefix c) q p (server (world s))"
  shows "sized len (wc_prefix c) q p (server (world t))"
  by (rule keeps_worker_step [where P = "sized len (wc_prefix c) q p" and s = s,
      OF sized_harmless(1) [OF assms(1)] assms(2,3)])

lemma long_system_run:
  assumes "keeps_length (wc_redis c) len" "int n \<le> cap + 1000" "system_run c cap s evs t"
    and "long len (wc_prefix c) q n (server (world s))"
  shows "long len (wc_prefix c) q n (server (world t))"
  using assms(3,4)
proof (induction rule: system_run.induct)
  case (sys_worker evs t ev t')
  then show ?case using sized_worker_step assms(1) by blast
next
  case (sys_enqueue evs t now key j res j' w)
  then show ?case using long_enqueue [OF assms(1,2)] by simp
next
  case (sys_delete evs t q' eid res' w)
  then show ?case
    using keepsD [OF keeps_on_server [OF sized_harmless(2) [OF assms(1)]]] by simp
qed

lemma step_blocked:
  assumes "keeps_length (wc_redis c) len" "worker_step c s ev t"
    and "wc_admission c = Some a" "long len (wc_prefix c) (wc_queue c) n (server (world s))" "ad_depth a \<le> int n"
    and "poll_budget (phase s) = 0 \<or> phase s = Admit" "backlog (phase s) = []"
  shows "(poll_budget (phase t) = 0 \<or> phase t = Admit) \<and> backlog (phase t) = [] \<and> polls [ev] = 0"
  using assms(2)
proof (cases rule: worker_step.cases)
  case (admit_ok w)
  let ?k = "stream_key (wc_prefix c) (wc_queue c)"
  obtain r s' where x: "rc_xlen (wc_redis c) ?k (server (world s)) = (r, s')" by fastforce
  from admit_ok(4) x assms(3) have "\<exists>d. r = Inr d \<and> d < ad_depth a"
    by (cases r) (auto simp: admit_def on_server_def check_def stream_length_def io_bind_def split: if_splits)
  moreover have "r = Inr d \<Longrightarrow> d = int (len ?k (server (world s)))" for d
    using keeps_lengthD(2) [OF assms(1)] x by (metis fst_conv)
  ultimately have "int (len ?k (server (world s))) < ad_depth a" by auto
  with assms(4,5) show ?thesis by (simp add: sized_def)
qed (use assms(6,7) in \<open>auto simp: poll_budget_def polls_def process_job_runs process_job_end
  elim!: drain_stepE\<close>)

section \<open>Properties\<close>

text \<open>The in-memory client of the witnesses behaves as documented.\<close>

lemma mem_keeps_length: "keeps_length mem_client (\<lambda>k r. length (streams r k))"
proof -
  have "streams (snd (rc_xreadgroup mem_client g c ss n ms r)) = streams r" for g c ss n ms r
    by (simp add: mem_client_def Let_def split: list.split)
  then show ?thesis by (simp add: keeps_length_def min.coboundedI1)
qed

text \<open>C24. A full queue stays full. Once a stream has reached the limit of the enqueuers, no run of the
  worker (jobs read, executed, acknowledged, recovered, dead-lettered), of other enqueues or of
  dead-letter deletions makes room: every later enqueue to the queue fails, with \<open>QueueFull\<close> where
  the length query is answered. Processing jobs does not drain the queue.\<close>

theorem full_queue_stays_full:
  assumes "keeps_length (wc_redis c) len" "system_run c cap s evs t"
    and "cap \<le> int (len (stream_key (wc_prefix c) (wc_queue c)) (server (world s)))"
    and "queue j = wc_queue c" "0 \<le> cap"
  shows "\<exists>e w'. enqueue (wc_redis c) (wc_prefix c) cap now None key j (world t) = (Inl e, j, w') \<and>
    ((\<exists>depth. e = QueueFull (queue j) depth cap) \<or>
     fst (rc_xlen (wc_redis c) (stream_key (wc_prefix c) (wc_queue c)) (server (world t))) = Inl e)"
proof -
  let ?k = "stream_key (wc_prefix c) (wc_queue c)"
  have "long len (wc_prefix c) (wc_queue c) (nat cap) (server (world s))"
    using assms(3,5) by (simp add: sized_def nat_le_iff)
  from long_system_run [OF assms(1) _ assms(2) this]
  have len: "cap \<le> int (len ?k (server (world t)))" using assms(5) by (simp add: sized_def nat_le_iff)
  obtain r s' where x: "rc_xlen (wc_redis c) ?k (server (world t)) = (r, s')" by fastforce
  show ?thesis
  proof (cases r)
    case (Inl e)
    with x assms(4) show ?thesis by (simp add: enqueue_def on_server_def stream_length_def)
  next
    case (Inr d)
    then have "d = int (len ?k (server (world t)))"
      using keeps_lengthD(2) [OF assms(1)] x by (metis fst_conv)
    with Inr len x assms(4) show ?thesis by (simp add: enqueue_def on_server_def stream_length_def)
  qed
qed

theorem full_queue_stays_full_witness:
  "\<exists>s t e w'. system_run demo_config 1 s demo_events t \<and>
     enqueue mem_client ''relayq'' 1 base_time None None (sample_job\<lparr>queue := ''default''\<rparr>) (world t) =
       (Inl e, sample_job\<lparr>queue := ''default''\<rparr>, w')"
proof -
  obtain s0 t0 where r: "start_worker demo_config busy_world = Inr s0"
    "worker_run demo_config s0 demo_events t0" using demo_run by blast
  have run: "worker_run c s evs t \<Longrightarrow> system_run c 1 s evs t" for c :: "mem worker_config" and s evs t
    by (induction rule: run_of.induct) (auto intro: sys_start sys_worker)
  obtain s1 where "start_worker demo_config busy_world = Inr s1"
    "streams (server (world s1)) = streams (mem_with ''default'' [demo_entry])" using demo_start by blast
  with r(1) have "streams (server (world s0)) = streams (mem_with ''default'' [demo_entry])" by simp
  then have full: "1 \<le> int (length (streams (server (world s0)) (stream_key (wc_prefix demo_config) (wc_queue demo_config))))"
    by (simp add: mem_with_def demo_config_def)
  have "keeps_length (wc_redis demo_config) (\<lambda>k r. length (streams r k))"
    using mem_keeps_length by (simp add: demo_config_def)
  from full_queue_stays_full [OF this run [OF r(2)] full, of "sample_job\<lparr>queue := ''default''\<rparr>" base_time None]
  have "\<exists>e w'. enqueue mem_client ''relayq'' 1 base_time None None (sample_job\<lparr>queue := ''default''\<rparr>) (world t0) =
      (Inl e, sample_job\<lparr>queue := ''default''\<rparr>, w')"
    by (auto simp: demo_config_def)
  with run [OF r(2)] show ?thesis by blast
qed

text \<open>C25. A worker that admission control stopped never resumes: once the stream is at the admission
  limit when the worker reaches its loop condition, it polls no further job, whatever else happens:
  its running tasks finish and are acknowledged, entries are claimed, other jobs are enqueued. (The
  default limits are 5000 for admission and 10000 for enqueues.)\<close>

theorem blocked_worker_never_resumes:
  assumes "keeps_length (wc_redis c) len" "system_run c cap s evs t" "phase s = Top"
    and "wc_admission c = Some a" "0 \<le> ad_depth a" "ad_depth a \<le> cap + 1000"
    and "ad_depth a \<le> int (len (stream_key (wc_prefix c) (wc_queue c)) (server (world s)))"
  shows "polls evs = 0"
proof -
  have start: "long len (wc_prefix c) (wc_queue c) (nat (ad_depth a)) (server (world s))"
    using assms(5,7) by (simp add: sized_def nat_le_iff)
  have n: "int (nat (ad_depth a)) \<le> cap + 1000" "ad_depth a \<le> int (nat (ad_depth a))" using assms(5,6) by simp_all
  have "(poll_budget (phase t) = 0 \<or> phase t = Admit) \<and> backlog (phase t) = [] \<and> polls evs = 0"
    using assms(2)
  proof (induction rule: system_run.induct)
    case sys_start
    with assms(3) show ?case by (simp add: poll_budget_def polls_def)
  next
    case (sys_worker evs t ev t')
    have "long len (wc_prefix c) (wc_queue c) (nat (ad_depth a)) (server (world t))"
      by (rule long_system_run [OF assms(1) n(1) sys_worker.hyps(1) start])
    with sys_worker.IH step_blocked [OF assms(1) sys_worker.hyps(2) assms(4) _ n(2)] show ?case
      by (simp add: polls_def)
  qed simp_all
  then show ?thesis by simp
qed

theorem blocked_worker_never_resumes_witness:
  "\<exists>s. system_run (demo_config\<lparr>wc_admission := Some (new_admission (Some 1) None)\<rparr>) 10 s ([] @ [Silent]) (s\<lparr>phase := Admit\<rparr>) \<and>
     polls ([] @ [Silent]) = 0"
proof -
  let ?c = "demo_config\<lparr>wc_admission := Some (new_admission (Some 1) None)\<rparr>"
  obtain s where s: "start_worker demo_config busy_world = Inr s"
    "streams (server (world s)) = streams (mem_with ''default'' [demo_entry])" using demo_start by blast
  note st = start_worker_simps [OF s(1)]
  have run: "system_run ?c 10 s ([] @ [Silent]) (s\<lparr>phase := Admit\<rparr>)"
    by (rule sys_worker [OF sys_start top_go]) (simp_all add: st)
  have len: "keeps_length (wc_redis ?c) (\<lambda>k r. length (streams r k))"
    using mem_keeps_length by (simp add: demo_config_def)
  have "polls ([] @ [Silent]) = 0"
    by (rule blocked_worker_never_resumes [OF len run, where a = "new_admission (Some 1) None"])
       (simp_all add: st s(2) mem_with_def demo_config_def new_admission_def)
  with run show ?thesis by blast
qed

end
