(* ===== verification/Fleet.thy ===== *)
theory Fleet
  imports Keeps "HOL-Library.Sublist"
begin

text \<open>
  Several workers on one queue. They are processes of their own that share nothing but the Redis
  server; a process may die at any moment, with everything it held in memory, and a new one may
  join at any moment. Beside them jobs are enqueued, to this queue or others, and dead letters deleted;
  of an enqueue the server sees the length query and the append (\<open>enq_step\<close>). Each step of a worker is
  a step of \<open>Worker\<close> at the shared server.
\<close>

section \<open>State and steps\<close>

record 'r fleet =
  shared :: 'r
  members :: "('r worker_config \<times> 'r worker) list"

datatype fleet_event = Joined | Crashed nat | Moved event | Sent job | Outside

definition at_server :: "'r \<Rightarrow> 'r worker \<Rightarrow> 'r worker" where
  "at_server r s = s\<lparr>world := (world s)\<lparr>server := r\<rparr>\<rparr>"

inductive fleet_step ::
    "'r redis \<Rightarrow> string \<Rightarrow> string \<Rightarrow> int \<Rightarrow> 'r fleet \<Rightarrow> fleet_event \<Rightarrow> 'r fleet \<Rightarrow> bool"
    for R px q cap where
  joins: "wc_redis c = R \<Longrightarrow> wc_prefix c = px \<Longrightarrow> wc_queue c = q \<Longrightarrow> server w = shared f \<Longrightarrow>
    start_worker c w = Inr s \<Longrightarrow>
    fleet_step R px q cap f Joined (f\<lparr>shared := server (world s), members := members f @ [(c, s)]\<rparr>)"
| crashes: "i < length (members f) \<Longrightarrow>
    fleet_step R px q cap f (Crashed i) (f\<lparr>members := drop_nth i (members f)\<rparr>)"
| moves: "i < length (members f) \<Longrightarrow> members f ! i = (c, s) \<Longrightarrow>
    worker_step c (at_server (shared f) s) ev t \<Longrightarrow>
    fleet_step R px q cap f (Moved ev)
      (f\<lparr>shared := server (world t), members := (members f)[i := (c, t)]\<rparr>)"
| measures: "stream_length R px q' (shared f) = (res, r) \<Longrightarrow>
    fleet_step R px q cap f Outside (f\<lparr>shared := r\<rparr>)"
| appends: "xadd R px (queue j) j (cap + 1000) True (shared f) = (res, r) \<Longrightarrow>
    fleet_step R px q cap f (Sent j) (f\<lparr>shared := r\<rparr>)"
| deletes: "delete_dlq_entry R px q' eid (shared f) = (res', r) \<Longrightarrow>
    fleet_step R px q cap f Outside (f\<lparr>shared := r\<rparr>)"

abbreviation fleet_run ::
    "'r redis \<Rightarrow> string \<Rightarrow> string \<Rightarrow> int \<Rightarrow> 'r fleet \<Rightarrow> fleet_event list \<Rightarrow> 'r fleet \<Rightarrow> bool" where
  "fleet_run R px q cap \<equiv> run_of (fleet_step R px q cap)"

lemmas fleet_nil = run_nil [where step = "fleet_step R px q cap" for R px q cap]
lemmas fleet_snoc = run_snoc [where step = "fleet_step R px q cap" for R px q cap]

inductive_cases fleet_stepE: "fleet_step R px q cap f ev g"

text \<open>What the workers read and executed, as entry ids.\<close>

definition ids :: "delivery list \<Rightarrow> string list" where
  "ids ds = map (\<lambda>d. fst (snd d)) ds"

definition worker_events :: "fleet_event list \<Rightarrow> event list" where
  "worker_events evs = concat (map (\<lambda>ev. case ev of Moved e \<Rightarrow> [e] | _ \<Rightarrow> []) evs)"

definition ids_polled :: "fleet_event list \<Rightarrow> string list" where
  "ids_polled evs = ids (polled (worker_events evs))"

definition ids_executed :: "fleet_event list \<Rightarrow> string list" where
  "ids_executed evs = ids (executed (worker_events evs))"

text \<open>The entries a worker has read and not executed to the end.\<close>

definition held :: "'r worker \<Rightarrow> delivery list" where
  "held s = running s @ backlog (phase s)"

definition held_by :: "('r worker_config \<times> 'r worker) list \<Rightarrow> delivery multiset" where
  "held_by ms = (\<Sum>m\<leftarrow>ms. mset (held (snd m)))"

lemma ids_simps [simp]: "ids [] = []" "ids (d # ds) = fst (snd d) # ids ds" "ids (ds @ ds') = ids ds @ ids ds'"
  by (simp_all add: ids_def)

lemma worker_events_simps [simp]:
  "worker_events [] = []" "worker_events (evs @ evs') = worker_events evs @ worker_events evs'"
  "worker_events (Joined # evs) = worker_events evs" "worker_events (Crashed i # evs) = worker_events evs"
  "worker_events (Moved e # evs) = e # worker_events evs" "worker_events (Outside # evs) = worker_events evs"
  "worker_events (Sent j # evs) = worker_events evs"
  by (simp_all add: worker_events_def)

lemma ids_events_simps [simp]:
  "ids_polled [] = []" "ids_polled (evs @ evs') = ids_polled evs @ ids_polled evs'"
  "ids_executed [] = []" "ids_executed (evs @ evs') = ids_executed evs @ ids_executed evs'"
  by (simp_all add: ids_polled_def ids_executed_def)

lemma mset_ids: "mset (ids ds) = image_mset (\<lambda>d. fst (snd d)) (mset ds)"
  by (simp add: ids_def)

lemma at_server_simps [simp]:
  "phase (at_server r s) = phase s" "tasks (at_server r s) = tasks s" "running (at_server r s) = running s"
  "server (world (at_server r s)) = r"
  by (simp_all add: at_server_def running_def)

lemma held_at_server [simp]: "held (at_server r s) = held s"
  by (simp add: held_def)

section \<open>Accounting across the fleet\<close>

lemma step_held:
  assumes "worker_step c s ev t"
  shows "mset (executed [ev]) + mset (held t) \<subseteq># mset (held s) + mset (polled [ev])"
proof -
  have "mset (executed [ev]) + mset (held t) = mset (running s) + (mset (started [ev]) + mset (backlog (phase t)))"
    using step_running [OF assms] by (simp add: held_def ac_simps)
  also have "\<dots> \<subseteq># mset (running s) + (mset (backlog (phase s)) + mset (polled [ev]))"
    using step_backlog(1) [OF assms] by simp
  finally show ?thesis by (simp add: held_def add.assoc)
qed

lemma held_by_simps [simp]:
  "held_by [] = {#}" "held_by (ms @ ms') = held_by ms + held_by ms'"
  "held_by (m # ms) = mset (held (snd m)) + held_by ms"
  by (simp_all add: held_by_def)

lemma held_by_nth:
  assumes "i < length ms"
  shows "held_by ms = mset (held (snd (ms ! i))) + held_by (drop_nth i ms)"
    and "held_by (ms[i := m]) = mset (held (snd m)) + held_by (drop_nth i ms)"
  unfolding held_by_def using sum_drop_nth [OF assms] by blast+

lemma fleet_step_held:
  assumes "fleet_step R px q cap f ev g"
  shows "mset (executed (worker_events [ev])) + held_by (members g) \<subseteq>#
    held_by (members f) + mset (polled (worker_events [ev]))"
  using assms
proof (cases rule: fleet_step.cases)
  case (joins c w s)
  have "held s = []" using start_worker_simps [OF joins(7)] by (simp add: held_def)
  with joins show ?thesis by simp
next
  case (crashes i)
  then show ?thesis using held_by_nth(1) [of i "members f"] by simp
next
  case (moves i c s e t)
  have "mset (executed [e]) + mset (held t) \<subseteq># mset (held s) + mset (polled [e])"
    using step_held [OF moves(5)] by simp
  then have "mset (executed [e]) + mset (held t) + held_by (drop_nth i (members f)) \<subseteq>#
      mset (held s) + mset (polled [e]) + held_by (drop_nth i (members f))"
    by (simp only: subset_mset.add_le_cancel_right)
  then show ?thesis using moves held_by_nth [of i "members f"] by (simp add: ac_simps)
qed simp_all

interpretation fleet_account: account "fleet_step R px q cap" "\<lambda>f. held_by (members f)"
  "\<lambda>ev. polled (worker_events [ev])" "\<lambda>ev. executed (worker_events [ev])" for R px q cap
  by unfold_locales (rule fleet_step_held)

lemma worker_events_concat:
  "concat (map (\<lambda>ev. polled (worker_events [ev])) evs) = polled (worker_events evs)"
  "concat (map (\<lambda>ev. executed (worker_events [ev])) evs) = executed (worker_events evs)"
proof (induction evs)
  case (Cons ev evs)
  have "worker_events (ev # evs) = worker_events [ev] @ worker_events evs" by (cases ev) simp_all
  with Cons show
    "concat (map (\<lambda>ev. polled (worker_events [ev])) (ev # evs)) = polled (worker_events (ev # evs))"
    "concat (map (\<lambda>ev. executed (worker_events [ev])) (ev # evs)) = executed (worker_events (ev # evs))"
    by (simp_all only: list.map concat.simps polled_append executed_append)
qed simp_all

lemma fleet_run_held:
  assumes "fleet_run R px q cap f evs g"
  shows "mset (executed (worker_events evs)) + held_by (members g) \<subseteq>#
    held_by (members f) + mset (polled (worker_events evs))"
  using fleet_account.run_account [OF assms] by (simp only: worker_events_concat)

lemma fleet_run_held_ids:
  assumes "fleet_run R px q cap f evs g"
  shows "mset (ids_executed evs) + image_mset (\<lambda>d. fst (snd d)) (held_by (members g)) \<subseteq>#
    image_mset (\<lambda>d. fst (snd d)) (held_by (members f)) + mset (ids_polled evs)"
  using image_mset_subseteq_mono [OF fleet_run_held [OF assms]]
  by (simp add: ids_executed_def ids_polled_def mset_ids)

section \<open>What a consumer group delivers\<close>

text \<open>
  A record \<open>D (stream, group) r\<close> of entry ids kept for each group, over the states \<open>ok\<close> the server can be
  in. A server \<open>logs\<close> it when no command the program sends, \<open>XACK\<close> apart, takes an id off it.
  What the Redis documentation says of the ids delivered to a group so far: \<open>XREADGROUP\<close> with the id
  \<open>>\<close> returns entries that were never delivered to the group before, and counts them as delivered;
  no command the program sends makes an entry undelivered again. (\<open>XDEL\<close> is asked only for other
  keys than the one deleted from: the program deletes from dead-letter streams.)
\<close>

definition reply_ids :: "(rtext \<times> entry list) list \<Rightarrow> string list" where
  "reply_ids rs = concat (map (\<lambda>(name, es). map fst es) rs)"

definition grows ::
    "('r \<Rightarrow> bool) \<Rightarrow> (string \<times> string \<Rightarrow> 'r \<Rightarrow> string set) \<Rightarrow> ('r, exn, 'a) io \<Rightarrow> bool" where
  "grows ok D m \<longleftrightarrow> (\<forall>r. ok r \<longrightarrow> ok (snd (m r)) \<and> (\<forall>k. D k r \<subseteq> D k (snd (m r))))"

definition logs ::
    "'r redis \<Rightarrow> ('r \<Rightarrow> bool) \<Rightarrow> (string \<times> string \<Rightarrow> 'r \<Rightarrow> string set) \<Rightarrow> bool" where
  "logs R ok D \<longleftrightarrow>
     (\<forall>g c s n ms. grows ok D (rc_xreadgroup R g c [(s, ''>'')] n ms)) \<and>
     (\<forall>s g i mk. grows ok D (rc_xgroup_create R s g i mk)) \<and>
     (\<forall>k. grows ok D (rc_xlen R k)) \<and>
     (\<forall>k kvs m a. grows ok D (rc_xadd R k kvs m a)) \<and>
     (\<forall>s g c idle st n. grows ok D (rc_xautoclaim R s g c idle st n)) \<and>
     (\<forall>s i r. ok r \<longrightarrow> ok (snd (rc_xdel R s i r)) \<and>
        (\<forall>s' g. s' \<noteq> s \<longrightarrow> D (s', g) r \<subseteq> D (s', g) (snd (rc_xdel R s i r))))"

definition delivers_once ::
    "'r redis \<Rightarrow> ('r \<Rightarrow> bool) \<Rightarrow> (string \<times> string \<Rightarrow> 'r \<Rightarrow> string set) \<Rightarrow> bool" where
  "delivers_once R ok D \<longleftrightarrow> logs R ok D \<and> (\<forall>s g i. grows ok D (rc_xack R s g i)) \<and>
     (\<forall>g c s n ms r rs r'. ok r \<longrightarrow> rc_xreadgroup R g c [(s, ''>'')] n ms r = (Inr rs, r') \<longrightarrow>
        distinct (reply_ids rs) \<and> set (reply_ids rs) \<inter> D (s, g) r = {} \<and>
        set (reply_ids rs) \<subseteq> D (s, g) r')"

lemma logsD:
  assumes "logs R ok D"
  shows "grows ok D (rc_xreadgroup R g c [(s, ''>'')] n ms)"
    and "grows ok D (rc_xgroup_create R s g i mk)"
    and "grows ok D (rc_xlen R k)"
    and "grows ok D (rc_xadd R k kvs m a)"
    and "grows ok D (rc_xautoclaim R s g c idle st n)"
    and "ok r \<Longrightarrow> ok (snd (rc_xdel R s i r))"
    and "ok r \<Longrightarrow> s' \<noteq> s \<Longrightarrow> D (s', g) r \<subseteq> D (s', g) (snd (rc_xdel R s i r))"
  using assms by (simp_all add: logs_def)

lemma delivers_onceD:
  assumes "delivers_once R ok D"
  shows "logs R ok D"
    and "grows ok D (rc_xack R s g i)"
    and "ok r \<Longrightarrow> rc_xreadgroup R g c [(s, ''>'')] n ms r = (Inr rs, r') \<Longrightarrow>
      distinct (reply_ids rs) \<and> set (reply_ids rs) \<inter> D (s, g) r = {} \<and> set (reply_ids rs) \<subseteq> D (s, g) r'"
  using assms by (simp_all add: delivers_once_def)

text \<open>The server is as documented and has the ids \<open>X\<close> on record for the group of the queue.\<close>

definition recorded ::
    "('r \<Rightarrow> bool) \<Rightarrow> (string \<times> string \<Rightarrow> 'r \<Rightarrow> string set) \<Rightarrow> string \<Rightarrow> string \<Rightarrow> string set \<Rightarrow> 'r \<Rightarrow> bool" where
  "recorded ok D px q X r \<longleftrightarrow> ok r \<and> X \<subseteq> D (stream_key px q, group_key px q) r"

lemma grows_keeps: "grows ok D m \<Longrightarrow> keeps (recorded ok D px q X) m"
  by (simp add: keeps_def grows_def recorded_def) (blast intro: order_trans)

text \<open>Every operation beside the acknowledgements and the appends keeps \<open>P\<close>.\<close>

definition tame :: "'r redis \<Rightarrow> string \<Rightarrow> ('r \<Rightarrow> bool) \<Rightarrow> bool" where
  "tame R px P \<longleftrightarrow> quiet R px P \<and> (\<forall>q. keeps P (ensure_group R px q)) \<and>
     (\<forall>q eid. keeps P (delete_dlq_entry R px q eid))"

lemma logs_tame:
  assumes "logs R ok D"
  shows "tame R px (recorded ok D px q X)"
proof -
  let ?P = "recorded ok D px q X"
  note log = logsD [OF assms]
  have del: "keeps ?P (rc_xdel R (dlq_key px q') i)" for q' i
    unfolding keeps_def recorded_def
  proof (intro allI impI conjI)
    fix r
    assume r: "ok r \<and> X \<subseteq> D (stream_key px q, group_key px q) r"
    then show "ok (snd (rc_xdel R (dlq_key px q') i r))" using log(6) by blast
    have "D (stream_key px q, group_key px q) r \<subseteq>
        D (stream_key px q, group_key px q) (snd (rc_xdel R (dlq_key px q') i r))"
      by (rule log(7)) (simp_all add: r)
    with r show "X \<subseteq> D (stream_key px q, group_key px q) (snd (rc_xdel R (dlq_key px q') i r))" by blast
  qed
  have "keeps ?P (xadd_dlq R px q j reason)" for q j reason
    unfolding xadd_dlq_def by (intro keeps_bind keeps_basic grows_keeps log(4))
  moreover have "keeps ?P (read_group R px now q wid m ms)" for now q wid m ms
    unfolding read_group_def by (intro keeps_bind keeps_basic grows_keeps log(1))
  moreover have "keeps ?P (claim_stale R px now rc q)" for now rc q
    using grows_keeps [OF log(5)] by (simp add: keeps_def claim_stale_server)
  moreover have "keeps ?P (delete_dlq_entry R px q eid)" for q eid
    unfolding delete_dlq_entry_def by (intro keeps_bind keeps_basic del)
  moreover have "snd (ensure_group R px q r) = snd (rc_xgroup_create R (stream_key px q) (group_key px q) ''0'' True r)"
    for q r
    by (simp add: ensure_group_def split: prod.split sum.split exn.split)
  then have "keeps ?P (ensure_group R px q)" for q
    using grows_keeps [OF log(2)] by (simp add: keeps_def)
  ultimately show ?thesis
    by (simp add: tame_def quiet_def stream_length_def grows_keeps log(3))
qed

lemma logs_xadd: "logs R ok D \<Longrightarrow> keeps (recorded ok D px q X) (xadd R px q' j maxlen a)"
  unfolding xadd_def by (intro keeps_bind keeps_basic grows_keeps logsD(4))

text \<open>What the steps of the fleet keep of the server.\<close>

definition configured :: "'r redis \<Rightarrow> string \<Rightarrow> string \<Rightarrow> 'r fleet \<Rightarrow> bool" where
  "configured R px q f \<longleftrightarrow>
     (\<forall>m\<in>set (members f). wc_redis (fst m) = R \<and> wc_prefix (fst m) = px \<and> wc_queue (fst m) = q)"

lemma configured_step:
  assumes "fleet_step R px q cap f ev g" "configured R px q f"
  shows "configured R px q g"
  using assms(1)
proof (cases rule: fleet_step.cases)
  case (moves i c s e t)
  then have "(c, s) \<in> set (members f)" by (metis nth_mem)
  with moves assms(2) show ?thesis
    using set_update_subset_insert [of "members f" i "(c, t)"] by (fastforce simp: configured_def)
qed (use assms(2) in \<open>auto simp: configured_def dest!: set_drop_nth [THEN subsetD]\<close>)

lemma keeps_fleet_step:
  assumes "tame R px P" "configured R px q f" "fleet_step R px q cap f ev g" "P (shared f)"
    and "\<And>c s t. (c, s) \<in> set (members f) \<Longrightarrow> t \<in> set (tasks s) \<Longrightarrow> acks (t_stage t) \<Longrightarrow>
      ev = Moved (Executed (t_delivery t)) \<Longrightarrow> keeps P (xack R px q (entry_of t))"
    and "\<And>j. ev = Sent j \<Longrightarrow> keeps P (xadd R px (queue j) j (cap + 1000) True)"
  shows "P (shared g)"
  using assms(3)
proof (cases rule: fleet_step.cases)
  case (joins c w s)
  obtain r w' where g: "on_server (ensure_group (wc_redis c) (wc_prefix c) (wc_queue c)) w = (r, w')"
    by fastforce
  then have "server (world s) = server w'"
    using joins(7) by (auto simp: start_worker_def split: sum.splits)
  moreover have "keeps P (ensure_group (wc_redis c) (wc_prefix c) (wc_queue c))"
    using assms(1) joins(3,4) by (simp add: tame_def)
  from keepsD [OF keeps_on_server [OF this] _ g] have "P (server w')" using joins(6) assms(4) by simp
  ultimately show ?thesis using joins(2) by simp
next
  case (moves i c s e t)
  then have c: "wc_redis c = R" "wc_prefix c = px" "wc_queue c = q"
    using assms(2) nth_mem [of i "members f"] by (auto simp: configured_def)
  have "P (server (world t))"
  proof (rule keeps_step [where P = P and s = "at_server (shared f) s"])
    show "quiet (wc_redis c) (wc_prefix c) P" using assms(1) c by (simp add: tame_def)
    show "keeps P (xack (wc_redis c) (wc_prefix c) (wc_queue c) (entry_of u))"
      if "u \<in> set (tasks (at_server (shared f) s))" "acks (t_stage u)" "e = Executed (t_delivery u)" for u
      using assms(5) [of c s u] moves(1,3,4) nth_mem [of i "members f"] that c by simp
  qed (use moves(5) assms(4) in simp_all)
  with moves(2) show ?thesis by simp
next
  case (measures q' res r)
  have "keeps P (stream_length R px q')" using assms(1) by (simp add: tame_def quiet_def)
  with keepsD [OF this assms(4)] measures show ?thesis by simp
next
  case (appends j res r)
  from keepsD [OF assms(6) [OF appends(1)] assms(4)] appends show ?thesis by simp
next
  case (deletes q' eid res' r)
  have "keeps P (delete_dlq_entry R px q' eid)" using assms(1) by (simp add: tame_def)
  with keepsD [OF this assms(4)] deletes show ?thesis by simp
qed (simp add: assms(4))

lemma delivered_ack:
  "delivers_once R ok D \<Longrightarrow> keeps (recorded ok D px q X) (xack R px q' eid)"
  by (simp add: xack_def grows_keeps delivers_onceD(2))

lemma delivered_step:
  assumes "delivers_once R ok D" "configured R px q f" "fleet_step R px q cap f ev g"
    and "recorded ok D px q X (shared f)"
  shows "recorded ok D px q X (shared g)"
  by (rule keeps_fleet_step [where P = "recorded ok D px q X", OF logs_tame [OF delivers_onceD(1) [OF assms(1)]] assms(2-4)])
     (rule delivered_ack [OF assms(1)] logs_xadd [OF delivers_onceD(1) [OF assms(1)]])+

text \<open>A poll reads ids of the reply, in order and each at most once.\<close>

lemma decode_entries_ids:
  "decode_entries now name es = Inr js \<Longrightarrow> subseq (ids js) (map fst es)"
proof (induction es arbitrary: js)
  case (Cons e es)
  then show ?case by (cases e) (auto simp: res_bind_Inr_conv split: option.splits)
qed simp

lemma decode_streams_ids:
  "decode_streams now rs = Inr js \<Longrightarrow> subseq (ids js) (reply_ids rs)"
proof (induction rs arbitrary: js)
  case (Cons r rs)
  then show ?case
    by (cases r) (auto simp: res_bind_Inr_conv reply_ids_def intro!: list_emb_append_mono dest: decode_entries_ids)
qed (simp add: reply_ids_def)

lemma polled_reply:
  assumes "worker_step c s ev t" "polled [ev] \<noteq> []"
  obtains now rs where "rc_xreadgroup (wc_redis c) (group_key (wc_prefix c) (wc_queue c))
      (consumer_name (wc_worker c)) [(stream_key (wc_prefix c) (wc_queue c), ''>'')]
      (wc_poll_batch c) (wc_poll_timeout c) (server (world s)) = (Inr rs, server (world t))"
    "decode_streams now rs = Inr (polled [ev])" "subseq (ids (polled [ev])) (reply_ids rs)"
  using assms(1)
proof (cases rule: worker_step.cases)
  case (poll_jobs now ds w)
  from on_server_run [OF poll_jobs(4) [unfolded poll_def]]
  obtain rs where "rc_xreadgroup (wc_redis c) (group_key (wc_prefix c) (wc_queue c))
      (consumer_name (wc_worker c)) [(stream_key (wc_prefix c) (wc_queue c), ''>'')]
      (wc_poll_batch c) (wc_poll_timeout c) (server (world s)) = (Inr rs, server w)"
    "decode_streams now rs = Inr ds"
    by (auto simp: read_group_def io_bind_def io_lift_def split: prod.splits sum.splits)
  with poll_jobs show ?thesis by (intro that [of rs now]) (auto dest: decode_streams_ids)
qed (use assms(2) in \<open>auto elim!: drain_stepE\<close>)

lemma step_polled_ids:
  assumes "delivers_once (wc_redis c) ok D" "worker_step c s ev t"
    and "recorded ok D (wc_prefix c) (wc_queue c) X (server (world s))"
    and "recorded ok D (wc_prefix c) (wc_queue c) X (server (world t))"
  shows "distinct (ids (polled [ev]))" "set (ids (polled [ev])) \<inter> X = {}"
    and "recorded ok D (wc_prefix c) (wc_queue c) (X \<union> set (ids (polled [ev]))) (server (world t))"
proof -
  let ?k = "(stream_key (wc_prefix c) (wc_queue c), group_key (wc_prefix c) (wc_queue c))"
  have "distinct (ids (polled [ev])) \<and> set (ids (polled [ev])) \<inter> X = {} \<and>
      set (ids (polled [ev])) \<subseteq> D ?k (server (world t))"
  proof (cases "polled [ev] = []")
    case False
    obtain rs where rs: "rc_xreadgroup (wc_redis c) (snd ?k) (consumer_name (wc_worker c)) [(fst ?k, ''>'')]
        (wc_poll_batch c) (wc_poll_timeout c) (server (world s)) = (Inr rs, server (world t))"
      and sub: "subseq (ids (polled [ev])) (reply_ids rs)"
      using polled_reply [OF assms(2) False] by auto
    have ok: "ok (server (world s))" "X \<subseteq> D ?k (server (world s))" using assms(3) by (simp_all add: recorded_def)
    have once: "distinct (reply_ids rs) \<and> set (reply_ids rs) \<inter> D ?k (server (world s)) = {} \<and>
        set (reply_ids rs) \<subseteq> D ?k (server (world t))"
      using delivers_onceD(3) [OF assms(1) ok(1)] rs by simp
    have set: "set (ids (polled [ev])) \<subseteq> set (reply_ids rs)" 
      using sub by (meson subseq_order.order_trans subseq_singleton_left subsetI)
    have "distinct (ids (polled [ev]))" using sub once by (metis distinct_nthsI subseq_conv_nths)
    with set once ok(2) show ?thesis by blast
  qed simp
  with assms(4) show "distinct (ids (polled [ev]))" "set (ids (polled [ev])) \<inter> X = {}"
    "recorded ok D (wc_prefix c) (wc_queue c) (X \<union> set (ids (polled [ev]))) (server (world t))"
    by (simp_all add: recorded_def)
qed

section \<open>A run of the fleet\<close>

lemma fleet_step_polled:
  assumes "delivers_once R ok D" "fleet_step R px q cap f ev g" "configured R px q f"
    and "recorded ok D px q X (shared f)"
  shows "distinct (ids_polled [ev]) \<and> set (ids_polled [ev]) \<inter> X = {} \<and>
    recorded ok D px q (X \<union> set (ids_polled [ev])) (shared g)"
proof -
  have keep: "recorded ok D px q X (shared g)" using delivered_step [OF assms(1,3,2,4)] .
  from assms(2) show ?thesis
  proof (cases rule: fleet_step.cases)
    case (moves i c s e t)
    have c: "wc_redis c = R" "wc_prefix c = px" "wc_queue c = q"
      using assms(3) moves(3,4) nth_mem [of i "members f"] by (auto simp: configured_def)
    have "recorded ok D (wc_prefix c) (wc_queue c) X (server (world (at_server (shared f) s)))"
      "recorded ok D (wc_prefix c) (wc_queue c) X (server (world t))"
      using assms(4) keep moves(2) c by simp_all
    from step_polled_ids [OF _ moves(5) this] assms(1) c show ?thesis
      by (simp add: moves(1,2) ids_polled_def)
  qed (use keep in \<open>simp_all add: ids_polled_def\<close>)
qed

lemma fleet_run_polled:
  assumes "delivers_once R ok D" "fleet_run R px q cap f evs g" "members f = []" "ok (shared f)"
  shows "distinct (ids_polled evs) \<and> recorded ok D px q (set (ids_polled evs)) (shared g) \<and> configured R px q g"
  using assms(2)
proof (induction rule: run_of.induct)
  case run_nil
  then show ?case using assms(3,4) by (simp add: recorded_def configured_def)
next
  case (run_snoc evs g ev h)
  then show ?case
    using fleet_step_polled [OF assms(1) run_snoc.hyps(2)] configured_step [OF run_snoc.hyps(2)]
    by (auto simp: ac_simps)
qed

text \<open>What a worker held when it crashed, nobody executes.\<close>

lemma crash_loses:
  assumes "delivers_once R ok D" "members f = []" "ok (shared f)"
    and "fleet_run R px q cap f evs g" "i < length (members g)" "eid \<in> set (ids (held (snd (members g ! i))))"
    and "fleet_step R px q cap g (Crashed i) g'" "fleet_run R px q cap g' evs' h"
  shows "eid \<notin> set (ids_executed (evs @ [Crashed i] @ evs'))" "eid \<in> set (ids_polled evs)"
    "fleet_run R px q cap f (evs @ [Crashed i] @ evs') h"
proof -
  let ?run = "evs @ [Crashed i] @ evs'"
  have "fleet_run R px q cap f (evs @ [Crashed i]) g'" using assms(4,7) by (rule fleet_snoc)
  from run_trans [OF assms(8) this] have run: "fleet_run R px q cap f ?run h" by simp
  have g': "members g' = drop_nth i (members g)" using assms(7) by (cases rule: fleet_step.cases) simp_all
  let ?lost = "mset (ids (held (snd (members g ! i))))" and ?i = "image_mset (\<lambda>d. fst (snd d))"
  have "mset (ids_executed ?run) + ?lost =
      mset (ids_executed evs) + ?lost + mset (ids_executed evs')"
    by (simp add: ids_executed_def)
  also have "\<dots> \<subseteq># mset (ids_executed evs) + ?lost + (?i (held_by (members g')) + mset (ids_polled evs'))"
    using fleet_run_held_ids [OF assms(8)] subset_mset.order_trans [OF mset_subset_eq_add_left] by simp
  also have "\<dots> = mset (ids_executed evs) + ?i (held_by (members g)) + mset (ids_polled evs')"
    using held_by_nth(1) [OF assms(5)] g' by (simp add: mset_ids ac_simps)
  also have "\<dots> \<subseteq># mset (ids_polled evs) + mset (ids_polled evs')"
    using fleet_run_held_ids [OF assms(4)] assms(2) by simp
  also have "\<dots> = mset (ids_polled ?run)" by (simp add: ids_polled_def)
  finally have "mset (ids_executed ?run @ ids (held (snd (members g ! i)))) \<subseteq># mset (ids_polled ?run)"
    by (simp add: add.assoc)
  moreover have "distinct (ids_polled ?run)"
    using fleet_run_polled [OF assms(1) run assms(2,3)] by simp
  ultimately have "distinct (ids_executed ?run @ ids (held (snd (members g ! i))))" by (rule distinct_submset)
  with assms(6) show "eid \<notin> set (ids_executed ?run)" by auto
  have "?lost \<subseteq># ?i (held_by (members g))" using held_by_nth(1) [OF assms(5)] by (simp add: mset_ids)
  also have "\<dots> \<subseteq># mset (ids_polled evs)"
    using fleet_run_held_ids [OF assms(4)] assms(2) subset_mset.order_trans [OF mset_subset_eq_add_right] by simp
  finally have "set (ids (held (snd (members g ! i)))) \<subseteq> set (ids_polled evs)"
    using set_mset_mono by fastforce
  then show "eid \<in> set (ids_polled evs)" using assms(6) by blast
  show "fleet_run R px q cap f ?run h" using run .
qed

section \<open>The in-memory client and a run for the witnesses\<close>

definition mem_ok :: "mem \<Rightarrow> bool" where
  "mem_ok m \<longleftrightarrow> (\<forall>k. distinct (map fst (streams m k)) \<and>
     (\<forall>e\<in>set (streams m k). \<exists>n<next_seq m. fst e = mem_id n))"

definition mem_delivered :: "string \<times> string \<Rightarrow> mem \<Rightarrow> string set" where
  "mem_delivered sg m = fst ` set (take (seen m sg) (streams m (fst sg)))"

lemma mem_okI:
  "(\<And>k. distinct (map fst (streams m k))) \<Longrightarrow>
   (\<And>k e. e \<in> set (streams m k) \<Longrightarrow> \<exists>n<next_seq m. fst e = mem_id n) \<Longrightarrow> mem_ok m"
  by (simp add: mem_ok_def)

lemma mem_okD:
  assumes "mem_ok m"
  shows "distinct (map fst (streams m k))"
    and "e \<in> set (streams m k) \<Longrightarrow> \<exists>n<next_seq m. fst e = mem_id n"
  using assms by (simp_all add: mem_ok_def)

lemma mem_id_inj [simp]: "mem_id m = mem_id n \<longleftrightarrow> m = n"
  by (simp add: mem_id_def)

lemma mem_reads_once:
  assumes "mem_ok m" "rc_xreadgroup mem_client g c [(s, i)] n ms m = (Inr rs, m')"
  shows "distinct (reply_ids rs) \<and> set (reply_ids rs) \<inter> mem_delivered (s, g) m = {} \<and>
    set (reply_ids rs) \<subseteq> mem_delivered (s, g) m'"
proof -
  let ?es = "streams m s" and ?a = "seen m (s, g)"
  let ?new = "take (nat n) (drop ?a ?es)"
  have d: "distinct (map fst ?es)" using assms(1) by (simp add: mem_ok_def)
  show ?thesis
  proof (cases "?new = []")
    case True
    with assms(2) show ?thesis by (auto simp: reply_ids_def)
  next
    case False
    then have "?a < length ?es" by auto
    with False have rs: "rs = [(RStr s, ?new)]" and m': "streams m' = streams m"
      "seen m' (s, g) = ?a + length ?new"
      using assms(2) by (auto simp: Let_def)
    have "take (length ?new) (drop ?a ?es) = ?new"
      by (metis append_eq_conv_conj append_take_drop_id)
    then have "take (?a + length ?new) ?es = take ?a ?es @ ?new"
      by (simp only: take_add)
    moreover have "distinct (map fst (take ?a ?es) @ map fst (drop ?a ?es))"
      using d by (simp only: map_append [symmetric] append_take_drop_id)
    then have "distinct (map fst ?new)" "set (map fst ?new) \<inter> set (map fst (take ?a ?es)) = {}"
      unfolding distinct_append take_map [symmetric]
      using set_take_subset [of "nat n" "map fst (drop ?a ?es)"] distinct_take by blast+
    ultimately show ?thesis using rs m' by (auto simp: reply_ids_def mem_delivered_def)
  qed
qed

lemma grows_mem:
  assumes "\<And>r. streams (snd (m r)) = streams r \<and> next_seq (snd (m r)) = next_seq r \<and>
    (\<forall>k. seen r k \<le> seen (snd (m r)) k)"
  shows "grows mem_ok mem_delivered m"
proof -
  have "fst ` set (take (seen r k) (streams r (fst k))) \<subseteq>
      fst ` set (take (seen (snd (m r)) k) (streams r (fst k)))" for r k
    using assms set_take_subset_set_take by (metis image_mono)
  with assms show ?thesis by (simp add: grows_def mem_ok_def mem_delivered_def)
qed

lemma mem_add_fresh:
  assumes "mem_ok m" "rc_xadd mem_client k kvs mx a m = (res, m')"
  shows "mem_ok m' \<and> mem_delivered sg m \<subseteq> mem_delivered sg m'"
proof -
  have fresh: "mem_id (next_seq m) \<notin> fst ` set (streams m k')" for k'
    using mem_okD(2) [OF assms(1)] by fastforce
  have m': "next_seq m' = Suc (next_seq m)" "seen m' = seen m"
    "streams m' = (streams m)(k := streams m k @ [(mem_id (next_seq m), sent_fields True kvs)])"
    using assms(2) by auto
  have "mem_ok m'"
  proof (rule mem_okI)
    show "distinct (map fst (streams m' k'))" for k'
      using mem_okD(1) [OF assms(1)] fresh by (simp add: m')
    show "\<exists>n<next_seq m'. fst e = mem_id n" if "e \<in> set (streams m' k')" for k' e
    proof (cases "e \<in> set (streams m k')")
      case True
      with mem_okD(2) [OF assms(1)] show ?thesis unfolding m'(1) by (meson less_SucI)
    next
      case False
      with that have "fst e = mem_id (next_seq m)" by (simp add: m' split: if_splits)
      then show ?thesis unfolding m'(1) by blast
    qed
  qed
  moreover have "mem_delivered sg m \<subseteq> mem_delivered sg m'"
    by (auto simp: mem_delivered_def m')
  ultimately show ?thesis by simp
qed

lemma mem_delivers_once: "delivers_once mem_client mem_ok mem_delivered"
  unfolding delivers_once_def logs_def
proof (intro conjI allI impI)
  fix s i s' g r
  assume ok: "mem_ok r"
  show "mem_ok (snd (rc_xdel mem_client s i r))"
  proof (rule mem_okI)
    show "distinct (map fst (streams (snd (rc_xdel mem_client s i r)) k))" for k
      using mem_okD(1) [OF ok] by (simp add: distinct_map_filter)
    show "\<exists>n<next_seq (snd (rc_xdel mem_client s i r)). fst e = mem_id n"
      if "e \<in> set (streams (snd (rc_xdel mem_client s i r)) k)" for k e
      using mem_okD(2) [OF ok, of e k] that by (simp split: if_splits)
  qed
  assume "s' \<noteq> s"
  then show "mem_delivered (s', g) r \<subseteq> mem_delivered (s', g) (snd (rc_xdel mem_client s i r))"
    by (simp add: mem_delivered_def)
next
  fix k kvs m a
  show "grows mem_ok mem_delivered (rc_xadd mem_client k kvs m a)"
    unfolding grows_def using mem_add_fresh by (metis prod.collapse)
qed (use mem_reads_once in \<open>auto intro!: grows_mem simp: Let_def\<close>)

lemma single_run:
  assumes "worker_run c s evs t" "members f = [(c, s)]" "shared f = server (world s)"
  shows "fleet_run R px q cap f (map Moved evs) (f\<lparr>shared := server (world t), members := [(c, t)]\<rparr>)"
  using assms(1)
proof (induction rule: run_of.induct)
  case run_nil
  have "f = f\<lparr>shared := server (world s), members := [(c, s)]\<rparr>" using assms(2,3) by simp
  then show ?case using run_nil by simp
next
  case (run_snoc evs t ev t')
  let ?g = "f\<lparr>shared := server (world t), members := [(c, t)]\<rparr>"
  have "at_server (shared ?g) t = t" by (simp add: at_server_def)
  with run_snoc.hyps(2) have "worker_step c (at_server (shared ?g) t) ev t'" by (simp only:)
  then have "fleet_step R px q cap ?g (Moved ev)
      (?g\<lparr>shared := server (world t'), members := (members ?g)[0 := (c, t')]\<rparr>)"
    by (intro moves) simp_all
  from fleet_snoc [OF run_snoc.IH this] show ?case by simp
qed

definition idle_fleet :: "mem fleet" where
  "idle_fleet = \<lparr>shared = server busy_world, members = []\<rparr>"

lemma mem_ok_idle: "mem_ok (shared idle_fleet)"
proof (rule mem_okI)
  have "''1-0'' = mem_id 1" by (simp add: mem_id_def nat_str_small digit_def char_of_def bit_0)
  then show "\<exists>n<next_seq (shared idle_fleet). fst e = mem_id n"
    if "e \<in> set (streams (shared idle_fleet) k)" for k e
    using that by (auto simp: idle_fleet_def busy_world_def mem_with_def demo_entry_def
      intro!: exI [of _ 1] split: if_splits)
qed (simp add: idle_fleet_def busy_world_def mem_with_def)

lemma demo_fleet_run:
  assumes "start_worker demo_config busy_world = Inr s" "worker_run demo_config s evs t"
  shows "\<exists>g. fleet_run mem_client ''relayq'' ''default'' cap idle_fleet ([Joined] @ map Moved evs) g \<and>
    members g = [(demo_config, t)] \<and> shared g = server (world t)"
proof -
  let ?f = "idle_fleet\<lparr>shared := server (world s), members := members idle_fleet @ [(demo_config, s)]\<rparr>"
  have "fleet_step mem_client ''relayq'' ''default'' cap idle_fleet Joined ?f"
    by (rule joins [OF _ _ _ _ assms(1)]) (simp_all add: demo_config_def idle_fleet_def)
  then have "fleet_run mem_client ''relayq'' ''default'' cap idle_fleet [Joined] ?f"
    using fleet_snoc [OF fleet_nil] by force
  from run_trans [OF single_run [OF assms(2)] this] show ?thesis
    by (auto simp: idle_fleet_def)
qed

lemma worker_events_moved [simp]: "worker_events (map Moved evs) = evs"
  by (induction evs) simp_all

section \<open>Properties\<close>

text \<open>C5. An entry is executed at most once. Whatever the workers of a queue do, however many join and
  die, with the recovery loop running or not: no entry of the stream is read twice by the fleet and
  none is executed twice, so an entry whose job failed is never executed again, although it stays
  pending for a retry.\<close>

theorem entry_executed_at_most_once:
  assumes "delivers_once R ok D" "members f = []" "ok (shared f)" "fleet_run R px q cap f evs g"
  shows "distinct (ids_executed evs) \<and> set (ids_executed evs) \<subseteq> set (ids_polled evs) \<and>
    distinct (ids_polled evs)"
proof -
  have d: "distinct (ids_polled evs)" using fleet_run_polled [OF assms(1,4,2,3)] by simp
  have sub: "mset (ids_executed evs) \<subseteq># mset (ids_polled evs)"
    using fleet_run_held_ids [OF assms(4)] assms(2) subset_mset.order_trans [OF mset_subset_eq_add_left]
    by simp
  then have "distinct (ids_executed evs)"
    using d by (rule distinct_submset)
  moreover have "set (ids_executed evs) \<subseteq> set (ids_polled evs)"
    using set_mset_mono [OF sub] by simp
  ultimately show ?thesis using d by simp
qed

theorem entry_executed_at_most_once_witness:
  "\<exists>g. fleet_run mem_client ''relayq'' ''default'' 10 idle_fleet ([Joined] @ map Moved demo_events) g \<and>
     ids_executed ([Joined] @ map Moved demo_events) = [''1-0''] \<and>
     distinct (ids_polled ([Joined] @ map Moved demo_events))"
proof -
  obtain s t where "start_worker demo_config busy_world = Inr s" "worker_run demo_config s demo_events t"
    using demo_run by blast
  then obtain g where g: "fleet_run mem_client ''relayq'' ''default'' 10 idle_fleet ([Joined] @ map Moved demo_events) g"
    using demo_fleet_run by blast
  have "members idle_fleet = []" by (simp add: idle_fleet_def)
  from entry_executed_at_most_once [OF mem_delivers_once this mem_ok_idle g] g show ?thesis
    by (auto simp: ids_executed_def demo_delivery_def)
qed

end
