(* ===== verification/Pending.thy ===== *)
theory Pending
  imports Fleet
begin

text \<open>
  What becomes of an entry once it is read. Redis keeps the entries delivered to a consumer group and
  not acknowledged as pending; the program acknowledges an entry only at the end of an execution that
  succeeded or buried its job. So every entry read is executed or still pending, and an entry whose
  worker crashed stays pending.
\<close>

section \<open>What a server keeps unacknowledged\<close>

text \<open>
  What the Redis documentation says of acknowledgements, over the set \<open>P (stream, group) r\<close> of the ids
  delivered to a group and not acknowledged (those of its pending list, and those trimmed from the
  stream while pending, which \<open>XAUTOCLAIM\<close> drops from the list): \<open>XREADGROUP\<close> adds what it returns and
  only \<open>XACK\<close> removes an id, the one it names.
\<close>

definition acks_explicitly ::
    "'r redis \<Rightarrow> ('r \<Rightarrow> bool) \<Rightarrow> (string \<times> string \<Rightarrow> 'r \<Rightarrow> string set) \<Rightarrow> bool" where
  "acks_explicitly R ok P \<longleftrightarrow> logs R ok P \<and>
     (\<forall>g c s n ms r rs r'. ok r \<longrightarrow> rc_xreadgroup R g c [(s, ''>'')] n ms r = (Inr rs, r') \<longrightarrow>
        set (reply_ids rs) \<subseteq> P (s, g) r') \<and>
     (\<forall>s g i r. ok r \<longrightarrow> ok (snd (rc_xack R s g i r)) \<and>
        (\<forall>k j. j \<in> P k r \<longrightarrow> (k, j) \<noteq> ((s, g), i) \<longrightarrow> j \<in> P k (snd (rc_xack R s g i r))))"

lemma acks_explicitlyD:
  assumes "acks_explicitly R ok P"
  shows "logs R ok P"
    and "ok r \<Longrightarrow> rc_xreadgroup R g c [(s, ''>'')] n ms r = (Inr rs, r') \<Longrightarrow> set (reply_ids rs) \<subseteq> P (s, g) r'"
    and "ok r \<Longrightarrow> ok (snd (rc_xack R s g i r))"
    and "ok r \<Longrightarrow> j \<in> P k r \<Longrightarrow> (k, j) \<noteq> ((s, g), i) \<Longrightarrow> j \<in> P k (snd (rc_xack R s g i r))"
  using assms unfolding acks_explicitly_def by blast+

lemma unacked_other:
  assumes "acks_explicitly R ok P" "eid \<notin> X"
  shows "keeps (recorded ok P px q X) (xack R px q eid)"
  unfolding keeps_def recorded_def xack_def
proof (intro allI impI conjI subsetI)
  fix r j
  assume r: "ok r \<and> X \<subseteq> P (stream_key px q, group_key px q) r"
  then show "ok (snd (rc_xack R (stream_key px q) (group_key px q) eid r))"
    using acks_explicitlyD(3) [OF assms(1)] by blast
  assume j: "j \<in> X"
  show "j \<in> P (stream_key px q, group_key px q) (snd (rc_xack R (stream_key px q) (group_key px q) eid r))"
    by (rule acks_explicitlyD(4) [OF assms(1)]) (use r j assms(2) in auto)
qed

lemma polled_unacked:
  assumes "acks_explicitly R ok P" "fleet_step R px q cap f ev g" "configured R px q f" "ok (shared f)"
  shows "set (ids_polled [ev]) \<subseteq> P (stream_key px q, group_key px q) (shared g)"
  using assms(2)
proof (cases rule: fleet_step.cases)
  case (moves i c s e t)
  have c: "wc_redis c = R" "wc_prefix c = px" "wc_queue c = q"
    using assms(3) moves(3,4) nth_mem [of i "members f"] by (auto simp: configured_def)
  show ?thesis
  proof (cases "polled [e] = []")
    case False
    obtain rs where rs: "rc_xreadgroup R (group_key px q) (consumer_name (wc_worker c)) [(stream_key px q, ''>'')]
        (wc_poll_batch c) (wc_poll_timeout c) (shared f) = (Inr rs, shared g)"
      and sub: "subseq (ids (polled [e])) (reply_ids rs)"
      using polled_reply [OF moves(5) False] c moves(2) by auto
    have "set (ids (polled [e])) \<subseteq> set (reply_ids rs)"
      using sub by (meson subseq_order.order_trans subseq_singleton_left subsetI)
    with acks_explicitlyD(2) [OF assms(1,4) rs] show ?thesis by (simp add: moves(1) ids_polled_def)
  qed (simp add: moves(1) ids_polled_def)
qed (simp_all add: ids_polled_def)

text \<open>A step takes off the record only what a task of it acknowledges.\<close>

lemma unacked_step:
  assumes "acks_explicitly R ok P" "fleet_step R px q cap f ev g" "configured R px q f"
    and "recorded ok P px q X (shared f)"
    and "\<And>c s t. (c, s) \<in> set (members f) \<Longrightarrow> t \<in> set (tasks s) \<Longrightarrow> acks (t_stage t) \<Longrightarrow>
      ev = Moved (Executed (t_delivery t)) \<Longrightarrow> entry_of t \<notin> X"
  shows "recorded ok P px q (X \<union> set (ids_polled [ev])) (shared g)"
proof -
  have "recorded ok P px q X (shared g)"
  proof (rule keeps_fleet_step [where P = "recorded ok P px q X", OF _ assms(3,2,4)])
    show "tame R px (recorded ok P px q X)" using logs_tame [OF acks_explicitlyD(1) [OF assms(1)]] .
    show "keeps (recorded ok P px q X) (xack R px q (entry_of t))"
      if "(c, s) \<in> set (members f)" "t \<in> set (tasks s)" "acks (t_stage t)" "ev = Moved (Executed (t_delivery t))"
      for c s t
      by (rule unacked_other [OF assms(1) assms(5) [OF that]])
    show "keeps (recorded ok P px q X) (xadd R px (queue j) j (cap + 1000) True)" for j
      by (rule logs_xadd [OF acks_explicitlyD(1) [OF assms(1)]])
  qed
  moreover have "ok (shared f)" using assms(4) by (simp add: recorded_def)
  ultimately show ?thesis using polled_unacked [OF assms(1-3)] by (simp add: recorded_def)
qed

lemma unacked_run:
  assumes "acks_explicitly R ok P" "fleet_run R px q cap f evs g" "configured R px q f" "ok (shared f)"
  shows "recorded ok P px q (set (ids_polled evs) - set (ids_executed evs)) (shared g) \<and> configured R px q g"
  using assms(2)
proof (induction rule: run_of.induct)
  case run_nil
  then show ?case using assms(3,4) by (simp add: recorded_def)
next
  case (run_snoc evs g ev h)
  let ?X = "set (ids_polled evs) - set (ids_executed (evs @ [ev]))"
  have "recorded ok P px q (?X \<union> set (ids_polled [ev])) (shared h)"
  proof (rule unacked_step [OF assms(1) run_snoc.hyps(2)])
    show "recorded ok P px q ?X (shared g)" using run_snoc.IH by (auto simp: recorded_def)
    show "entry_of t \<notin> ?X" if "ev = Moved (Executed (t_delivery t))" for t
      by (simp add: that ids_executed_def entry_of_def)
  qed (use run_snoc.IH in simp)
  then have "recorded ok P px q (set (ids_polled (evs @ [ev])) - set (ids_executed (evs @ [ev]))) (shared h)"
    by (auto simp: recorded_def)
  then show ?case using configured_step [OF run_snoc.hyps(2)] run_snoc.IH by simp
qed

section \<open>How an entry comes to be acknowledged\<close>

text \<open>A task about to acknowledge an entry.\<close>

definition settling :: "'r worker \<Rightarrow> string \<Rightarrow> bool" where
  "settling s eid \<longleftrightarrow> (\<exists>t\<in>set (tasks s). acks (t_stage t) \<and> entry_of t = eid)"

text \<open>
  What precedes it: the handler of a task for the entry returned, within the timeout, or the dead-letter
  entry of its job was written.
\<close>

inductive settles :: "'r fleet \<Rightarrow> string \<Rightarrow> 'r fleet \<Rightarrow> bool" where
  handled: "k < length (members f) \<Longrightarrow> members f ! k = (c, s) \<Longrightarrow> n < length (tasks s) \<Longrightarrow>
    entry_of (tasks s ! n) = eid \<Longrightarrow> t_stage (tasks s ! n) = Handling \<Longrightarrow>
    timed (wc_job_timeout c) (h (t_job (tasks s ! n))) = Inr () \<Longrightarrow>
    t = process_job c u h n (at_server (shared f) s) \<Longrightarrow>
    settles f eid (f\<lparr>shared := server (world t), members := (members f)[k := (c, t)]\<rparr>)"
| buried: "k < length (members f) \<Longrightarrow> members f ! k = (c, s) \<Longrightarrow> n < length (tasks s) \<Longrightarrow>
    entry_of (tasks s ! n) = eid \<Longrightarrow> t_stage (tasks s ! n) = Burying reason \<Longrightarrow>
    xadd_dlq (wc_redis c) (wc_prefix c) (wc_queue c) (t_job (tasks s ! n)) reason (shared f) = (Inr new, r) \<Longrightarrow>
    t = process_job c u h n (at_server (shared f) s) \<Longrightarrow>
    settles f eid (f\<lparr>shared := server (world t), members := (members f)[k := (c, t)]\<rparr>)"

lemma fail_step_acks: "\<not> acks (fst (fst (fail_step x u j e w)))"
  by (simp add: fail_step_def Let_def split: sum.split prod.split)

lemma exec_acks:
  assumes "acks (fst (fst (exec_step x q eid u h (st, j) w)))"
  shows "st = Handling \<and> timed (ex_timeout x) (h j) = Inr () \<or>
    (\<exists>reason new r. st = Burying reason \<and>
       xadd_dlq (ex_redis x) (ex_prefix x) q j reason (server w) = (Inr new, r))"
proof (cases st)
  case Handling
  have "timed (ex_timeout x) (h j) = Inr ()"
  proof (cases "timed (ex_timeout x) (h j)")
    case (Inl e)
    then have "\<not> acks (fst (fst (exec_step x q eid u h (Handling, j) w)))"
      by (simp add: exec_handling Let_def fail_step_acks split: option.split)
    with assms Handling show ?thesis by simp
  qed simp
  with Handling show ?thesis by simp
next
  case (Burying reason)
  obtain res r where r: "xadd_dlq (ex_redis x) (ex_prefix x) q j reason (server w) = (res, r)" by fastforce
  with assms Burying have "\<not> isl res" by (cases res) (auto simp: note_dead_eq on_server_def split: if_splits)
  with r Burying show ?thesis by (cases res) auto
next
  case Acking
  then show ?thesis using assms by (auto split: prod.splits sum.splits)
next
  case Releasing
  then show ?thesis using assms by (auto simp: note_dead_eq split: prod.splits sum.splits if_splits)
qed (use assms in \<open>auto split: prod.splits sum.splits\<close>)

lemma drop_nth_settling: "t \<in> set (drop_nth i ts) \<Longrightarrow> t \<in> set ts"
  by (rule subsetD [OF set_drop_nth])

lemma step_settling:
  assumes "worker_step c s ev t" "settling t eid" "\<not> settling s eid"
  obtains n u h where "n < length (tasks s)" "t = process_job c u h n s" "entry_of (tasks s ! n) = eid"
    "acks (t_stage (fst (go_on c u h (tasks s ! n) (world s))))"
  using assms(1)
proof (cases rule: worker_step.cases)
  case (task_runs i u h)
  let ?t = "fst (go_on c u h (tasks s ! i) (world s))"
  have "tasks t = (tasks s)[i := ?t]" using task_runs by (simp add: process_job_runs)
  then have "acks (t_stage ?t)" "entry_of ?t = eid"
    using assms(2,3) set_update_subset_insert [of "tasks s" i ?t] by (auto simp: settling_def)
  with task_runs show ?thesis by (intro that [of i u h]) (simp_all add: entry_of_def)
qed (use assms(2,3) in
  \<open>auto simp: settling_def process_job_end dest: drop_nth_settling elim!: drain_stepE\<close>)

lemma fleet_step_settles:
  assumes "fleet_step R px q cap f ev g" "\<exists>m\<in>set (members g). settling (snd m) eid"
    and "\<nexists>m. m \<in> set (members f) \<and> settling (snd m) eid"
  shows "settles f eid g"
  using assms(1)
proof (cases rule: fleet_step.cases)
  case (joins c w s)
  then have "\<not> settling s eid" using start_worker_simps(3) [OF joins(7)] by (simp add: settling_def)
  with joins(2) assms(2,3) show ?thesis by auto
next
  case (crashes i)
  then show ?thesis using assms(2,3) set_drop_nth [of i "members f"] by auto
next
  case (moves i c s e t)
  have not_s: "\<not> settling (at_server (shared f) s) eid"
    using assms(3) moves(3,4) nth_mem [of i "members f"] by (force simp: settling_def)
  have "settling t eid"
    using assms(2,3) moves(2) set_update_subset_insert [of "members f" i "(c, t)"] by auto
  from step_settling [OF moves(5) this not_s] obtain n u h where
    t: "n < length (tasks s)" "t = process_job c u h n (at_server (shared f) s)" "entry_of (tasks s ! n) = eid"
    and "acks (t_stage (fst (go_on c u h (tasks s ! n) (world (at_server (shared f) s)))))"
    by auto
  then have "acks (fst (fst (exec_step (executor_of c) (wc_queue c) (fst (snd (t_delivery (tasks s ! n)))) u h
      (t_stage (tasks s ! n), t_job (tasks s ! n)) (world (at_server (shared f) s)))))"
    by (simp add: go_on_def split: prod.splits)
  from exec_acks [OF this] show ?thesis
  proof (elim disjE conjE exE)
    assume "t_stage (tasks s ! n) = Handling" "timed (ex_timeout (executor_of c)) (h (t_job (tasks s ! n))) = Inr ()"
    then show ?thesis
      unfolding moves(2) by (intro handled [OF moves(3,4) t(1,3) _ _ t(2)]) (simp_all add: executor_of_def new_executor_def)
  next
    fix reason new r
    assume "t_stage (tasks s ! n) = Burying reason"
      "xadd_dlq (ex_redis (executor_of c)) (ex_prefix (executor_of c)) (wc_queue c) (t_job (tasks s ! n)) reason
         (server (world (at_server (shared f) s))) = (Inr new, r)"
    then show ?thesis
      unfolding moves(2) by (intro buried [OF moves(3,4) t(1,3) _ _ t(2)]) (simp_all add: executor_of_def new_executor_def)
  qed
qed (use assms(2,3) in auto)

text \<open>Along a run that settles nothing, an entry on the record stays there.\<close>

lemma settled_or_unacked:
  assumes "acks_explicitly R ok P" "fleet_run R px q cap f evs g" "members f = []" "ok (shared f)"
  shows "(\<exists>es u e v es'. evs = es @ e # es' \<and> fleet_run R px q cap f es u \<and> fleet_step R px q cap u e v \<and>
      settles u eid v \<and> fleet_run R px q cap v es' g) \<or>
    (\<nexists>m. m \<in> set (members g) \<and> settling (snd m) eid) \<and> configured R px q g \<and>
    recorded ok P px q ((P (stream_key px q, group_key px q) (shared f) \<union> set (ids_polled evs)) \<inter> {eid}) (shared g)"
    (is "?settled evs g \<or> ?still evs g")
  using assms(2)
proof (induction rule: run_of.induct)
  case run_nil
  then show ?case using assms(3,4) by (simp add: recorded_def configured_def)
next
  case (run_snoc evs g ev h)
  from run_snoc.IH show ?case
  proof
    assume "?settled evs g"
    then obtain es u e v es' where "evs = es @ e # es'" "fleet_run R px q cap f es u" "fleet_step R px q cap u e v"
      "settles u eid v" "fleet_run R px q cap v es' g"
      by blast
    moreover from this(5) run_snoc.hyps(2) have "fleet_run R px q cap v (es' @ [ev]) h" by (rule fleet_snoc)
    ultimately have "?settled (evs @ [ev]) h"
      by (intro exI [of _ es] exI [of _ u] exI [of _ e] exI [of _ v] exI [of _ "es' @ [ev]"]) simp
    then show ?thesis ..
  next
    assume still: "?still evs g"
    show ?thesis
    proof (cases "\<exists>m\<in>set (members h). settling (snd m) eid")
      case True
      have "settles g eid h" using fleet_step_settles [OF run_snoc.hyps(2) True] still by blast
      with run_snoc.hyps have "?settled (evs @ [ev]) h"
        by (intro exI [of _ evs] exI [of _ g] exI [of _ ev] exI [of _ h] exI [of _ "[]"]) simp
      then show ?thesis ..
    next
      case False
      let ?X = "(P (stream_key px q, group_key px q) (shared f) \<union> set (ids_polled evs)) \<inter> {eid}"
      have "recorded ok P px q (?X \<union> set (ids_polled [ev])) (shared h)"
      proof (rule unacked_step [OF assms(1) run_snoc.hyps(2)])
        show "configured R px q g" "recorded ok P px q ?X (shared g)" using still by simp_all
        show "entry_of t \<notin> ?X" if "(c, s) \<in> set (members g)" "t \<in> set (tasks s)" "acks (t_stage t)" for c s t
          using still that by (force simp: settling_def)
      qed
      then have "?still (evs @ [ev]) h"
        using False still configured_step [OF run_snoc.hyps(2)] by (auto simp: recorded_def)
      then show ?thesis ..
    qed
  qed
qed

section \<open>The in-memory client\<close>

definition mem_pending :: "string \<times> string \<Rightarrow> mem \<Rightarrow> string set" where
  "mem_pending sg m = set (pending m sg)"

lemma mem_acks_explicitly: "acks_explicitly mem_client mem_ok mem_pending"
proof -
  have grow: "grows mem_ok mem_pending m"
    if "grows mem_ok mem_delivered m" "\<And>r k. mem_pending k r \<subseteq> mem_pending k (snd (m r))" for m :: "(mem, exn, 'a) io"
    using that by (simp add: grows_def)
  note log = logsD [OF delivers_onceD(1) [OF mem_delivers_once]] and ack = delivers_onceD(2) [OF mem_delivers_once]
  have "logs mem_client mem_ok mem_pending"
    unfolding logs_def
    by (intro conjI allI impI grow log) (auto simp: mem_pending_def Let_def)
  moreover have "set (reply_ids rs) \<subseteq> mem_pending (s, g) r'"
    if "rc_xreadgroup mem_client g c [(s, ''>'')] n ms r = (Inr rs, r')" for g c s n ms r rs r'
    using that by (auto simp: Let_def reply_ids_def mem_pending_def image_iff split: if_splits) force+
  moreover have "mem_ok (snd (rc_xack mem_client s g i r))" if "mem_ok r" for s g i r
    using ack that unfolding grows_def by blast
  moreover have "j \<in> mem_pending k (snd (rc_xack mem_client s g i r))"
    if "j \<in> mem_pending k r" "(k, j) \<noteq> ((s, g), i)" for k j s g i r
    using that by (auto simp: mem_pending_def)
  ultimately show ?thesis unfolding acks_explicitly_def by blast
qed

section \<open>Properties\<close>

text \<open>C6. No entry is lost. Whatever the workers of a queue do, and however many join, crash or are cancelled:
  every entry a worker has read was executed to its end or is still unacknowledged at the server.\<close>

theorem read_is_executed_or_pending:
  assumes "acks_explicitly R ok P" "members f = []" "ok (shared f)" "fleet_run R px q cap f evs g"
  shows "set (ids_polled evs) \<subseteq> set (ids_executed evs) \<union> P (stream_key px q, group_key px q) (shared g)"
proof -
  have "configured R px q f" by (simp add: configured_def assms(2))
  from unacked_run [OF assms(1,4) this assms(3)] show ?thesis by (auto simp: recorded_def)
qed

theorem read_is_executed_or_pending_witness:
  "\<exists>evs g. fleet_run mem_client ''relayq'' ''default'' 10 idle_fleet evs g \<and> ids_polled evs = [''1-0''] \<and>
     ids_executed evs = [] \<and> ''1-0'' \<in> mem_pending (stream_key ''relayq'' ''default'', group_key ''relayq'' ''default'') (shared g)"
proof -
  let ?evs = "(([] @ [Silent]) @ [Silent]) @ [Polled [demo_delivery]]"
  obtain s t where "start_worker demo_config busy_world = Inr s" "worker_run demo_config s ?evs t"
    using demo_polled by blast
  then obtain g where g: "fleet_run mem_client ''relayq'' ''default'' 10 idle_fleet ([Joined] @ map Moved ?evs) g"
    using demo_fleet_run by blast
  have none: "members idle_fleet = []" by (simp add: idle_fleet_def)
  have evs: "ids_polled ([Joined] @ map Moved ?evs) = [''1-0'']" "ids_executed ([Joined] @ map Moved ?evs) = []"
    by (simp_all add: ids_polled_def ids_executed_def demo_delivery_def)
  from read_is_executed_or_pending [OF mem_acks_explicitly none mem_ok_idle g] evs
  have "''1-0'' \<in> mem_pending (stream_key ''relayq'' ''default'', group_key ''relayq'' ''default'') (shared g)" by simp
  with g evs show ?thesis by blast
qed

text \<open>C3. Nothing is acknowledged before its time. When an entry that was read, or was pending from the start,
  is no longer unacknowledged, then there was a step of some worker that settled it: the handler of a
  task for the entry returned in time, or the job of that task was written to the dead letters.\<close>

theorem acknowledged_only_when_settled:
  assumes "acks_explicitly R ok P" "members f = []" "ok (shared f)" "fleet_run R px q cap f evs g"
    and "eid \<in> P (stream_key px q, group_key px q) (shared f) \<union> set (ids_polled evs)"
    and "eid \<notin> P (stream_key px q, group_key px q) (shared g)"
  shows "\<exists>es u e v es'. evs = es @ e # es' \<and> fleet_run R px q cap f es u \<and> fleet_step R px q cap u e v \<and>
    settles u eid v \<and> fleet_run R px q cap v es' g"
  using settled_or_unacked [OF assms(1,4,2,3), of eid] assms(5,6) by (auto simp: recorded_def)

theorem acknowledged_only_when_settled_witness:
  "\<exists>g. fleet_run mem_client ''relayq'' ''default'' 10 idle_fleet ([Joined] @ map Moved demo_events) g \<and>
     (\<exists>es u e v es'. [Joined] @ map Moved demo_events = es @ e # es' \<and>
        fleet_run mem_client ''relayq'' ''default'' 10 idle_fleet es u \<and>
        fleet_step mem_client ''relayq'' ''default'' 10 u e v \<and> settles u ''1-0'' v \<and>
        fleet_run mem_client ''relayq'' ''default'' 10 v es' g)"
proof -
  obtain s t where t: "start_worker demo_config busy_world = Inr s" "worker_run demo_config s demo_events t"
    "''1-0'' \<notin> set (pending (server (world t)) (stream_key ''relayq'' ''default'', group_key ''relayq'' ''default''))"
    using demo_run by blast
  then obtain g where g: "fleet_run mem_client ''relayq'' ''default'' 10 idle_fleet ([Joined] @ map Moved demo_events) g"
    "shared g = server (world t)"
    using demo_fleet_run by blast
  have none: "members idle_fleet = []" by (simp add: idle_fleet_def)
  have read: "''1-0'' \<in> mem_pending (stream_key ''relayq'' ''default'', group_key ''relayq'' ''default'') (shared idle_fleet) \<union>
      set (ids_polled ([Joined] @ map Moved demo_events))"
    by (simp add: ids_polled_def demo_delivery_def)
  have "''1-0'' \<notin> mem_pending (stream_key ''relayq'' ''default'', group_key ''relayq'' ''default'') (shared g)"
    using t(3) g(2) by (simp add: mem_pending_def)
  from acknowledged_only_when_settled [OF mem_acks_explicitly none mem_ok_idle g(1) read this] g(1)
  show ?thesis by blast
qed

text \<open>C23. A crash strands what the worker held. An entry that a worker had read, and not executed to the end,
  when its process died is not executed by any worker afterwards, whatever the rest of the fleet and
  the recovery loops do, and never acknowledged: it stays pending for good. The comment on \<open>Executor\<close>
  promises the opposite (another worker will retry it).\<close>

theorem crashed_delivery_stays_pending:
  assumes "delivers_once R ok D" "acks_explicitly R ok P" "members f = []" "ok (shared f)"
    and "fleet_run R px q cap f evs g" "i < length (members g)" "eid \<in> set (ids (held (snd (members g ! i))))"
    and "fleet_step R px q cap g (Crashed i) g'" "fleet_run R px q cap g' evs' h"
  shows "eid \<notin> set (ids_executed (evs @ [Crashed i] @ evs')) \<and>
    eid \<in> P (stream_key px q, group_key px q) (shared h)"
proof -
  note lost = crash_loses [OF assms(1,3-9)]
  have "configured R px q f" by (simp add: configured_def assms(3))
  from unacked_run [OF assms(2) lost(3) this assms(4)] lost(1,2) show ?thesis
    by (auto simp: recorded_def)
qed

theorem crashed_delivery_stays_pending_witness:
  "\<exists>evs g h. fleet_run mem_client ''relayq'' ''default'' 10 idle_fleet evs g \<and>
     ids (held (snd (members g ! 0))) = [''1-0''] \<and> fleet_step mem_client ''relayq'' ''default'' 10 g (Crashed 0) h \<and>
     ''1-0'' \<notin> set (ids_executed (evs @ [Crashed 0] @ [])) \<and>
     ''1-0'' \<in> mem_pending (stream_key ''relayq'' ''default'', group_key ''relayq'' ''default'') (shared h)"
proof -
  let ?evs = "(([] @ [Silent]) @ [Silent]) @ [Polled [demo_delivery]]"
  obtain s t where t: "start_worker demo_config busy_world = Inr s" "worker_run demo_config s ?evs t"
    "phase t = Spawn [demo_delivery]" "tasks t = []"
    using demo_polled by blast
  then obtain g where g: "fleet_run mem_client ''relayq'' ''default'' 10 idle_fleet ([Joined] @ map Moved ?evs) g"
    "members g = [(demo_config, t)]"
    using demo_fleet_run by blast
  have held: "ids (held (snd (members g ! 0))) = [''1-0'']"
    using g(2) t(3,4) by (simp add: held_def running_def demo_delivery_def)
  have crash: "fleet_step mem_client ''relayq'' ''default'' 10 g (Crashed 0) (g\<lparr>members := drop_nth 0 (members g)\<rparr>)"
    by (rule crashes) (simp add: g(2))
  have "members idle_fleet = []" by (simp add: idle_fleet_def)
  from crashed_delivery_stays_pending
    [OF mem_delivers_once mem_acks_explicitly this mem_ok_idle g(1) _ _ crash fleet_nil, of "''1-0''"]
  have "''1-0'' \<notin> set (ids_executed (([Joined] @ map Moved ?evs) @ [Crashed 0] @ [])) \<and>
      ''1-0'' \<in> mem_pending (stream_key ''relayq'' ''default'', group_key ''relayq'' ''default'')
        (shared (g\<lparr>members := drop_nth 0 (members g)\<rparr>))"
    using g(2) held by simp
  with g(1) held crash show ?thesis by blast
qed

end
