(* ===== verification/Entries.thy ===== *)
theory Entries
  imports Fleet
begin

text \<open>
  Where the jobs the workers execute come from. A stream holds the entries that were appended to it,
  and a read returns some of them; so what a worker reads was sent by an enqueue, and since no entry
  is executed twice, neither is what one append sent.
\<close>

section \<open>What a server stores\<close>

text \<open>
  What the Redis documentation says of the entries \<open>E stream r\<close> appended to a stream so far (trimmed ones
  included): \<open>XADD\<close> adds one entry with a new id and the fields sent, in the form the client returns
  fields; \<open>XREADGROUP\<close> returns entries of the stream asked for; no other command of the program
  changes what was appended, where \<open>XDEL\<close> is asked for the other streams only.
\<close>

definition unchanged ::
    "('r \<Rightarrow> bool) \<Rightarrow> (string \<Rightarrow> 'r \<Rightarrow> entry set) \<Rightarrow> ('r, exn, 'a) io \<Rightarrow> bool" where
  "unchanged ok E m \<longleftrightarrow> (\<forall>r. ok r \<longrightarrow> ok (snd (m r)) \<and> (\<forall>k. E k (snd (m r)) = E k r))"

definition stores_entries ::
    "'r redis \<Rightarrow> ('r \<Rightarrow> bool) \<Rightarrow> (string \<Rightarrow> 'r \<Rightarrow> entry set) \<Rightarrow> bool" where
  "stores_entries R ok E \<longleftrightarrow>
     (\<forall>g c s n ms. unchanged ok E (rc_xreadgroup R g c [(s, ''>'')] n ms)) \<and>
     (\<forall>g c s n ms r rs r'. ok r \<longrightarrow> rc_xreadgroup R g c [(s, ''>'')] n ms r = (Inr rs, r') \<longrightarrow>
        set (concat (map snd rs)) \<subseteq> E s r) \<and>
     (\<forall>s g i mk. unchanged ok E (rc_xgroup_create R s g i mk)) \<and>
     (\<forall>k. unchanged ok E (rc_xlen R k)) \<and>
     (\<forall>s g i. unchanged ok E (rc_xack R s g i)) \<and>
     (\<forall>s g c idle st n. unchanged ok E (rc_xautoclaim R s g c idle st n)) \<and>
     (\<forall>s i r. ok r \<longrightarrow> ok (snd (rc_xdel R s i r)) \<and> (\<forall>s'. s' \<noteq> s \<longrightarrow> E s' (snd (rc_xdel R s i r)) = E s' r)) \<and>
     (\<forall>k kvs m a r. ok r \<longrightarrow> ok (snd (rc_xadd R k kvs m a r)) \<and>
        (\<forall>k'. k' \<noteq> k \<longrightarrow> E k' (snd (rc_xadd R k kvs m a r)) = E k' r) \<and>
        (E k (snd (rc_xadd R k kvs m a r)) = E k r \<or>
         (\<exists>i b. i \<notin> fst ` E k r \<and>
            E k (snd (rc_xadd R k kvs m a r)) = insert (i, sent_fields b kvs) (E k r))))"

lemma stores_entriesD:
  assumes "stores_entries R ok E"
  shows "unchanged ok E (rc_xreadgroup R g c [(s, ''>'')] n ms)"
    and "ok r \<Longrightarrow> rc_xreadgroup R g c [(s, ''>'')] n ms r = (Inr rs, r') \<Longrightarrow> set (concat (map snd rs)) \<subseteq> E s r"
    and "unchanged ok E (rc_xgroup_create R s g i mk)"
    and "unchanged ok E (rc_xlen R k)"
    and "unchanged ok E (rc_xack R s g i)"
    and "unchanged ok E (rc_xautoclaim R s g c idle st n)"
    and "ok r \<Longrightarrow> ok (snd (rc_xdel R s i r))"
    and "ok r \<Longrightarrow> s' \<noteq> s \<Longrightarrow> E s' (snd (rc_xdel R s i r)) = E s' r"
    and "ok r \<Longrightarrow> ok (snd (rc_xadd R k kvs m a r))"
    and "ok r \<Longrightarrow> k' \<noteq> k \<Longrightarrow> E k' (snd (rc_xadd R k kvs m a r)) = E k' r"
    and "ok r \<Longrightarrow> E k (snd (rc_xadd R k kvs m a r)) = E k r \<or>
      (\<exists>i b. i \<notin> fst ` E k r \<and> E k (snd (rc_xadd R k kvs m a r)) = insert (i, sent_fields b kvs) (E k r))"
  using assms unfolding stores_entries_def by - (elim conjE, (simp; fail | blast))+

text \<open>The server is as documented and the stream of the queue holds exactly the entries \<open>A\<close>.\<close>

definition has_entries ::
    "('r \<Rightarrow> bool) \<Rightarrow> (string \<Rightarrow> 'r \<Rightarrow> entry set) \<Rightarrow> string \<Rightarrow> string \<Rightarrow> entry set \<Rightarrow> 'r \<Rightarrow> bool" where
  "has_entries ok E px q A r \<longleftrightarrow> ok r \<and> E (stream_key px q) r = A"

lemma unchanged_keeps: "unchanged ok E m \<Longrightarrow> keeps (has_entries ok E px q A) m"
  by (simp add: keeps_def unchanged_def has_entries_def)

lemma stores_tame:
  assumes "stores_entries R ok E"
  shows "tame R px (has_entries ok E px q A)"
proof -
  let ?P = "has_entries ok E px q A"
  note st = stores_entriesD [OF assms]
  have del: "keeps ?P (rc_xdel R (dlq_key px q') i)" for q' i
    using st(7,8) by (simp add: keeps_def has_entries_def)
  have add: "keeps ?P (rc_xadd R (dlq_key px q') kvs m a)" for q' kvs m a
    using st(9,10) by (simp add: keeps_def has_entries_def)
  have "keeps ?P (xadd_dlq R px q j reason)" for q j reason
    unfolding xadd_dlq_def by (intro keeps_bind keeps_basic add)
  moreover have "keeps ?P (read_group R px now q wid m ms)" for now q wid m ms
    unfolding read_group_def by (intro keeps_bind keeps_basic unchanged_keeps st(1))
  moreover have "keeps ?P (claim_stale R px now rc q)" for now rc q
    using unchanged_keeps [OF st(6)] by (simp add: keeps_def claim_stale_server)
  moreover have "keeps ?P (delete_dlq_entry R px q eid)" for q eid
    unfolding delete_dlq_entry_def by (intro keeps_bind keeps_basic del)
  moreover have "snd (ensure_group R px q r) = snd (rc_xgroup_create R (stream_key px q) (group_key px q) ''0'' True r)"
    for q r
    by (simp add: ensure_group_def split: prod.split sum.split exn.split)
  then have "keeps ?P (ensure_group R px q)" for q
    using unchanged_keeps [OF st(3)] by (simp add: keeps_def)
  ultimately show ?thesis
    by (simp add: tame_def quiet_def stream_length_def unchanged_keeps st(4))
qed

section \<open>From an append to a read\<close>

text \<open>The jobs sent to a queue, in order.\<close>

definition sends :: "string \<Rightarrow> fleet_event \<Rightarrow> job list" where
  "sends q ev = (case ev of Sent j \<Rightarrow> if queue j = q then [j] else [] | _ \<Rightarrow> [])"

definition sent_to :: "string \<Rightarrow> fleet_event list \<Rightarrow> job list" where
  "sent_to q evs = concat (map (sends q) evs)"

text \<open>The stream holds one entry for each of some jobs, by id.\<close>

definition tracks ::
    "('r \<Rightarrow> bool) \<Rightarrow> (string \<Rightarrow> 'r \<Rightarrow> entry set) \<Rightarrow> string \<Rightarrow> string \<Rightarrow> (string \<times> job) list \<Rightarrow> 'r \<Rightarrow> bool" where
  "tracks ok E px q added r \<longleftrightarrow> distinct (map fst added) \<and>
     (\<exists>es. list_all2 carries es added \<and> has_entries ok E px q (set es) r)"

lemma carries_ids: "list_all2 carries es added \<Longrightarrow> map fst es = map fst added"
  by (induction rule: list_all2_induct) (simp_all add: carries_def)

lemma xadd_tracks:
  assumes "stores_entries R ok E" "tracks ok E px q added r" "wf_job j"
    and "xadd R px q j maxlen a r = (res, r')"
  shows "tracks ok E px q added r' \<or> (\<exists>i. tracks ok E px q (added @ [(i, j)]) r')"
proof (cases "job_text j")
  case (Inl e)
  with assms(2,4) show ?thesis by (simp add: xadd_def io_bind_def)
next
  case (Inr body)
  from assms(2) obtain es where es: "distinct (map fst added)" "list_all2 carries es added" "ok r"
    "E (stream_key px q) r = set es"
    by (auto simp: tracks_def has_entries_def)
  have r': "r' = snd (rc_xadd R (stream_key px q) [(''job'', body)]
      (if maxlen \<noteq> 0 then Some maxlen else None) (maxlen \<noteq> 0 \<and> a) r)"
    using assms(4) Inr by (simp add: xadd_def io_bind_def)
  have ok: "ok r'" unfolding r' by (rule stores_entriesD(9) [OF assms(1) es(3)])
  from stores_entriesD(11) [OF assms(1) es(3)]
  consider "E (stream_key px q) r' = set es"
    | i b where "i \<notin> fst ` set es" "E (stream_key px q) r' = insert (i, sent_fields b [(''job'', body)]) (set es)"
    unfolding r' es(4) [symmetric] by blast
  then show ?thesis
  proof cases
    case 1
    with es ok show ?thesis by (auto simp: tracks_def has_entries_def)
  next
    case (2 i b)
    have "carries (i, sent_fields b [(''job'', body)]) (i, j)"
      using assms(3) Inr by (auto simp: carries_def intro!: exI [of _ "[(''job'', body)]"])
    then have "list_all2 carries (es @ [(i, sent_fields b [(''job'', body)])]) (added @ [(i, j)])"
      using es(2) by (simp add: list_all2_appendI)
    moreover have "distinct (map fst (added @ [(i, j)]))"
      using es(1) 2(1) carries_ids [OF es(2)] by (simp flip: set_map)
    moreover have "has_entries ok E px q (set (es @ [(i, sent_fields b [(''job'', body)])])) r'"
      using ok 2(2) by (simp add: has_entries_def)
    ultimately show ?thesis unfolding tracks_def by blast
  qed
qed

text \<open>What is read is what was added, id and job.\<close>

lemma decode_entries_from:
  "decode_entries now name es = Inr ds \<Longrightarrow> d \<in> set ds \<Longrightarrow>
   \<exists>e\<in>set es. fst (snd d) = fst e \<and> decode_entry now (snd e) = Inr (Some (snd (snd d)))"
proof (induction es arbitrary: ds)
  case (Cons e es)
  then show ?case by (cases e) (fastforce simp: res_bind_Inr_conv split: option.splits)
qed simp

lemma decode_streams_from:
  "decode_streams now rs = Inr ds \<Longrightarrow> d \<in> set ds \<Longrightarrow>
   \<exists>e\<in>set (concat (map snd rs)). fst (snd d) = fst e \<and> decode_entry now (snd e) = Inr (Some (snd (snd d)))"
proof (induction rs arbitrary: ds)
  case (Cons r rs)
  then show ?case by (cases r) (fastforce simp: res_bind_Inr_conv dest: decode_entries_from)
qed simp

lemma tracks_decoded:
  assumes "tracks ok E px q added r" "e \<in> E (stream_key px q) r" "decode_entry now (snd e) = Inr (Some j)"
  shows "(fst e, j) \<in> set added"
proof -
  from assms(1) obtain es where es: "list_all2 carries es added" "E (stream_key px q) r = set es"
    by (auto simp: tracks_def has_entries_def)
  from assms(2) es(2) obtain n where n: "n < length es" "es ! n = e" by (auto simp: in_set_conv_nth)
  from list_all2_nthD [OF es(1) n(1)] n(2) have c: "carries e (added ! n)" by simp
  then have "carries e (fst e, snd (added ! n))" by (simp add: carries_def)
  from decode_entry_carries [OF this, of now] assms(3) have "j = snd (added ! n)" by simp
  with c have "(fst e, j) = added ! n" by (simp add: carries_def prod_eq_iff)
  then show ?thesis using n(1) list_all2_lengthD [OF es(1)] by simp
qed

lemma polled_tracked:
  assumes "stores_entries R ok E" "fleet_step R px q cap f ev g" "configured R px q f"
    and "tracks ok E px q added (shared f)" "d \<in> set (polled (worker_events [ev]))"
  shows "snd d \<in> set added"
  using assms(2)
proof (cases rule: fleet_step.cases)
  case (moves i c s e t)
  have c: "wc_redis c = R" "wc_prefix c = px" "wc_queue c = q"
    using assms(3) moves(3,4) nth_mem [of i "members f"] by (auto simp: configured_def)
  have d: "d \<in> set (polled [e])" using assms(5) moves(1) by simp
  then have some: "polled [e] \<noteq> []" by auto
  have shared: "shared g = server (world t)" using moves(2) by simp
  from polled_reply [OF moves(5) some] obtain now rs where reply: "rc_xreadgroup (wc_redis c)
      (group_key (wc_prefix c) (wc_queue c)) (consumer_name (wc_worker c))
      [(stream_key (wc_prefix c) (wc_queue c), ''>'')] (wc_poll_batch c) (wc_poll_timeout c)
      (server (world (at_server (shared f) s))) = (Inr rs, server (world t))"
    "decode_streams now rs = Inr (polled [e])" .
  have rs: "rc_xreadgroup R (group_key px q) (consumer_name (wc_worker c)) [(stream_key px q, ''>'')]
      (wc_poll_batch c) (wc_poll_timeout c) (shared f) = (Inr rs, shared g)"
    using reply(1) c shared by simp
  from decode_streams_from [OF reply(2) d] obtain en where en: "en \<in> set (concat (map snd rs))"
    "fst (snd d) = fst en" "decode_entry now (snd en) = Inr (Some (snd (snd d)))" by blast
  have "ok (shared f)" using assms(4) by (auto simp: tracks_def has_entries_def)
  from stores_entriesD(2) [OF assms(1) this rs] en(1) have "en \<in> E (stream_key px q) (shared f)" by blast
  from tracks_decoded [OF assms(4) this en(3)] have "(fst (snd d), snd (snd d)) \<in> set added" by (simp only: en(2))
  then show ?thesis by simp
qed (use assms(5) in simp_all)

lemma tracks_step:
  assumes "stores_entries R ok E" "fleet_step R px q cap f ev g" "configured R px q f"
    and "tracks ok E px q added (shared f)" "\<forall>j\<in>set (sends q ev). wf_job j"
  shows "\<exists>new. tracks ok E px q (added @ new) (shared g) \<and> mset (map snd new) \<subseteq># mset (sends q ev)"
proof (cases "\<exists>j. ev = Sent j \<and> queue j = q")
  case True
  then obtain j where j: "ev = Sent j" "queue j = q" by blast
  with assms(2) obtain res where "xadd R px q j (cap + 1000) True (shared f) = (res, shared g)"
    by (auto elim: fleet_step.cases)
  from xadd_tracks [OF assms(1,4) _ this] assms(5) j
  have "tracks ok E px q added (shared g) \<or> (\<exists>i. tracks ok E px q (added @ [(i, j)]) (shared g))"
    by (simp add: sends_def)
  then show ?thesis
  proof (elim disjE exE)
    assume "tracks ok E px q added (shared g)"
    then show ?thesis by (intro exI [of _ "[]"]) simp
  next
    fix i assume "tracks ok E px q (added @ [(i, j)]) (shared g)"
    with j show ?thesis by (intro exI [of _ "[(i, j)]"]) (simp add: sends_def)
  qed
next
  case False
  let ?P = "has_entries ok E px q (E (stream_key px q) (shared f))"
  have ok: "?P (shared f)" using assms(4) by (auto simp: tracks_def has_entries_def)
  have "?P (shared g)"
  proof (rule keeps_fleet_step [where P = ?P, OF stores_tame [OF assms(1)] assms(3,2) ok])
    show "keeps ?P (xack R px q (entry_of t))" for t
      unfolding xack_def by (intro unchanged_keeps stores_entriesD(5) [OF assms(1)])
    fix j assume "ev = Sent j"
    with False have "stream_key px q \<noteq> stream_key px (queue j)" by auto
    then have "keeps ?P (rc_xadd R (stream_key px (queue j)) kvs m a)" for kvs m a
      using stores_entriesD(9,10) [OF assms(1)] by (simp add: keeps_def has_entries_def)
    then show "keeps ?P (xadd R px (queue j) j (cap + 1000) True)"
      unfolding xadd_def by (intro keeps_bind keeps_basic)
  qed
  with assms(4) have "tracks ok E px q added (shared g)" by (auto simp: tracks_def has_entries_def)
  then show ?thesis by (intro exI [of _ "[]"]) simp
qed

lemma tracks_run:
  assumes "stores_entries R ok E" "fleet_run R px q cap f evs g" "configured R px q f"
    and "tracks ok E px q [] (shared f)" "\<forall>j\<in>set (sent_to q evs). wf_job j"
  shows "\<exists>added. tracks ok E px q added (shared g) \<and> mset (map snd added) \<subseteq># mset (sent_to q evs) \<and>
    snd ` set (polled (worker_events evs)) \<subseteq> set added \<and> configured R px q g"
  using assms(2,5)
proof (induction rule: run_of.induct)
  case run_nil
  then show ?case using assms(3,4) by (intro exI [of _ "[]"]) (simp add: sent_to_def)
next
  case (run_snoc evs g ev h)
  have wf: "\<forall>j\<in>set (sent_to q evs). wf_job j" "\<forall>j\<in>set (sends q ev). wf_job j"
    using run_snoc.prems by (auto simp: sent_to_def)
  from run_snoc.IH [OF wf(1)] obtain added where added: "tracks ok E px q added (shared g)"
    "mset (map snd added) \<subseteq># mset (sent_to q evs)" "snd ` set (polled (worker_events evs)) \<subseteq> set added"
    "configured R px q g"
    by blast
  from tracks_step [OF assms(1) run_snoc.hyps(2) added(4,1) wf(2)] obtain new where new:
    "tracks ok E px q (added @ new) (shared h)" "mset (map snd new) \<subseteq># mset (sends q ev)"
    by blast
  have "mset (map snd (added @ new)) \<subseteq># mset (sent_to q (evs @ [ev]))"
    using subset_mset.add_mono [OF added(2) new(2)] by (simp add: sent_to_def)
  moreover have "snd ` set (polled (worker_events (evs @ [ev]))) \<subseteq> set (added @ new)"
    using added(3) polled_tracked [OF assms(1) run_snoc.hyps(2) added(4,1)] by auto
  ultimately show ?case using new(1) configured_step [OF run_snoc.hyps(2) added(4)] by blast
qed

section \<open>The in-memory client\<close>

definition mem_entries :: "string \<Rightarrow> mem \<Rightarrow> entry set" where
  "mem_entries k m = set (streams m k)"

lemma mem_stores_entries: "stores_entries mem_client mem_ok mem_entries"
proof -
  note log = logsD [OF delivers_onceD(1) [OF mem_delivers_once]] and ack = delivers_onceD(2) [OF mem_delivers_once]
  have same: "unchanged mem_ok mem_entries m"
    if "grows mem_ok mem_delivered m" "\<And>r. streams (snd (m r)) = streams r" for m :: "(mem, exn, 'a) io"
    using that by (simp add: unchanged_def grows_def mem_entries_def)
  have reply: "set (concat (map snd rs)) \<subseteq> mem_entries s r"
    if "rc_xreadgroup mem_client g c [(s, ''>'')] n ms r = (Inr rs, r')" for g c s n ms r rs r'
    using that by (force simp: Let_def mem_entries_def split: if_splits dest!: in_set_takeD in_set_dropD)
  have fresh: "\<exists>i b. i \<notin> fst ` mem_entries k r \<and> mem_entries k (snd (rc_xadd mem_client k kvs m a r)) =
      insert (i, sent_fields b kvs) (mem_entries k r)" if "mem_ok r" for k kvs m a r
    using mem_okD(2) [OF that, of _ k]
    by (intro exI [of _ "mem_id (next_seq r)"] exI [of _ True]) (fastforce simp: mem_entries_def)
  have add: "mem_ok (snd (rc_xadd mem_client k kvs m a r))" if "mem_ok r" for k kvs m a r
    using log(4) that unfolding grows_def by blast
  show ?thesis
    unfolding stores_entries_def
    by (intro conjI allI impI same log ack)
       (use reply fresh add log(6) in \<open>auto simp: Let_def mem_entries_def split: if_splits\<close>)
qed

text \<open>The demo run, begun before the job was sent.\<close>

definition empty_fleet :: "mem fleet" where
  "empty_fleet = \<lparr>shared = mem_init, members = []\<rparr>"

lemma empty_fleet_simps [simp]: "shared empty_fleet = mem_init" "members empty_fleet = []"
  by (simp_all add: empty_fleet_def)

lemma mem_ok_init: "mem_ok mem_init"
  by (simp add: mem_ok_def)

definition demo_sent :: "fleet_event list" where
  "demo_sent = [Sent demo_job] @ [Joined] @ map Moved demo_events"

lemma demo_append: "snd (xadd mem_client ''relayq'' ''default'' demo_job n a mem_init) = server busy_world"
proof -
  have id: "mem_id (Suc 0) = ''1-0''" by (simp add: mem_id_def nat_str_small digit_def char_of_def bit_0)
  show ?thesis
    by (intro mem.equality)
       (simp_all add: xadd_def demo_text io_bind_def io_lift_def busy_world_def mem_with_def demo_entry_def id fun_eq_iff)
qed

lemma demo_sent_run:
  assumes "start_worker demo_config busy_world = Inr s" "worker_run demo_config s demo_events t"
  shows "\<exists>g. fleet_run mem_client ''relayq'' ''default'' 10 empty_fleet demo_sent g \<and>
    members g = [(demo_config, t)] \<and> shared g = server (world t)"
proof -
  obtain res where "xadd mem_client ''relayq'' (queue demo_job) demo_job (10 + 1000) True (shared empty_fleet) =
      (res, server busy_world)"
    using demo_append by (metis demo_job_simps(8) empty_fleet_simps(1) prod.collapse)
  from fleet_step.appends [OF this] have "fleet_step mem_client ''relayq'' ''default'' 10 empty_fleet (Sent demo_job) idle_fleet"
    by (simp add: idle_fleet_def empty_fleet_def)
  from fleet_snoc [OF fleet_nil this]
  have start: "fleet_run mem_client ''relayq'' ''default'' 10 empty_fleet [Sent demo_job] idle_fleet" by simp
  from demo_fleet_run [OF assms] obtain g where
    "fleet_run mem_client ''relayq'' ''default'' 10 idle_fleet ([Joined] @ map Moved demo_events) g"
    "members g = [(demo_config, t)]" "shared g = server (world t)" by blast
  with run_trans [OF this(1) start] show ?thesis unfolding demo_sent_def by blast
qed

lemma demo_sent_simps [simp]:
  "worker_events demo_sent = demo_events" "sent_to ''default'' demo_sent = [demo_job]"
proof -
  show "worker_events demo_sent = demo_events" by (simp add: demo_sent_def)
  have "concat (map (sends ''default'') (map Moved evs)) = []" for evs by (induction evs) (simp_all add: sends_def)
  then show "sent_to ''default'' demo_sent = [demo_job]" by (simp add: demo_sent_def sent_to_def sends_def)
qed

text \<open>Every execution is of a job that was sent, and no job is executed more often than it was sent: the jobs
  executed are, as a multiset, among those appended to the queue, with every field as the enqueue
  wrote it.\<close>

lemma executed_among_sent:
  assumes "delivers_once R ok D" "stores_entries R ok E" "members f = []" "ok (shared f)"
    and "E (stream_key px q) (shared f) = {}" "fleet_run R px q cap f evs g" "\<forall>j\<in>set (sent_to q evs). wf_job j"
  shows "mset (map (\<lambda>d. snd (snd d)) (executed (worker_events evs))) \<subseteq># mset (sent_to q evs)"
proof -
  let ?ds = "executed (worker_events evs)"
  have "configured R px q f" by (simp add: configured_def assms(3))
  moreover have "tracks ok E px q [] (shared f)" by (simp add: tracks_def has_entries_def assms(4,5))
  ultimately obtain added where added: "mset (map snd added) \<subseteq># mset (sent_to q evs)"
    "snd ` set (polled (worker_events evs)) \<subseteq> set added"
    using tracks_run [OF assms(2,6) _ _ assms(7)] by blast
  have sub: "mset ?ds \<subseteq># mset (polled (worker_events evs))"
    using fleet_run_held [OF assms(6)] assms(3) subset_mset.order_trans [OF mset_subset_eq_add_left] by simp
  have "mset (ids_executed evs) \<subseteq># mset (ids_polled evs)"
    using image_mset_subseteq_mono [OF sub] by (simp add: ids_executed_def ids_polled_def mset_ids)
  moreover have "distinct (ids_polled evs)" using fleet_run_polled [OF assms(1,6,3,4)] by simp
  ultimately have "distinct (ids ?ds)" unfolding ids_executed_def by (rule distinct_submset)
  then have "distinct (map fst (map snd ?ds))" by (simp add: ids_def comp_def)
  then have "distinct (map snd ?ds)" by (simp only: distinct_map)
  moreover have "set (map snd ?ds) \<subseteq> set added" using set_mset_mono [OF sub] added(2) by auto
  ultimately have "mset (map snd ?ds) \<subseteq># mset added" by (rule distinct_subset_mset)
  from image_mset_subseteq_mono [OF this, of snd] have "mset (map (\<lambda>d. snd (snd d)) ?ds) \<subseteq># mset (map snd added)"
    by (simp add: comp_def image_mset.compositionality)
  with added(1) show ?thesis by (rule subset_mset.order_trans [rotated])
qed

end
