(* ===== verification/Enqueuers.thy ===== *)
theory Enqueuers
  imports Saturation
begin

text \<open>
  Enqueues that run at the same time. \<open>Enqueuer.enqueue\<close> awaits twice, the length query and the
  append; other coroutines and other processes run in between. Here it is cut there, and any number
  of calls run beside each other and beside the workers.
\<close>

section \<open>The enqueuer and the pieces of a call\<close>

record 'r enqueuer =
  eq_redis :: "'r redis"
  eq_prefix :: string
  eq_depth :: int

text \<open>\<open>Enqueuer(...)\<close>: without a maximum depth, ten thousand. Its store is that of the world.\<close>

definition new_enqueuer :: "'r redis \<Rightarrow> string \<Rightarrow> int option \<Rightarrow> 'r enqueuer" where
  "new_enqueuer R px depth =
     \<lparr>eq_redis = R, eq_prefix = px, eq_depth = (case depth of None \<Rightarrow> 10000 | Some d \<Rightarrow> d)\<rparr>"

text \<open>Where a call is: awaiting the length, awaiting the append, or over.\<close>

datatype enq_stage = Measuring "string option" job | Sending job | Over "exn + string" job

definition enq_begin :: "(job \<Rightarrow> (exn + unit) \<times> job) option \<Rightarrow> string option \<Rightarrow> job \<Rightarrow> enq_stage" where
  "enq_begin validate key j =
     (case (case validate of None \<Rightarrow> (Inr (), j) | Some f \<Rightarrow> f j) of
        (Inl e, j) \<Rightarrow> Over (Inl e) j
      | (Inr _, j) \<Rightarrow> Measuring key j)"

text \<open>A piece: what the awaited command does and what the coroutine does up to its next await. The
  idempotency check and the outbox transaction await nothing.\<close>

fun enq_step :: "'r enqueuer \<Rightarrow> py_datetime \<Rightarrow> enq_stage \<Rightarrow> 'r world \<Rightarrow> enq_stage \<times> 'r world" where
  "enq_step x now (Measuring key j) w =
     (case on_server (stream_length (eq_redis x) (eq_prefix x) (queue j)) w of
        (Inl e, w) \<Rightarrow> (Over (Inl e) j, w)
      | (Inr depth, w) \<Rightarrow>
          if eq_depth x \<le> depth then (Over (Inl (QueueFull (queue j) depth (eq_depth x))) j, w)
          else
            (let j = keyed_job key j
             in case check_key now key w of
                  (Inl e, w) \<Rightarrow> (Over (Inl e) j, w)
                | (Inr _, w) \<Rightarrow> (case write_outbox j w of
                    (Inl e, w) \<Rightarrow> (Over (Inl e) j, w)
                  | (Inr _, w) \<Rightarrow> (Sending j, w))))"
| "enq_step x now (Sending j) w =
     (case on_server (xadd (eq_redis x) (eq_prefix x) (queue j) j (eq_depth x + 1000) True) w of
        (res, w) \<Rightarrow> (Over res j, w))"
| "enq_step x now (Over res j) w = (Over res j, w)"

section \<open>Calls beside each other\<close>

text \<open>A fixed number of callers, each in a call or between two; a call can be cancelled at an await.
  Each caller has its own database connection and metrics, of which nothing is assumed.\<close>

record 'r crowd =
  crowd_server :: 'r
  calls :: "enq_stage list"

definition awaiting :: "enq_stage \<Rightarrow> bool" where
  "awaiting t = (case t of Over _ _ \<Rightarrow> False | _ \<Rightarrow> True)"

inductive crowd_step :: "'r enqueuer \<Rightarrow> 'r crowd \<Rightarrow> 'r crowd \<Rightarrow> bool" for x where
  calls_again: "i < length (calls s) \<Longrightarrow> \<not> awaiting (calls s ! i) \<Longrightarrow>
    crowd_step x s (s\<lparr>calls := (calls s)[i := enq_begin validate key j]\<rparr>)"
| goes_on: "i < length (calls s) \<Longrightarrow> server w = crowd_server s \<Longrightarrow>
    enq_step x now (calls s ! i) w = (t, w') \<Longrightarrow>
    crowd_step x s (s\<lparr>crowd_server := server w', calls := (calls s)[i := t]\<rparr>)"
| gives_up: "i < length (calls s) \<Longrightarrow>
    crowd_step x s (s\<lparr>calls := (calls s)[i := Over (Inl CancelledError) j]\<rparr>)"
| works: "wc_redis c = eq_redis x \<Longrightarrow> wc_prefix c = eq_prefix x \<Longrightarrow> server (world v) = crowd_server s \<Longrightarrow>
    worker_step c v ev v' \<Longrightarrow> crowd_step x s (s\<lparr>crowd_server := server (world v')\<rparr>)"
| cleans: "delete_dlq_entry (eq_redis x) (eq_prefix x) q eid (crowd_server s) = (res, r) \<Longrightarrow>
    crowd_step x s (s\<lparr>crowd_server := r\<rparr>)"

definition crowd_run :: "'r enqueuer \<Rightarrow> 'r crowd \<Rightarrow> 'r crowd \<Rightarrow> bool" where
  "crowd_run x = (crowd_step x)\<^sup>*\<^sup>*"

section \<open>Laws\<close>

text \<open>The calls to a queue that have passed the depth check and not sent their entry.\<close>

definition sends_to :: "string \<Rightarrow> enq_stage \<Rightarrow> bool" where
  "sends_to q t = (case t of Sending j \<Rightarrow> queue j = q | _ \<Rightarrow> False)"

lemma sends_to_simps [simp]:
  "\<not> sends_to q (Measuring key j)" "sends_to q (Sending j) \<longleftrightarrow> queue j = q" "\<not> sends_to q (Over res j)"
  by (simp_all add: sends_to_def)

definition sending :: "string \<Rightarrow> enq_stage list \<Rightarrow> nat" where
  "sending q ts = length (filter (sends_to q) ts)"

text \<open>A run in which at no time more than \<open>n\<close> calls to \<open>q\<close> are between the depth check and the append.
  The number of callers is always such an \<open>n\<close>.\<close>

definition crowd_run_within :: "'r enqueuer \<Rightarrow> string \<Rightarrow> nat \<Rightarrow> 'r crowd \<Rightarrow> 'r crowd \<Rightarrow> bool" where
  "crowd_run_within x q n = (\<lambda>s t. crowd_step x s t \<and> sending q (calls t) \<le> n)\<^sup>*\<^sup>*"

lemma sending_update:
  assumes "i < length ts"
  shows "sending q (ts[i := t]) + of_bool (sends_to q (ts ! i)) = sending q ts + of_bool (sends_to q t)"
proof -
  have "sending q ts = sending q (take i ts) + of_bool (sends_to q (ts ! i)) + sending q (drop (Suc i) ts)"
    by (subst id_take_nth_drop [OF assms]) (simp add: sending_def)
  then show ?thesis by (simp add: upd_conv_take_nth_drop [OF assms] sending_def)
qed

lemma sending_le: "sending q ts \<le> length ts"
  by (simp add: sending_def)

lemma crowd_step_callers: "crowd_step x s t \<Longrightarrow> length (calls t) = length (calls s)"
  by (erule crowd_step.cases) simp_all

lemma crowd_run_within_callers:
  assumes "crowd_run x s t"
  shows "crowd_run_within x q (length (calls s)) s t"
proof -
  from assms have "crowd_run_within x q (length (calls s)) s t \<and> length (calls t) = length (calls s)"
    unfolding crowd_run_def
  proof (induction rule: rtranclp_induct)
    case (step t u)
    with crowd_step_callers [of x t u] sending_le [of q "calls u"] show ?case
      unfolding crowd_run_within_def by (auto intro: rtranclp.rtrancl_into_rtrancl)
  qed (simp add: crowd_run_within_def)
  then show ?thesis ..
qed

lemma enq_begin_quiet [simp]: "\<not> sends_to q (enq_begin validate key j)"
  by (simp add: enq_begin_def split: prod.split sum.split)

text \<open>The number of entries of a stream together with the entries on their way to it.\<close>

definition load :: "(string \<Rightarrow> 'r \<Rightarrow> nat) \<Rightarrow> string \<Rightarrow> string \<Rightarrow> 'r crowd \<Rightarrow> nat" where
  "load len px q s = len (stream_key px q) (crowd_server s) + sending q (calls s)"

text \<open>A piece leaves the sum alone, makes it smaller, or takes up a new entry below the limit.\<close>

lemma enq_step_load:
  assumes "keeps_length (eq_redis x) len" "adds_one (eq_redis x) len"
    and "enq_step x now t w = (t', w')"
  shows "len (stream_key (eq_prefix x) q) (server w') + of_bool (sends_to q t') \<le>
      len (stream_key (eq_prefix x) q) (server w) + of_bool (sends_to q t) \<or>
    (\<not> sends_to q t \<and> len (stream_key (eq_prefix x) q) (server w') = len (stream_key (eq_prefix x) q) (server w) \<and>
     int (len (stream_key (eq_prefix x) q) (server w)) < eq_depth x)"
proof (cases t)
  case (Measuring key j)
  note L = keeps_lengthD [OF assms(1)]
  obtain r s where m: "stream_length (eq_redis x) (eq_prefix x) (queue j) (server w) = (r, s)" by fastforce
  have len: "len k s = len k (server w)" for k
    using m L(1) by (metis snd_conv stream_length_def)
  show ?thesis
  proof (cases r)
    case (Inl e)
    then show ?thesis using assms(3) Measuring m len by (auto simp: on_server_def)
  next
    case (Inr depth)
    then have depth: "depth = int (len (stream_key (eq_prefix x) (queue j)) (server w))"
      using m L(2) by (metis fst_conv stream_length_def)
    show ?thesis
    proof (cases "eq_depth x \<le> depth")
      case True
      then show ?thesis using assms(3) Measuring m len Inr by (auto simp: on_server_def)
    next
      case False
      obtain r1 w1 where 1: "check_key now key (w\<lparr>server := s\<rparr>) = (r1, w1)" by fastforce
      obtain r2 w2 where 2: "write_outbox (keyed_job key j) w1 = (r2, w2)" by fastforce
      have s1: "server w1 = s" using check_key_frame(1) [OF 1] by simp
      have s2: "server w2 = server w1" using 2 by (cases rule: write_outbox_cases) simp_all
      have "(\<exists>e. t' = Over (Inl e) (keyed_job key j)) \<or> t' = Sending (keyed_job key j)" "server w' = s"
        using assms(3) Measuring m Inr False 1 2 s1 s2
        by (auto simp: on_server_def Let_def split: sum.splits)
      with len depth False Measuring show ?thesis by (auto simp: keyed_job_def)
    qed
  qed
next
  case (Sending j)
  obtain r s where m: "xadd (eq_redis x) (eq_prefix x) (queue j) j (eq_depth x + 1000) True (server w) = (r, s)"
    by fastforce
  have "len (stream_key (eq_prefix x) q) s \<le>
      len (stream_key (eq_prefix x) q) (server w) + of_bool (queue j = q)"
  proof (cases "job_text j")
    case (Inl e)
    with m show ?thesis by (simp add: xadd_def io_bind_def)
  next
    case (Inr body)
    with m have "rc_xadd (eq_redis x) (stream_key (eq_prefix x) (queue j)) [(''job'', body)]
        (if eq_depth x + 1000 \<noteq> 0 then Some (eq_depth x + 1000) else None) (eq_depth x + 1000 \<noteq> 0) (server w) = (r, s)"
      by (simp add: xadd_def io_bind_def)
    with assms(2) have "len (stream_key (eq_prefix x) (queue j)) s \<le> Suc (len (stream_key (eq_prefix x) (queue j)) (server w))"
      "\<And>k. k \<noteq> stream_key (eq_prefix x) (queue j) \<Longrightarrow> len k s = len k (server w)"
      unfolding adds_one_def by blast+
    then show ?thesis by (cases "queue j = q") auto
  qed
  with assms(3) Sending m show ?thesis by (auto simp: on_server_def)
next
  case (Over res j)
  with assms(3) show ?thesis by simp
qed

lemma crowd_step_load:
  assumes "keeps_length (eq_redis x) len" "adds_one (eq_redis x) len" "crowd_step x s t"
    and "int (load len (eq_prefix x) q s) \<le> eq_depth x + int n - 1" "sending q (calls t) \<le> n"
  shows "int (load len (eq_prefix x) q t) \<le> eq_depth x + int n - 1"
  using assms(3)
proof (cases rule: crowd_step.cases)
  case (calls_again i validate key j)
  then show ?thesis
    using assms(4) sending_update [OF calls_again(2), of q "enq_begin validate key j"]
    by (simp add: load_def)
next
  case (goes_on i w now st w')
  note up = sending_update [OF goes_on(2), of q st]
  show ?thesis
    using enq_step_load [OF assms(1,2) goes_on(4), of q]
  proof
    assume "len (stream_key (eq_prefix x) q) (server w') + of_bool (sends_to q st) \<le>
      len (stream_key (eq_prefix x) q) (server w) + of_bool (sends_to q (calls s ! i))"
    with up goes_on(1,3) assms(4) show ?thesis by (simp add: load_def)
  next
    assume new: "\<not> sends_to q (calls s ! i) \<and>
      len (stream_key (eq_prefix x) q) (server w') = len (stream_key (eq_prefix x) q) (server w) \<and>
      int (len (stream_key (eq_prefix x) q) (server w)) < eq_depth x"
    with assms(5) goes_on(1,3) show ?thesis by (simp add: load_def)
  qed
next
  case (gives_up i j)
  then show ?thesis
    using assms(4) sending_update [OF gives_up(2), of q "Over (Inl CancelledError) j"]
    by (simp add: load_def)
next
  case (works c v ev v')
  have "sized len (wc_prefix c) q ((=) (len (stream_key (wc_prefix c) q) (server (world v)))) (server (world v'))"
    by (rule sized_worker_step [OF _ works(5)]) (use assms(1) works(2) in \<open>simp_all add: sized_def\<close>)
  then show ?thesis using works assms(4) by (simp add: load_def sized_def)
next
  case (cleans q' eid res r)
  have "sized len (eq_prefix x) q ((=) (len (stream_key (eq_prefix x) q) (crowd_server s))) r"
    by (rule keepsD [OF sized_harmless(2) [OF assms(1)] _ cleans(2)]) (simp add: sized_def)
  then show ?thesis using cleans assms(4) by (simp add: load_def sized_def)
qed

lemma crowd_run_load:
  assumes "keeps_length (eq_redis x) len" "adds_one (eq_redis x) len" "crowd_run_within x q n s t"
    and "int (load len (eq_prefix x) q s) \<le> eq_depth x + int n - 1"
  shows "int (load len (eq_prefix x) q t) \<le> eq_depth x + int n - 1"
  using assms(3,4) unfolding crowd_run_within_def
  by (induction rule: rtranclp_induct) (blast intro: crowd_step_load [OF assms(1,2)])+

lemma load_start:
  assumes "list_all (\<lambda>t. \<not> sends_to q t) (calls s)" "0 < n"
    and "int (len (stream_key px q) (crowd_server s)) \<le> depth"
  shows "int (load len px q s) \<le> depth + int n - 1"
proof -
  have "sending q (calls s) = 0"
    using assms(1) by (simp add: sending_def list_all_iff)
  with assms(2,3) show ?thesis by (simp add: load_def)
qed

text \<open>The pieces of a call, run one after the other, are \<open>enqueue\<close>.\<close>

lemma enq_steps_enqueue:
  "(case enq_step x now (enq_begin validate key j) w of (t, w) \<Rightarrow> enq_step x now t w) =
   (case enqueue (eq_redis x) (eq_prefix x) (eq_depth x) now validate key j w of
      (res, j, w) \<Rightarrow> (Over res j, w))"
  by (auto simp: enq_begin_def enqueue_def Let_def split: prod.split sum.split)

section \<open>Two callers for the witnesses\<close>

definition demo_enqueuer :: "mem enqueuer" where
  "demo_enqueuer = new_enqueuer mem_client ''relayq'' (Some 1)"

definition demo_crowd :: "nat \<Rightarrow> mem crowd" where
  "demo_crowd n = \<lparr>crowd_server = mem_init, calls = replicate n (Over (Inr []) sample_job)\<rparr>"

lemma demo_pieces:
  assumes "streams (server w) (stream_key ''relayq'' (queue sample_job)) = []" "store w = None"
  shows "enq_step demo_enqueuer now (Measuring None sample_job) w = (Sending sample_job, w)"
  using assms
  by (simp add: demo_enqueuer_def new_enqueuer_def on_server_def stream_length_def check_key_def
    write_outbox_def keyed_job_def given_key_def)

lemma demo_send:
  "\<exists>res. enq_step demo_enqueuer now (Sending sample_job) w = (Over res sample_job, w\<lparr>server := (server w)
     \<lparr>next_seq := Suc (next_seq (server w)),
      known := List.insert (stream_key ''relayq'' (queue sample_job)) (known (server w)),
      streams := (streams (server w))(stream_key ''relayq'' (queue sample_job) :=
        streams (server w) (stream_key ''relayq'' (queue sample_job)) @
          [(mem_id (next_seq (server w)), sent_fields True [(''job'', sample_text)])])\<rparr>\<rparr>)"
  by (simp add: demo_enqueuer_def new_enqueuer_def on_server_def xadd_def io_bind_def sample_text)

text \<open>Both callers measure the empty stream, then both append to it.\<close>

lemma demo_overshoot:
  "\<exists>t. crowd_run demo_enqueuer (demo_crowd 2) t \<and>
     length (streams (crowd_server t) (stream_key ''relayq'' (queue sample_job))) = 2"
proof -
  let ?x = demo_enqueuer and ?k = "stream_key ''relayq'' (queue sample_job)"
  let ?o = "Over (Inr []) sample_job" and ?m = "Measuring None sample_job" and ?s = "Sending sample_job"
  let ?w = "\<lambda>r. \<lparr>server = r, store = None, metrics = []\<rparr>"
  have again: "enq_begin None None sample_job = ?m" by (simp add: enq_begin_def)
  have s1: "crowd_step ?x \<lparr>crowd_server = mem_init, calls = [?o, ?o]\<rparr> \<lparr>crowd_server = mem_init, calls = [?m, ?o]\<rparr>"
    using calls_again [of 0 "\<lparr>crowd_server = mem_init, calls = [?o, ?o]\<rparr>" ?x None None sample_job]
    by (simp add: again awaiting_def)
  have s2: "crowd_step ?x \<lparr>crowd_server = mem_init, calls = [?m, ?o]\<rparr> \<lparr>crowd_server = mem_init, calls = [?m, ?m]\<rparr>"
    using calls_again [of 1 "\<lparr>crowd_server = mem_init, calls = [?m, ?o]\<rparr>" ?x None None sample_job]
    by (simp add: again awaiting_def)
  have s3: "crowd_step ?x \<lparr>crowd_server = mem_init, calls = [?m, ?m]\<rparr> \<lparr>crowd_server = mem_init, calls = [?s, ?m]\<rparr>"
    using goes_on [of 0 "\<lparr>crowd_server = mem_init, calls = [?m, ?m]\<rparr>" "?w mem_init" ?x base_time ?s "?w mem_init"]
      demo_pieces [of "?w mem_init"] by simp
  have s4: "crowd_step ?x \<lparr>crowd_server = mem_init, calls = [?s, ?m]\<rparr> \<lparr>crowd_server = mem_init, calls = [?s, ?s]\<rparr>"
    using goes_on [of 1 "\<lparr>crowd_server = mem_init, calls = [?s, ?m]\<rparr>" "?w mem_init" ?x base_time ?s "?w mem_init"]
      demo_pieces [of "?w mem_init"] by simp
  obtain o1 w1 where w1: "enq_step ?x base_time ?s (?w mem_init) = (o1, w1)"
    "length (streams (server w1) ?k) = 1"
    using demo_send [of base_time "?w mem_init"] by auto
  have s5: "crowd_step ?x \<lparr>crowd_server = mem_init, calls = [?s, ?s]\<rparr> \<lparr>crowd_server = server w1, calls = [o1, ?s]\<rparr>"
    using goes_on [of 0 "\<lparr>crowd_server = mem_init, calls = [?s, ?s]\<rparr>" "?w mem_init" ?x base_time o1 w1] w1 by simp
  obtain o2 w2 where w2: "enq_step ?x base_time ?s (?w (server w1)) = (o2, w2)"
    "length (streams (server w2) ?k) = 2"
    using demo_send [of base_time "?w (server w1)"] w1(2) by auto
  have s6: "crowd_step ?x \<lparr>crowd_server = server w1, calls = [o1, ?s]\<rparr> \<lparr>crowd_server = server w2, calls = [o1, o2]\<rparr>"
    using goes_on [of 1 "\<lparr>crowd_server = server w1, calls = [o1, ?s]\<rparr>" "?w (server w1)" ?x base_time o2 w2] w2
    by simp
  have "crowd_run ?x (demo_crowd 2) \<lparr>crowd_server = server w2, calls = [o1, o2]\<rparr>"
    unfolding crowd_run_def demo_crowd_def
    using s1 s2 s3 s4 s5 s6 by (simp add: numeral_2_eq_2)
  with w2(2) show ?thesis by (intro exI [of _ "\<lparr>crowd_server = server w2, calls = [o1, o2]\<rparr>"]) simp
qed

section \<open>Properties\<close>

text \<open>C16. The limit is passed by no more than the calls that are past the depth check at the same
  time, less one. When at no time of a run more than \<open>n\<close> calls of \<open>enqueue\<close> to a queue are between
  their depth check and their append, a stream that starts within the limit never holds more than
  the limit and \<open>n - 1\<close> entries, whatever the workers and the dead-letter clean-up do beside them. One
  call at a time keeps the limit; two can exceed it, since the length is checked one await before
  the append.\<close>

theorem concurrent_enqueues_bound:
  assumes "keeps_length (eq_redis x) len" "adds_one (eq_redis x) len"
    and "list_all (\<lambda>t. \<not> sends_to q t) (calls s)" "0 < n"
    and "int (len (stream_key (eq_prefix x) q) (crowd_server s)) \<le> eq_depth x"
    and "crowd_run_within x q n s t"
  shows "int (len (stream_key (eq_prefix x) q) (crowd_server t)) \<le> eq_depth x + int n - 1"
proof -
  have "int (load len (eq_prefix x) q s) \<le> eq_depth x + int n - 1"
    by (rule load_start) (rule assms(3-5))+
  from crowd_run_load [OF assms(1,2,6) this] show ?thesis by (simp add: load_def)
qed

theorem concurrent_enqueues_bound_witness:
  "\<exists>t. crowd_run_within demo_enqueuer (queue sample_job) 2 (demo_crowd 2) t \<and>
     length (streams (crowd_server t) (stream_key ''relayq'' (queue sample_job))) = 2 \<and>
     int (length (streams (crowd_server t) (stream_key ''relayq'' (queue sample_job)))) \<le> eq_depth demo_enqueuer + 2 - 1"
proof -
  obtain t where t: "crowd_run demo_enqueuer (demo_crowd 2) t"
    "length (streams (crowd_server t) (stream_key ''relayq'' (queue sample_job))) = 2"
    using demo_overshoot by blast
  have run: "crowd_run_within demo_enqueuer (queue sample_job) 2 (demo_crowd 2) t"
    using crowd_run_within_callers [OF t(1), of "queue sample_job"] by (simp add: demo_crowd_def)
  have x: "eq_redis demo_enqueuer = mem_client" "eq_prefix demo_enqueuer = ''relayq''" "eq_depth demo_enqueuer = 1"
    by (simp_all add: demo_enqueuer_def new_enqueuer_def)
  from concurrent_enqueues_bound [OF _ _ _ _ _ run, where len = "\<lambda>k r. length (streams r k)"] run t
  show ?thesis
    by (auto simp: x mem_keeps_length mem_adds_one demo_crowd_def)
qed

end
