(* ===== verification/Producers.thy ===== *)
theory Producers
  imports Enqueuers SharedStore
begin

text \<open>
  Enqueue calls of many threads and processes with one outbox database and one server. A call awaits
  the length of the stream, looks its key up, runs its transaction on the connection of its thread
  statement by statement, and awaits the append. Calls on one connection and statements of different
  connections come in any order, a status update or the end of a thread or process between any two
  of them.
\<close>

section \<open>State and steps\<close>

text \<open>Where a call is: awaiting the length, before the key is looked up, before the transaction, inside it,
  awaiting the append.\<close>

datatype call =
  Measures "string option" job | Looks "string option" job | Enters job | Inside job | Appends job

record 'r site =
  site_server :: 'r
  site_db :: shared_db
  site_calls :: "(nat \<times> call) list"

datatype site_event = Stored shared_event | Measured | Appended job | Other | Elsewhere

text \<open>The world as a query of connection i sees it: a \<open>SELECT\<close> waits for no lock.\<close>

definition world_of :: "nat \<Rightarrow> 'r site \<Rightarrow> 'r world" where
  "world_of i s = \<lparr>server = site_server s, store = Some ((view i (site_db s))\<lparr>locks := []\<rparr>), metrics = []\<rparr>"

definition goes_to :: "nat \<Rightarrow> nat \<times> call \<Rightarrow> 'r site \<Rightarrow> 'r site" where
  "goes_to k c s = s\<lparr>site_calls := (site_calls s)[k := c]\<rparr>"

definition ends :: "nat \<Rightarrow> 'r site \<Rightarrow> 'r site" where
  "ends k s = s\<lparr>site_calls := drop_nth k (site_calls s)\<rparr>"

inductive site_step :: "'r enqueuer \<Rightarrow> 'r site \<Rightarrow> site_event \<Rightarrow> 'r site \<Rightarrow> bool" for x where
  arrives: "i < length (sh_conns (site_db s)) \<Longrightarrow> enq_begin validate key j = Measuring key j' \<Longrightarrow>
    site_step x s Other (s\<lparr>site_calls := site_calls s @ [(i, Measures key j')]\<rparr>)"
| measures: "k < length (site_calls s) \<Longrightarrow> site_calls s ! k = (i, Measures key j) \<Longrightarrow>
    stream_length (eq_redis x) (eq_prefix x) (queue j) (site_server s) = (Inr depth, r) \<Longrightarrow> depth < eq_depth x \<Longrightarrow>
    site_step x s Measured (goes_to k (i, Looks key (keyed_job key j)) (s\<lparr>site_server := r\<rparr>))"
| is_full: "k < length (site_calls s) \<Longrightarrow> site_calls s ! k = (i, Measures key j) \<Longrightarrow>
    stream_length (eq_redis x) (eq_prefix x) (queue j) (site_server s) = (res, r) \<Longrightarrow>
    (\<forall>depth. res = Inr depth \<longrightarrow> eq_depth x \<le> depth) \<Longrightarrow>
    site_step x s Measured (ends k (s\<lparr>site_server := r\<rparr>))"
| looks: "k < length (site_calls s) \<Longrightarrow> site_calls s ! k = (i, Looks key j) \<Longrightarrow>
    check_key now key (world_of i s) = (Inr (), w) \<Longrightarrow> site_step x s Other (goes_to k (i, Enters j) s)"
| is_taken: "k < length (site_calls s) \<Longrightarrow> site_calls s ! k = (i, Looks key j) \<Longrightarrow>
    check_key now key (world_of i s) = (Inl e, w) \<Longrightarrow> site_step x s Other (ends k s)"
| enters: "k < length (site_calls s) \<Longrightarrow> site_calls s ! k = (i, Enters j) \<Longrightarrow>
    shared_step (site_db s) (Began i j) d \<Longrightarrow>
    site_step x s (Stored (Began i j)) (goes_to k (i, Inside j) (s\<lparr>site_db := d\<rparr>))"
| leaves: "k < length (site_calls s) \<Longrightarrow> site_calls s ! k = (i, Inside j) \<Longrightarrow>
    shared_step (site_db s) (Accepted i j) d \<Longrightarrow>
    site_step x s (Stored (Accepted i j)) (goes_to k (i, Appends j) (s\<lparr>site_db := d\<rparr>))"
| is_refused: "k < length (site_calls s) \<Longrightarrow> site_calls s ! k = (i, c) \<Longrightarrow> c \<in> {Enters j, Inside j} \<Longrightarrow>
    shared_step (site_db s) (Refused i) d \<Longrightarrow>
    site_step x s (Stored (Refused i)) (ends k (s\<lparr>site_db := d\<rparr>))"
| stores: "shared_step (site_db s) Quiet d \<Longrightarrow> site_step x s (Stored Quiet) (s\<lparr>site_db := d\<rparr>)"
| dies: "shared_step (site_db s) (Closed i) d \<Longrightarrow>
    site_step x s (Stored (Closed i))
      (s\<lparr>site_db := d, site_calls := filter (\<lambda>c. fst c \<noteq> i) (site_calls s)\<rparr>)"
| appends: "k < length (site_calls s) \<Longrightarrow> site_calls s ! k = (i, Appends j) \<Longrightarrow>
    xadd (eq_redis x) (eq_prefix x) (queue j) j (eq_depth x + 1000) True (site_server s) = (res, r) \<Longrightarrow>
    site_step x s (Appended j) (ends k (s\<lparr>site_server := r\<rparr>))"
| is_cancelled: "k < length (site_calls s) \<Longrightarrow> site_calls s ! k = (i, c) \<Longrightarrow> c \<in> {Measures key j, Appends j} \<Longrightarrow>
    site_step x s Other (ends k s)"
| others: "site_step x s Elsewhere (s\<lparr>site_server := r\<rparr>)"

definition stored_by :: "site_event \<Rightarrow> shared_event list" where
  "stored_by ev = (case ev of Stored e \<Rightarrow> [e] | _ \<Rightarrow> [])"

definition stored :: "site_event list \<Rightarrow> shared_event list" where
  "stored evs = concat (map stored_by evs)"

text \<open>The jobs whose append reached the server.\<close>

definition appended_by :: "site_event \<Rightarrow> job list" where
  "appended_by ev = (case ev of Appended j \<Rightarrow> [j] | _ \<Rightarrow> [])"

definition appended :: "site_event list \<Rightarrow> job list" where
  "appended evs = concat (map appended_by evs)"

lemma event_simps [simp]:
  "stored [] = []" "stored (evs @ evs') = stored evs @ stored evs'"
  "stored (Stored e # evs) = e # stored evs" "stored (Appended j # evs) = stored evs"
  "stored (Other # evs) = stored evs" "stored (Elsewhere # evs) = stored evs"
  "stored (Measured # evs) = stored evs"
  "appended [] = []" "appended (evs @ evs') = appended evs @ appended evs'"
  "appended (Stored e # evs) = appended evs" "appended (Appended j # evs) = j # appended evs"
  "appended (Other # evs) = appended evs" "appended (Elsewhere # evs) = appended evs"
  "appended (Measured # evs) = appended evs"
  by (simp_all add: stored_def appended_def stored_by_def appended_by_def)

lemma event_by: "stored_by ev = stored [ev]" "appended_by ev = appended [ev]"
  by (simp_all add: stored_def appended_def)

lemma accepted_stored: "accepted (stored evs) = concat (map (\<lambda>ev. accepted (stored_by ev)) evs)"
  by (induction evs) (simp_all add: stored_def)

section \<open>What is appended was accepted\<close>

definition on_way :: "call \<Rightarrow> job multiset" where
  "on_way c = (case c of Appends j \<Rightarrow> {#j#} | _ \<Rightarrow> {#})"

definition underway :: "'r site \<Rightarrow> job multiset" where
  "underway s = (\<Sum>c\<leftarrow>site_calls s. on_way (snd c))"

lemma on_way_simps [simp]:
  "on_way (Measures key j) = {#}" "on_way (Looks key j) = {#}" "on_way (Enters j) = {#}" "on_way (Inside j) = {#}"
  "on_way (Appends j) = {#j#}"
  by (simp_all add: on_way_def)

lemma underway_simps [simp]:
  "underway (s\<lparr>site_server := r\<rparr>) = underway s" "underway (s\<lparr>site_db := d\<rparr>) = underway s"
  "underway (ends k (s\<lparr>site_server := r\<rparr>)) = underway (ends k s)"
  "underway (ends k (s\<lparr>site_db := d\<rparr>)) = underway (ends k s)"
  by (simp_all add: underway_def ends_def)

lemma underway_goes:
  "k < length (site_calls s) \<Longrightarrow> underway (goes_to k c s) = on_way (snd c) + underway (ends k s)"
  using sum_drop_nth(2) [of k "site_calls s" "\<lambda>c. on_way (snd c)"]
  by (simp add: underway_def goes_to_def ends_def)

lemma underway_at:
  "k < length (site_calls s) \<Longrightarrow> site_calls s ! k = (i, c) \<Longrightarrow> underway s = on_way c + underway (ends k s)"
  using sum_drop_nth(1) [of k "site_calls s" "\<lambda>c. on_way (snd c)"]
  by (simp add: underway_def ends_def)

lemma move_simps [simp]:
  "site_db (goes_to k c s) = site_db s" "site_db (ends k s) = site_db s"
  by (simp_all add: goes_to_def ends_def)

lemma step_underway:
  assumes "site_step x s ev t"
  shows "mset (appended [ev]) + underway t \<subseteq># underway s + mset (accepted (stored [ev]))"
  using assms
proof (cases rule: site_step.cases)
  case (arrives i validate key j j')
  then show ?thesis by (simp add: underway_def)
next
  case (dies d i)
  then show ?thesis by (simp add: underway_def sum_filter_subset)
next
  case (is_refused k i c j d)
  then show ?thesis using underway_at [OF is_refused(3,4)] by (auto)
next
  case (is_cancelled k i c key j)
  then show ?thesis using underway_at [OF is_cancelled(3,4)] by (auto)
qed (simp_all add: underway_at underway_goes)

abbreviation site_run :: "'r enqueuer \<Rightarrow> 'r site \<Rightarrow> site_event list \<Rightarrow> 'r site \<Rightarrow> bool" where
  "site_run x \<equiv> run_of (site_step x)"

lemmas site_nil = run_nil [where step = "site_step x" for x]
lemmas site_snoc = run_snoc [where step = "site_step x" for x]

interpretation call_account: account "site_step x" underway "\<lambda>ev. accepted (stored_by ev)" appended_by for x
  by unfold_locales (simp only: event_by step_underway)

lemma run_underway:
  assumes "site_run x s evs t"
  shows "mset (appended evs) + underway t \<subseteq># underway s + mset (accepted (stored evs))"
  using call_account.run_account [OF assms] by (simp add: appended_def accepted_stored)

text \<open>The database sees a run of its own.\<close>

interpretation site_db: projection "site_step x" shared_step site_db stored_by for x
proof
  show "shared_run (site_db s) (stored_by ev) (site_db t)" if "site_step x s ev t" for s ev t
    using that by (cases rule: site_step.cases) (auto simp: stored_by_def intro: run_single)
qed

lemma site_run_db: "site_run x s evs t \<Longrightarrow> shared_run (site_db s) (stored evs) (site_db t)"
  unfolding stored_def by (rule site_db.run_seen)

text \<open>Nothing has been called yet, and \<open>n\<close> connections are open to a database with the rows \<open>rows\<close>.\<close>

definition fresh_site :: "'r \<Rightarrow> row list \<Rightarrow> nat \<Rightarrow> 'r site" where
  "fresh_site r rows n = \<lparr>site_server = r, site_db = fresh_db rows n, site_calls = []\<rparr>"

lemma fresh_site_simps [simp]:
  "site_db (fresh_site r rows n) = fresh_db rows n" "underway (fresh_site r rows n) = {#}"
  by (simp_all add: fresh_site_def underway_def)

section \<open>A call that nothing disturbs\<close>

lemma last_call [simp]:
  "site_calls s = cs @ [c] \<Longrightarrow> site_calls (goes_to (length cs) c' s) = cs @ [c']"
  "site_calls s = cs @ [c] \<Longrightarrow> site_calls (ends (length cs) s) = cs"
  "site_server (goes_to k c' s) = site_server s" "site_server (ends k s) = site_server s"
  by (simp_all add: goes_to_def ends_def drop_nth_def)









lemma appended_among_accepted:
  assumes "site_run x (fresh_site r rows n) evs t"
  shows "mset (appended evs) \<subseteq># mset (accepted (stored evs))"
    and "distinct (accepted_keys idempotency_key (appended evs))"
    and "set (accepted_keys idempotency_key (appended evs)) \<inter> set (keys_of rows) = {}"
    and "j \<in> set (appended evs) \<Longrightarrow>
      \<exists>st. status j = Member st \<and> row_of j (status_value st) \<in> set (sh_rows (site_db t))"
proof -
  have db: "shared_run (fresh_db rows n) (stored evs) (site_db t)" using site_run_db [OF assms] by simp
  from run_underway [OF assms] have sub: "mset (appended evs) \<subseteq># mset (accepted (stored evs))"
    using subset_mset.order_trans [OF mset_subset_eq_add_left] by fastforce
  have serial: "registry_run (\<lambda>j. transaction (insert_outbox j)) store_step (connect rows [])
      (accepted (stored evs)) (connect (sh_rows (site_db t)) [])"
    using shared_run_serial [OF db fresh_inv] by (simp add: fresh_db_def)
  note once = outbox.run_accepts_once [OF serial]
  have keys: "mset (accepted_keys idempotency_key (appended evs)) \<subseteq>#
      mset (accepted_keys idempotency_key (accepted (stored evs)))"
    unfolding accepted_keys_def using sub by (rule mset_map_filter)
  show "mset (appended evs) \<subseteq># mset (accepted (stored evs))" using sub .
  show "distinct (accepted_keys idempotency_key (appended evs))"
    using keys once by (blast intro: distinct_submset)
  show "set (accepted_keys idempotency_key (appended evs)) \<inter> set (keys_of rows) = {}"
    using set_mset_mono [OF keys] once
    by (auto simp: committed_keys_def connect_def set_keys_of)
  show "\<exists>st. status j = Member st \<and> row_of j (status_value st) \<in> set (sh_rows (site_db t))"
    if "j \<in> set (appended evs)" for j
  proof -
    have "j \<in> set (accepted (stored evs))" using set_mset_mono [OF sub] that by auto
    then obtain i where i: "i < length (accepted (stored evs))" "accepted (stored evs) ! i = j"
      by (auto simp: in_set_conv_nth)
    obtain new where new: "sh_rows (site_db t) = sh_rows (fresh_db rows n) @ new"
      "list_all2 (\<lambda>j r. \<exists>st. status j = Member st \<and> r = row_of j (status_value st)) (accepted (stored evs)) new"
      using shared_run_rows [OF db fresh_inv] by blast
    from list_all2_nthD [OF new(2) i(1)] i(2)
    have "\<exists>st. status j = Member st \<and> new ! i = row_of j (status_value st)" by simp
    moreover have "new ! i \<in> set new" using list_all2_lengthD [OF new(2)] i(1) by simp
    ultimately show ?thesis using new(1) by auto
  qed
qed

section \<open>Properties\<close>



text \<open>C9. Deduplication across processes. However the enqueue calls of any number of threads and processes on
  one database interleave, statement by statement and await by await, with crashes between any two:
  every job whose append reached the server has its row committed, each accepted job is appended at
  most once, and no idempotency key is appended twice or was in the table before. That the key is
  looked up before the transaction does not matter.\<close>

theorem appended_keys_are_unique:
  assumes "site_run x (fresh_site r rows n) evs t"
  shows "mset (appended evs) \<subseteq># mset (accepted (stored evs)) \<and>
    distinct (accepted_keys idempotency_key (appended evs)) \<and>
    set (accepted_keys idempotency_key (appended evs)) \<inter> set (keys_of rows) = {} \<and>
    (\<forall>j\<in>set (appended evs). \<exists>st. status j = Member st \<and> row_of j (status_value st) \<in> set (sh_rows (site_db t)))"
  using appended_among_accepted [OF assms] by blast

text \<open>One call with an idempotency key, from its arrival to its append.\<close>

lemma demo_site_run:
  defines "j \<equiv> keyed_job (Some ''k'') sample_job"
  shows "\<exists>t. site_run demo_enqueuer (fresh_site mem_init [] 1)
    [Other, Measured, Other, Stored (Began 0 j), Stored Quiet, Stored (Accepted 0 j), Appended j] t \<and>
    site_server t = snd (xadd mem_client ''relayq'' (queue j) j (1 + 1000) True mem_init)"
proof -
  let ?r = "row_of j ''pending''"
  let ?x = demo_enqueuer
  define site where "site = (\<lambda>d c. \<lparr>site_server = mem_init, site_db = d, site_calls = [(0, c)]\<rparr>)"
  let ?d0 = "fresh_db [] 1"
  let ?d1 = "\<lparr>sh_rows = [], sh_conns = [(Writing [], Begun j)]\<rparr>"
  let ?d2 = "\<lparr>sh_rows = [], sh_conns = [(Writing [?r], Inserted j)]\<rparr>"
  let ?d3 = "\<lparr>sh_rows = [?r], sh_conns = [(Idle, Ready)]\<rparr>"
  have pending: "status j = Member PENDING" by (simp add: j_def)
  note eval = view_def others_write_def writing_def conn_after_def put_conn_def begin_immediate_def next_lock_def
    open_txn_def table_def insert_outbox_def status_attr_def exec_insert_def constraint_def commit_def fresh_db_def
    locked_def pending
  have 1: "site_step ?x (fresh_site mem_init [] 1) Other (site ?d0 (Measures (Some ''k'') sample_job))"
    using site_step.arrives [of 0 "fresh_site mem_init [] 1" None "Some ''k''" sample_job sample_job]
    by (simp add: fresh_site_def site_def fresh_db_def enq_begin_def)
  have 2: "site_step ?x (site ?d0 (Measures (Some ''k'') sample_job)) Measured (site ?d0 (Looks (Some ''k'') j))"
    using site_step.measures [of 0 "site ?d0 (Measures (Some ''k'') sample_job)" 0 "Some ''k''" sample_job ?x 0 mem_init]
    by (simp add: site_def goes_to_def demo_enqueuer_def new_enqueuer_def stream_length_def j_def)
  obtain w where "check_key base_time (Some ''k'') (world_of 0 (site ?d0 (Looks (Some ''k'') j))) = (Inr (), w)"
    by (simp add: check_key_def world_of_def find_by_idempotency_key_def fetch_job_def exec_select_def site_def
      given_key_def eval split: prod.split)
  then have 3: "site_step ?x (site ?d0 (Looks (Some ''k'') j)) Other (site ?d0 (Enters j))"
    using site_step.looks [of 0 "site ?d0 (Looks (Some ''k'') j)" 0 "Some ''k''" j] by (simp add: site_def goes_to_def)
  have "shared_step ?d0 (Began 0 j) ?d1" using shared_step.begins [of 0 ?d0 _ j] by (simp add: eval)
  then have 4: "site_step ?x (site ?d0 (Enters j)) (Stored (Began 0 j)) (site ?d1 (Inside j))"
    using site_step.enters [of 0 "site ?d0 (Enters j)" 0 j ?d1] by (simp add: site_def goes_to_def)
  have "shared_step ?d1 Quiet ?d2" using shared_step.inserts [of 0 ?d1 j] by (simp add: eval)
  then have 5: "site_step ?x (site ?d1 (Inside j)) (Stored Quiet) (site ?d2 (Inside j))"
    using site_step.stores [of "site ?d1 (Inside j)" ?d2] by (simp add: site_def)
  have "shared_step ?d2 (Accepted 0 j) ?d3" using shared_step.commits [of 0 ?d2 j] by (simp add: eval)
  then have 6: "site_step ?x (site ?d2 (Inside j)) (Stored (Accepted 0 j)) (site ?d3 (Appends j))"
    using site_step.leaves [of 0 "site ?d2 (Inside j)" 0 j ?d3] by (simp add: site_def goes_to_def)
  obtain res r where "xadd (eq_redis ?x) (eq_prefix ?x) (queue j) j (eq_depth ?x + 1000) True mem_init = (res, r)"
    by fastforce
  moreover from this have "r = snd (xadd mem_client ''relayq'' (queue j) j (1 + 1000) True mem_init)"
    by (simp add: demo_enqueuer_def new_enqueuer_def)
  ultimately obtain t where 7: "site_step ?x (site ?d3 (Appends j)) (Appended j) t"
    "site_server t = snd (xadd mem_client ''relayq'' (queue j) j (1 + 1000) True mem_init)"
    using site_step.appends [of 0 "site ?d3 (Appends j)" 0 j ?x res r] by (auto simp: site_def)
  from site_snoc [OF site_snoc [OF site_snoc [OF site_snoc [OF site_snoc [OF site_snoc [OF site_snoc
    [OF site_nil 1] 2] 3] 4] 5] 6] 7(1)] 7(2)
  show ?thesis by auto
qed

theorem appended_keys_are_unique_witness:
  "\<exists>evs t. site_run demo_enqueuer (fresh_site mem_init [] 1) evs t \<and>
     appended evs = [keyed_job (Some ''k'') sample_job] \<and>
     accepted_keys idempotency_key (appended evs) = [''k''] \<and> length (sh_rows (site_db t)) \<ge> 1"
proof -
  let ?j = "keyed_job (Some ''k'') sample_job"
  let ?evs = "[Other, Measured, Other, Stored (Began 0 ?j), Stored Quiet, Stored (Accepted 0 ?j), Appended ?j]"
  obtain t where t: "site_run demo_enqueuer (fresh_site mem_init [] 1) ?evs t" using demo_site_run by blast
  have js: "appended ?evs = [?j]" by simp
  have "accepted_keys idempotency_key [?j] = [''k'']"
    by (simp add: accepted_keys_def List.map_filter_def effective_key_def given_key_def)
  moreover have "sh_rows (site_db t) \<noteq> []"
    using appended_keys_are_unique [OF t] unfolding js by auto
  ultimately show ?thesis using t js by (intro exI [of _ ?evs] exI [of _ t]) (simp add: Suc_le_eq)
qed

end
