(* ===== verification/System.thy ===== *)
theory System
  imports Producers Entries
begin

text \<open>
  The whole: enqueue calls of many processes on one database (\<open>Producers\<close>) and workers of one queue
  (\<open>Fleet\<close>) on one Redis server. Each part sees a run of its own, so what is shown of the parts meets
  here: from the commit of a transaction to the execution of its job.
\<close>

section \<open>State and steps\<close>

record 'r system =
  fleet_of :: "'r fleet"
  db_of :: shared_db
  calls_of :: "(nat \<times> call) list"

datatype system_event = Produces site_event | Works fleet_event

definition site_of :: "'r system \<Rightarrow> 'r site" where
  "site_of y = \<lparr>site_server = shared (fleet_of y), site_db = db_of y, site_calls = calls_of y\<rparr>"

definition with_site :: "'r system \<Rightarrow> 'r site \<Rightarrow> 'r system" where
  "with_site y s = \<lparr>fleet_of = (fleet_of y)\<lparr>shared := site_server s\<rparr>, db_of = site_db s, calls_of = site_calls s\<rparr>"

text \<open>A step of a call, or of a worker, its crash, its start, or a command beside both; the appends are those
  of the calls.\<close>

inductive system_step :: "'r enqueuer \<Rightarrow> string \<Rightarrow> 'r system \<Rightarrow> system_event \<Rightarrow> 'r system \<Rightarrow> bool" for x q where
  produces: "site_step x (site_of y) ev s \<Longrightarrow> ev \<noteq> Elsewhere \<Longrightarrow>
    system_step x q y (Produces ev) (with_site y s)"
| works: "fleet_step (eq_redis x) (eq_prefix x) q (eq_depth x) (fleet_of y) ev f \<Longrightarrow> \<forall>j. ev \<noteq> Sent j \<Longrightarrow>
    system_step x q y (Works ev) (y\<lparr>fleet_of := f\<rparr>)"

abbreviation system_run :: "'r enqueuer \<Rightarrow> string \<Rightarrow> 'r system \<Rightarrow> system_event list \<Rightarrow> 'r system \<Rightarrow> bool" where
  "system_run x q \<equiv> run_of (system_step x q)"

text \<open>What the parts see.\<close>

definition calls_see :: "system_event \<Rightarrow> site_event list" where
  "calls_see ev = (case ev of Produces e \<Rightarrow> [e] | Works _ \<Rightarrow> [Elsewhere])"

definition workers_see :: "system_event \<Rightarrow> fleet_event list" where
  "workers_see ev = (case ev of
     Works e \<Rightarrow> [e]
   | Produces e \<Rightarrow> (case e of Appended j \<Rightarrow> [Sent j] | Measured \<Rightarrow> [Outside] | _ \<Rightarrow> []))"

lemma site_of_simps [simp]:
  "site_server (site_of y) = shared (fleet_of y)" "site_db (site_of y) = db_of y" "site_calls (site_of y) = calls_of y"
  "site_of (with_site y s) = s" "fleet_of (with_site y s) = (fleet_of y)\<lparr>shared := site_server s\<rparr>"
  by (simp_all add: site_of_def with_site_def)

lemma sees_simps [simp]:
  "calls_see (Produces e) = [e]" "calls_see (Works e') = [Elsewhere]" "workers_see (Works e') = [e']"
  "workers_see (Produces (Appended j)) = [Sent j]" "workers_see (Produces Measured) = [Outside]"
  "workers_see (Produces (Stored d)) = []" "workers_see (Produces Other) = []" "workers_see (Produces Elsewhere) = []"
  by (simp_all add: calls_see_def workers_see_def)

lemma step_site_run:
  assumes "system_step x q y ev z"
  shows "site_run x (site_of y) (calls_see ev) (site_of z)"
  using assms
proof (cases rule: system_step.cases)
  case (produces e s)
  then show ?thesis using run_single [where step = "site_step x", OF produces(3)] by simp
next
  case (works e f)
  have "site_of z = (site_of y)\<lparr>site_server := shared f\<rparr>" using works by (simp add: site_of_def)
  then have "site_run x (site_of y) [Elsewhere] (site_of z)"
    using run_single [where step = "site_step x", OF site_step.others] by simp
  with works(1) show ?thesis by simp
qed

lemma step_fleet_run:
  assumes "system_step x q y ev z"
  shows "fleet_run (eq_redis x) (eq_prefix x) q (eq_depth x) (fleet_of y) (workers_see ev) (fleet_of z)"
  using assms
proof (cases rule: system_step.cases)
  case (works e f)
  then show ?thesis
    using run_single [where step = "fleet_step (eq_redis x) (eq_prefix x) q (eq_depth x)", OF works(3)] by simp
next
  case (produces e s)
  let ?fs = "fleet_step (eq_redis x) (eq_prefix x) q (eq_depth x)"
  from produces(3) show ?thesis
  proof (cases rule: site_step.cases)
    case (measures k i key j depth r)
    with fleet_step.measures [of "eq_redis x" "eq_prefix x" "queue j" "fleet_of y"] produces show ?thesis
      by (auto simp: goes_to_def intro: run_single [where step = ?fs])
  next
    case (is_full k i key j res r)
    with fleet_step.measures [of "eq_redis x" "eq_prefix x" "queue j" "fleet_of y"] produces show ?thesis
      by (auto simp: ends_def intro: run_single [where step = ?fs])
  next
    case (appends k i j res r)
    with fleet_step.appends [of "eq_redis x" "eq_prefix x" j "eq_depth x" "fleet_of y"] produces show ?thesis
      by (auto simp: ends_def intro: run_single [where step = ?fs])
  qed (use produces in \<open>simp_all add: goes_to_def ends_def\<close>)
qed

interpretation system_calls: projection "system_step x q" "site_step x" site_of calls_see for x q
  by unfold_locales (rule step_site_run)

interpretation system_workers: projection "system_step x q" "fleet_step (eq_redis x) (eq_prefix x) q (eq_depth x)"
  fleet_of workers_see for x q
  by unfold_locales (rule step_fleet_run)

section \<open>From the commit to the execution\<close>

text \<open>The jobs whose transaction committed, those whose append reached the server, and those executed.\<close>

definition jobs_accepted :: "system_event list \<Rightarrow> job list" where
  "jobs_accepted evs = accepted (stored (concat (map calls_see evs)))"

definition jobs_appended :: "system_event list \<Rightarrow> job list" where
  "jobs_appended evs = appended (concat (map calls_see evs))"

definition jobs_executed :: "system_event list \<Rightarrow> job list" where
  "jobs_executed evs = map (\<lambda>d. snd (snd d)) (executed (worker_events (concat (map workers_see evs))))"

definition fresh_system :: "'r \<Rightarrow> row list \<Rightarrow> nat \<Rightarrow> 'r system" where
  "fresh_system r rows n = \<lparr>fleet_of = \<lparr>shared = r, members = []\<rparr>, db_of = fresh_db rows n, calls_of = []\<rparr>"

lemma fresh_system_simps [simp]:
  "site_of (fresh_system r rows n) = fresh_site r rows n" "fleet_of (fresh_system r rows n) = \<lparr>shared = r, members = []\<rparr>"
  by (simp_all add: fresh_system_def site_of_def fresh_site_def)

text \<open>What the calls append is what the workers see sent.\<close>

lemma sends_seen:
  assumes "system_step x q y ev z"
  shows "sent_to q (workers_see ev) = filter (\<lambda>j. queue j = q) (appended (calls_see ev))"
  using assms by (cases rule: system_step.cases) (auto simp: sent_to_def sends_def workers_see_def
    split: site_event.splits fleet_event.splits)

lemma sent_appended:
  assumes "system_run x q y evs z"
  shows "sent_to q (concat (map workers_see evs)) = filter (\<lambda>j. queue j = q) (jobs_appended evs)"
  using assms
proof (induction rule: run_of.induct)
  case (run_snoc evs y ev z)
  then show ?case using sends_seen [OF run_snoc.hyps(2)] by (simp add: sent_to_def jobs_appended_def)
qed (simp add: sent_to_def jobs_appended_def)

section \<open>Lifting runs of the parts\<close>

lemma with_site_of [simp]: "with_site y (site_of y) = y" "with_site (with_site y s) s' = with_site y s'"
  by (simp_all add: with_site_def site_of_def)

lemma calls_lift:
  assumes "site_run x s evs t" "site_of y = s" "Elsewhere \<notin> set evs"
  shows "system_run x q y (map Produces evs) (with_site y t)"
  using assms
proof (induction rule: run_of.induct)
  case run_nil
  then show ?case by auto
next
  case (run_snoc evs t ev u)
  then have "system_run x q y (map Produces evs) (with_site y t)" by simp
  moreover have "ev \<noteq> Elsewhere" using run_snoc.prems(2) by auto
  then have "system_step x q (with_site y t) (Produces ev) (with_site y u)"
    using system_step.produces [of x "with_site y t" ev u] run_snoc.hyps(2) run_snoc.prems by simp
  ultimately show ?case using run_snoc.hyps by (auto intro: run_of.run_snoc [where step = "system_step x q"])
qed

lemma workers_lift:
  assumes "fleet_run (eq_redis x) (eq_prefix x) q (eq_depth x) f evs g" "fleet_of y = f" "\<forall>j. Sent j \<notin> set evs"
  shows "system_run x q y (map Works evs) (y\<lparr>fleet_of := g\<rparr>)"
  using assms
proof (induction rule: run_of.induct)
  case run_nil
  then show ?case by auto
next
  case (run_snoc evs g ev h)
  then have "system_run x q y (map Works evs) (y\<lparr>fleet_of := g\<rparr>)" by simp
  moreover have "system_step x q (y\<lparr>fleet_of := g\<rparr>) (Works ev) (y\<lparr>fleet_of := h\<rparr>)"
    using system_step.works [of x q "y\<lparr>fleet_of := g\<rparr>" ev h] run_snoc.hyps(2) run_snoc.prems by auto
  ultimately show ?case by (auto intro: run_of.run_snoc [where step = "system_step x q"])
qed

section \<open>Properties\<close>

text \<open>C1. A job is executed at most once for each time it was accepted, end to end. However the enqueue calls of
  many processes on one database and the workers of a queue on one server interleave, crashes of both
  included: the jobs executed are, as a multiset, among those whose append reached the server, and
  these among those whose transaction committed; so no idempotency key is executed twice, none is
  executed that the table held before, and the row of every executed job is committed.\<close>

theorem idempotency_key_executed_once:
  assumes "delivers_once (eq_redis x) ok D" "stores_entries (eq_redis x) ok E" "ok r"
    and "E (stream_key (eq_prefix x) q) r = {}" "system_run x q (fresh_system r rows n) evs y"
    and "\<forall>j\<in>set (jobs_appended evs). wf_job j"
  shows "mset (jobs_executed evs) \<subseteq># mset (jobs_appended evs) \<and>
    mset (jobs_appended evs) \<subseteq># mset (jobs_accepted evs) \<and>
    distinct (accepted_keys idempotency_key (jobs_executed evs)) \<and>
    set (accepted_keys idempotency_key (jobs_executed evs)) \<inter> set (keys_of rows) = {} \<and>
    (\<forall>j\<in>set (jobs_executed evs). \<exists>st. status j = Member st \<and> row_of j (status_value st) \<in> set (sh_rows (db_of y)))"
proof -
  let ?exec = "jobs_executed evs" and ?app = "jobs_appended evs"
  have site: "site_run x (fresh_site r rows n) (concat (map calls_see evs)) (site_of y)"
    using system_calls.run_seen [OF assms(5)] by simp
  have fleet: "fleet_run (eq_redis x) (eq_prefix x) q (eq_depth x) \<lparr>shared = r, members = []\<rparr>
      (concat (map workers_see evs)) (fleet_of y)"
    using system_workers.run_seen [OF assms(5)] by simp
  have sent: "sent_to q (concat (map workers_see evs)) = filter (\<lambda>j. queue j = q) ?app"
    by (rule sent_appended [OF assms(5)])
  have "mset ?exec \<subseteq># mset (sent_to q (concat (map workers_see evs)))"
    unfolding jobs_executed_def
    by (rule executed_among_sent [OF assms(1,2) _ _ _ fleet]) (use assms(3,4,6) sent in auto)
  also have "\<dots> \<subseteq># mset ?app" unfolding sent by (simp add: multiset_filter_subset)
  finally have exec: "mset ?exec \<subseteq># mset ?app" .
  note app = appended_among_accepted [OF site, folded jobs_appended_def jobs_accepted_def]
  have keys: "mset (accepted_keys idempotency_key ?exec) \<subseteq># mset (accepted_keys idempotency_key ?app)"
    unfolding accepted_keys_def using exec by (rule mset_map_filter)
  have "distinct (accepted_keys idempotency_key ?exec)" using keys app(2) by (rule distinct_submset)
  moreover have "set (accepted_keys idempotency_key ?exec) \<inter> set (keys_of rows) = {}"
    using set_mset_mono [OF keys] app(3) by auto
  moreover have "\<exists>st. status j = Member st \<and> row_of j (status_value st) \<in> set (sh_rows (db_of y))"
    if "j \<in> set ?exec" for j
    using app(4) [of j] set_mset_mono [OF exec] that by auto
  ultimately show ?thesis using exec app(1) by blast
qed

theorem idempotency_key_executed_once_witness:
  "\<exists>evs y. system_run demo_enqueuer ''default'' (fresh_system mem_init [] 1) evs y \<and>
     jobs_executed evs = [demo_job] \<and> demo_job \<in> set (jobs_accepted evs) \<and>
     accepted_keys idempotency_key (jobs_executed evs) = [''k'']"
proof -
  have key: "keyed_job (Some ''k'') sample_job = demo_job"
    by (simp add: keyed_job_def given_key_def demo_job_def)
  let ?calls = "[Other, Measured, Other, Stored (Began 0 demo_job), Stored Quiet, Stored (Accepted 0 demo_job),
    Appended demo_job]"
  let ?y0 = "fresh_system mem_init [] 1"
  obtain s where s: "site_run demo_enqueuer (fresh_site mem_init [] 1) ?calls s" "site_server s = server busy_world"
    using demo_site_run [unfolded key] demo_append by auto
  have 1: "system_run demo_enqueuer ''default'' ?y0 (map Produces ?calls) (with_site ?y0 s)"
    by (rule calls_lift [OF s(1)]) simp_all
  obtain v t where "start_worker demo_config busy_world = Inr v" "worker_run demo_config v demo_events t"
    using demo_run by blast
  then obtain g where g: "fleet_run mem_client ''relayq'' ''default'' (eq_depth demo_enqueuer) idle_fleet
      ([Joined] @ map Moved demo_events) g"
    using demo_fleet_run by blast
  have x: "eq_redis demo_enqueuer = mem_client" "eq_prefix demo_enqueuer = ''relayq''"
    by (simp_all add: demo_enqueuer_def new_enqueuer_def)
  have 2: "system_run demo_enqueuer ''default'' (with_site ?y0 s) (map Works ([Joined] @ map Moved demo_events))
      ((with_site ?y0 s)\<lparr>fleet_of := g\<rparr>)"
    by (rule workers_lift) (use g s(2) x in \<open>auto simp: idle_fleet_def\<close>)
  let ?evs = "map Produces ?calls @ map Works ([Joined] @ map Moved demo_events)"
  note run = run_trans [OF 2 1]
  have see: "concat (map calls_see ?evs) = ?calls @ replicate (Suc (length demo_events)) Elsewhere"
    "concat (map workers_see ?evs) = [Outside, Sent demo_job, Joined] @ map Moved demo_events"
    by (simp_all add: comp_def map_replicate_const concat_map_singleton)
  have elsewhere: "appended (replicate n Elsewhere) = []" "stored (replicate n Elsewhere) = []" for n
    by (induction n) simp_all
  have app: "jobs_appended ?evs = [demo_job]" "jobs_accepted ?evs = [demo_job]" "jobs_executed ?evs = [demo_job]"
    unfolding jobs_appended_def jobs_accepted_def jobs_executed_def see
    by (simp_all add: demo_delivery_def elsewhere accepted_def List.map_filter_def)
  have wf: "\<forall>j\<in>set (jobs_appended ?evs). wf_job j" unfolding app by simp
  have none: "mem_entries (stream_key ''relayq'' ''default'') mem_init = {}" by (simp add: mem_entries_def)
  note once = idempotency_key_executed_once [of demo_enqueuer mem_ok mem_delivered mem_entries, unfolded x,
      OF mem_delivers_once mem_stores_entries mem_ok_init none run wf]
  have "accepted_keys idempotency_key (jobs_executed ?evs) = [''k'']"
    unfolding app by (simp add: accepted_keys_def List.map_filter_def)
  moreover have "demo_job \<in> set (jobs_accepted ?evs)"
    using set_mset_mono [OF once [THEN conjunct2, THEN conjunct1]] unfolding app by simp
  ultimately show ?thesis using run app(3) by blast
qed

end
