(* ===== verification/RateLimiter.thy ===== *)
theory RateLimiter
  imports Errors
begin

text \<open>
  \<open>TokenBucketRateLimiter\<close> of \<open>api/main.py\<close>: the Lua script, which is part of the program, and
  \<open>allow\<close>, which runs it through Redis. Lua numbers are rationals: the script subtracts whole costs
  and adds whole seconds times the rate, which is exact for the rate and capacity the program uses.

  The bucket is the Redis hash under the limiter's key; a field that was never written is None.
\<close>

record bucket =
  tokens :: "rat option"
  last_refill :: "rat option"

definition no_bucket :: bucket where
  "no_bucket = \<lparr>tokens = None, last_refill = None\<rparr>"

definition lua_script :: "rat \<Rightarrow> rat \<Rightarrow> rat \<Rightarrow> rat \<Rightarrow> bucket \<Rightarrow> int \<times> bucket" where
  "lua_script now rate capacity cost b =
     (let held = (case tokens b of Some t \<Rightarrow> t | None \<Rightarrow> capacity);
          last = (case last_refill b of Some t \<Rightarrow> t | None \<Rightarrow> now);
          elapsed = max 0 (now - last);
          held = min capacity (held + elapsed * rate)
      in if cost \<le> held
         then (1, \<lparr>tokens = Some (held - cost), last_refill = Some now\<rparr>)
         else (0, \<lparr>tokens = Some held, last_refill = Some now\<rparr>))"

section \<open>The call through Redis\<close>

text \<open>
  The two commands \<open>allow\<close> sends: \<open>SCRIPT LOAD\<close> of the script, and \<open>EVALSHA\<close> of a hash with one
  key and the four arguments. They are parameters, as the whole server is.
\<close>

record 'r script_client =
  sc_load :: "('r, exn, string) io"
  sc_eval :: "string \<Rightarrow> string \<Rightarrow> rat \<Rightarrow> rat \<Rightarrow> rat \<Rightarrow> rat \<Rightarrow> ('r, exn, int) io"

record limiter =
  l_key :: string
  l_rate :: rat
  l_capacity :: rat
  l_hash :: "string option"

definition api_limiter :: limiter where
  "api_limiter = \<lparr>l_key = ''ratelimit:api'', l_rate = 100, l_capacity = 150, l_hash = None\<rparr>"

definition ensure_script ::
    "'r script_client \<Rightarrow> limiter \<Rightarrow> 'r \<Rightarrow> (exn + string) \<times> limiter \<times> 'r" where
  "ensure_script C l r =
     (case l_hash l of
        Some h \<Rightarrow> (Inr h, l, r)
      | None \<Rightarrow> (case sc_load C r of
          (Inl e, r) \<Rightarrow> (Inl e, l, r)
        | (Inr h, r) \<Rightarrow> (Inr h, l\<lparr>l_hash := Some h\<rparr>, r)))"

definition allow ::
    "'r script_client \<Rightarrow> rat \<Rightarrow> rat \<Rightarrow> limiter \<Rightarrow> 'r \<Rightarrow> (exn + bool) \<times> limiter \<times> 'r" where
  "allow C now cost l r =
     (case ensure_script C l r of
        (Inl e, l, r) \<Rightarrow> (Inl e, l, r)
      | (Inr h, l, r) \<Rightarrow>
          (case sc_eval C h (l_key l) (of_int \<lfloor>now\<rfloor>) (l_rate l) (l_capacity l) cost r of
             (Inl e, r) \<Rightarrow> (Inl e, l, r)
           | (Inr n, r) \<Rightarrow> (Inr (n \<noteq> 0), l, r)))"

section \<open>Calls in sequence\<close>

text \<open>The calls of one API instance at the given times: how many were allowed.\<close>

fun allow_run ::
    "'r script_client \<Rightarrow> rat \<Rightarrow> rat list \<Rightarrow> limiter \<Rightarrow> 'r \<Rightarrow> nat \<times> limiter \<times> 'r" where
  "allow_run C cost [] l r = (0, l, r)"
| "allow_run C cost (t # ts) l r =
     (case allow C t cost l r of
        (res, l, r) \<Rightarrow> (case allow_run C cost ts l r of
          (n, l, r) \<Rightarrow> (if res = Inr True then Suc n else n, l, r)))"

text \<open>The calls of several instances, each at the reading of its own clock, on one bucket.\<close>

fun script_run :: "rat \<Rightarrow> rat \<Rightarrow> rat \<Rightarrow> rat list \<Rightarrow> bucket \<Rightarrow> nat \<times> bucket" where
  "script_run rate capacity cost [] b = (0, b)"
| "script_run rate capacity cost (now # ts) b =
     (case lua_script now rate capacity cost b of
        (n, b) \<Rightarrow> (case script_run rate capacity cost ts b of
          (m, b) \<Rightarrow> (if n \<noteq> 0 then Suc m else m, b)))"

text \<open>
  What Redis documents: \<open>SCRIPT LOAD\<close> leaves the keys alone, \<open>EVALSHA\<close> of the loaded hash runs the
  script atomically on the hash under its key, and touches nothing when it raises. \<open>bkt\<close> reads the
  bucket under a key.
\<close>

definition runs_script :: "'r script_client \<Rightarrow> (string \<Rightarrow> 'r \<Rightarrow> bucket) \<Rightarrow> bool" where
  "runs_script C bkt \<longleftrightarrow>
     (\<forall>r k. bkt k (snd (sc_load C r)) = bkt k r) \<and>
     (\<forall>h k now rate capacity cost r n r'. sc_eval C h k now rate capacity cost r = (Inr n, r') \<longrightarrow>
        lua_script now rate capacity cost (bkt k r) = (n, bkt k r')) \<and>
     (\<forall>h k now rate capacity cost r e r'. sc_eval C h k now rate capacity cost r = (Inl e, r') \<longrightarrow>
        bkt k r' = bkt k r)"

definition level :: "rat \<Rightarrow> bucket \<Rightarrow> rat" where
  "level capacity b = (case tokens b of Some t \<Rightarrow> t | None \<Rightarrow> capacity)"

definition bucket_ok :: "rat \<Rightarrow> bucket \<Rightarrow> bool" where
  "bucket_ok capacity b \<longleftrightarrow> 0 \<le> level capacity b \<and> level capacity b \<le> capacity"

lemma lua_script_step:
  assumes "lua_script now rate capacity cost b = (n, b')" "bucket_ok capacity b" "0 \<le> rate" "0 \<le> cost"
  shows "bucket_ok capacity b'" "last_refill b' = Some now" "n = 0 \<or> n = 1"
    and "last_refill b = None \<or> last_refill b = Some t0 \<Longrightarrow> t0 \<le> now \<Longrightarrow>
      of_int n * cost + level capacity b' \<le> level capacity b + rate * (now - t0)"
proof -
  let ?e = "max 0 (now - (case last_refill b of Some t \<Rightarrow> t | None \<Rightarrow> now))"
  have e: "0 \<le> ?e * rate" using assms(3) by simp
  with assms(1,2,4) show "bucket_ok capacity b'" "last_refill b' = Some now" "n = 0 \<or> n = 1"
    by (auto simp: lua_script_def level_def bucket_ok_def Let_def split: if_splits)
  assume t0: "last_refill b = None \<or> last_refill b = Some t0" "t0 \<le> now"
  then have "?e \<le> now - t0" by auto
  then have "?e * rate \<le> rate * (now - t0)" using assms(3) by (simp add: mult.commute mult_left_mono)
  moreover have "of_int n * cost + level capacity b' = min capacity (level capacity b + ?e * rate)"
    using assms(1) by (auto simp: lua_script_def level_def Let_def split: if_splits)
  ultimately show "of_int n * cost + level capacity b' \<le> level capacity b + rate * (now - t0)"
    by linarith
qed

lemma ensure_script_frame:
  assumes "runs_script C bkt" "ensure_script C l r = (h, l1, r1)"
  shows "bkt k r1 = bkt k r" "l_key l1 = l_key l" "l_rate l1 = l_rate l" "l_capacity l1 = l_capacity l"
proof -
  obtain m r2 where m: "sc_load C r = (m, r2)" by fastforce
  have "bkt k (snd (sc_load C r)) = bkt k r" using assms(1) unfolding runs_script_def by blast
  with m have "bkt k r2 = bkt k r" by simp
  with m assms(2) show "bkt k r1 = bkt k r" "l_key l1 = l_key l" "l_rate l1 = l_rate l"
    "l_capacity l1 = l_capacity l"
    by (auto simp: ensure_script_def split: option.splits sum.splits)
qed

lemma allow_step:
  assumes "runs_script C bkt" "allow C now cost l r = (res, l', r')"
  shows "l_key l' = l_key l \<and> l_rate l' = l_rate l \<and> l_capacity l' = l_capacity l \<and>
    ((\<exists>e. res = Inl e \<and> bkt (l_key l) r' = bkt (l_key l) r) \<or>
     (\<exists>n. res = Inr (n \<noteq> 0) \<and> lua_script (of_int \<lfloor>now\<rfloor>) (l_rate l) (l_capacity l) cost
        (bkt (l_key l) r) = (n, bkt (l_key l) r')))"
proof -
  obtain h l1 r1 where load: "ensure_script C l r = (h, l1, r1)" by (metis prod_cases3)
  note same = ensure_script_frame [OF assms(1) load]
  show ?thesis
  proof (cases h)
    case (Inl e)
    with load same assms(2) show ?thesis by (auto simp add: allow_def)
  next
    case (Inr hash)
    obtain m r2 where ev: "sc_eval C hash (l_key l) (of_int \<lfloor>now\<rfloor>) (l_rate l) (l_capacity l) cost r1 = (m, r2)"
      by fastforce
    show ?thesis
    proof (cases m)
      case (Inl e)
      then have "bkt (l_key l) r2 = bkt (l_key l) r1"
        using ev assms(1) unfolding runs_script_def by blast
      with Inl load Inr ev same assms(2) show ?thesis by (auto simp add: allow_def)
    next
      case (Inr n)
      then have "lua_script (of_int \<lfloor>now\<rfloor>) (l_rate l) (l_capacity l) cost (bkt (l_key l) r1) =
          (n, bkt (l_key l) r2)"
        using ev assms(1) unfolding runs_script_def by blast
      with Inr load \<open>h = Inr hash\<close> ev same assms(2) show ?thesis by (simp add: allow_def)
    qed
  qed
qed

lemma allow_run_bound:
  assumes "runs_script C bkt" "allow_run C cost ts l r = (n, l', r')"
    and "0 \<le> l_rate l" "0 \<le> cost" "bucket_ok (l_capacity l) (bkt (l_key l) r)"
    and "last_refill (bkt (l_key l) r) = None \<or> last_refill (bkt (l_key l) r) = Some (of_int \<lfloor>t0\<rfloor>)"
    and "sorted (t0 # ts)"
  shows "of_nat n * cost + level (l_capacity l) (bkt (l_key l) r') \<le>
    level (l_capacity l) (bkt (l_key l) r) + l_rate l * (of_int \<lfloor>last (t0 # ts)\<rfloor> - of_int \<lfloor>t0\<rfloor>)"
  using assms(2-)
proof (induction ts arbitrary: l r n t0)
  case (Cons t ts)
  obtain res l1 r1 where a: "allow C t cost l r = (res, l1, r1)" by (metis prod_cases3)
  obtain m l2 r2 where b: "allow_run C cost ts l1 r1 = (m, l2, r2)" by (metis prod_cases3)
  note st = allow_step [OF assms(1) a]
  have n: "n = (if res = Inr True then Suc m else m)" "r' = r2" "l' = l2"
    using Cons.prems(1) a b by simp_all
  have le: "t0 \<le> t" "sorted (t # ts)" using Cons.prems(6) by simp_all
  then have fl: "(of_int \<lfloor>t0\<rfloor> :: rat) \<le> of_int \<lfloor>t\<rfloor>" by (simp add: floor_mono)
  have last: "last (t0 # t # ts) = last (t # ts)" by simp
  have IH: "b \<Longrightarrow> sorted (t' # ts) \<Longrightarrow>
      last_refill (bkt (l_key l1) r1) = None \<or> last_refill (bkt (l_key l1) r1) = Some (of_int \<lfloor>t'\<rfloor>) \<Longrightarrow>
      bucket_ok (l_capacity l) (bkt (l_key l) r1) \<Longrightarrow>
      of_nat m * cost + level (l_capacity l) (bkt (l_key l) r') \<le>
      level (l_capacity l) (bkt (l_key l) r1) + l_rate l * (of_int \<lfloor>last (t' # ts)\<rfloor> - of_int \<lfloor>t'\<rfloor>)" for b t'
    using Cons.IH [of l1 r1 m t'] b st Cons.prems(2,3) n(2,3) by simp
  from st consider (err) e where "res = Inl e" "bkt (l_key l) r1 = bkt (l_key l) r"
    | (ok) k where "res = Inr (k \<noteq> 0)" "lua_script (of_int \<lfloor>t\<rfloor>) (l_rate l) (l_capacity l) cost
        (bkt (l_key l) r) = (k, bkt (l_key l) r1)" by blast
  then show ?case
  proof cases
    case err
    have "sorted (t0 # ts)" using Cons.prems(6) by simp
    from IH [OF TrueI this] err st Cons.prems(4,5)
    have "of_nat m * cost + level (l_capacity l) (bkt (l_key l) r') \<le>
      level (l_capacity l) (bkt (l_key l) r) + l_rate l * (of_int \<lfloor>last (t0 # ts)\<rfloor> - of_int \<lfloor>t0\<rfloor>)"
      by simp
    moreover have "last (t0 # ts) \<le> last (t # ts)" using le(1) by simp
    then have "l_rate l * (of_int \<lfloor>last (t0 # ts)\<rfloor> - of_int \<lfloor>t0\<rfloor>) \<le>
        l_rate l * (of_int \<lfloor>last (t0 # t # ts)\<rfloor> - of_int \<lfloor>t0\<rfloor>)"
      using Cons.prems(2) by (intro mult_left_mono) (simp_all add: floor_mono)
    ultimately show ?thesis using n err by simp
  next
    case ok
    note step = lua_script_step [OF ok(2) Cons.prems(4,2,3)]
    have first: "of_int k * cost + level (l_capacity l) (bkt (l_key l) r1) \<le>
        level (l_capacity l) (bkt (l_key l) r) + l_rate l * (of_int \<lfloor>t\<rfloor> - of_int \<lfloor>t0\<rfloor>)"
      by (rule step(4) [OF Cons.prems(5) fl])
    have rest: "of_nat m * cost + level (l_capacity l) (bkt (l_key l) r') \<le>
        level (l_capacity l) (bkt (l_key l) r1) + l_rate l * (of_int \<lfloor>last (t # ts)\<rfloor> - of_int \<lfloor>t\<rfloor>)"
      using IH [OF TrueI le(2)] step(1,2) st by simp
    have "of_nat n * cost = of_int k * cost + of_nat m * cost"
      using n(1) ok(1) step(3) by (auto simp: algebra_simps)
    with first rest last show ?thesis by (simp add: algebra_simps)
  qed
qed simp

lemma allow_run_ok:
  assumes "runs_script C bkt" "allow_run C cost ts l r = (n, l', r')"
    and "0 \<le> l_rate l" "0 \<le> cost" "bucket_ok (l_capacity l) (bkt (l_key l) r)"
  shows "bucket_ok (l_capacity l) (bkt (l_key l) r')"
  using assms(2-)
proof (induction ts arbitrary: l r n)
  case (Cons t ts)
  obtain res l1 r1 where a: "allow C t cost l r = (res, l1, r1)" by (metis prod_cases3)
  obtain m l2 r2 where b: "allow_run C cost ts l1 r1 = (m, l2, r2)" by (metis prod_cases3)
  note st = allow_step [OF assms(1) a]
  then have "bucket_ok (l_capacity l) (bkt (l_key l) r1)"
    using lua_script_step(1) Cons.prems by metis
  then have "bucket_ok (l_capacity l) (bkt (l_key l) r2)"
    using Cons.IH [of l1 r1 m] Cons.prems a b st by simp
  with Cons.prems a b show ?case by simp
qed simp

text \<open>An in-memory script client for the witnesses: the state maps keys to buckets.\<close>

definition mem_scripts :: "(string \<Rightarrow> bucket) script_client" where
  "mem_scripts = \<lparr>sc_load = (\<lambda>r. (Inr ''sha'', r)),
     sc_eval = (\<lambda>h k now rate capacity cost r.
       (case lua_script now rate capacity cost (r k) of (n, b) \<Rightarrow> (Inr n, r(k := b))))\<rparr>"

lemma mem_runs_script: "runs_script mem_scripts (\<lambda>k r. r k)"
  by (auto simp: runs_script_def mem_scripts_def split: prod.splits)

section \<open>Properties\<close>

text \<open>C27. The rate limit holds: the calls one instance makes at non-decreasing times from \<open>t0\<close> on are
  allowed at most as often as the tokens in the bucket, so at most its capacity, plus the rate
  times the whole seconds passed allow. This is whatever \<open>SCRIPT LOAD\<close> or \<open>EVALSHA\<close> raise between.\<close>

theorem limiter_rate_bound:
  assumes "runs_script C bkt" "allow_run C cost ts l r = (n, l', r')" "sorted (t0 # ts)"
    and "0 \<le> l_rate l" "0 \<le> cost" "bucket_ok (l_capacity l) (bkt (l_key l) r)"
    and "last_refill (bkt (l_key l) r) = None \<or> last_refill (bkt (l_key l) r) = Some (of_int \<lfloor>t0\<rfloor>)"
  shows "of_nat n * cost \<le> l_capacity l + l_rate l * (of_int \<lfloor>last (t0 # ts)\<rfloor> - of_int \<lfloor>t0\<rfloor>)"
  using allow_run_bound [OF assms(1,2,4-7,3)] assms(6) allow_run_ok [OF assms(1,2,4-6)]
  unfolding bucket_ok_def by linarith

theorem limiter_rate_bound_witness:
  "of_nat (fst (allow_run mem_scripts 1 [0, 1, 1, 3] api_limiter (\<lambda>_. no_bucket))) \<le> (450 :: rat)"
proof -
  obtain n l' r' where run: "allow_run mem_scripts 1 [0, 1, 1, 3] api_limiter (\<lambda>_. no_bucket) = (n, l', r')"
    by (metis prod_cases3)
  have "of_nat n * 1 \<le> l_capacity api_limiter +
      l_rate api_limiter * (of_int \<lfloor>last (0 # [0, 1, 1, 3 :: rat])\<rfloor> - of_int \<lfloor>0 :: rat\<rfloor>)"
    by (rule limiter_rate_bound [OF mem_runs_script run])
       (simp_all add: api_limiter_def no_bucket_def bucket_ok_def level_def)
  with run show ?thesis by (simp add: api_limiter_def)
qed

text \<open>Clocks that disagree defeat the limit. The script stores the caller's time even when it lies
  before the stored one, so two API instances whose clocks are \<open>d\<close> seconds apart, \<open>d\<close> times the
  rate covering the capacity, that call in turn, at one moment, have every call of the one ahead
  allowed: \<open>n\<close> rounds allow at least \<open>n\<close> calls although no time has passed.\<close>

theorem skewed_clocks_defeat_limit:
  assumes "0 < cost" "cost \<le> capacity" "capacity \<le> d * rate" "0 \<le> d" "0 \<le> rate"
    and "bucket_ok capacity b" "last_refill b = None \<or> last_refill b = Some (t - d)"
    and "tokens b = None \<longleftrightarrow> last_refill b = None"
  shows "n \<le> fst (script_run rate capacity cost (concat (replicate n [t, t - d])) b)"
  using assms(6-8)
proof (induction n arbitrary: b)
  case (Suc n)
  obtain k1 b1 where s1: "lua_script t rate capacity cost b = (k1, b1)" by fastforce
  obtain k2 b2 where s2: "lua_script (t - d) rate capacity cost b1 = (k2, b2)" by fastforce
  have "k1 = 1"
    using s1 assms(1-5) Suc.prems
    by (cases "last_refill b"; cases "tokens b")
       (auto simp: lua_script_def Let_def level_def bucket_ok_def split: if_splits)
  moreover note ok1 = lua_script_step(1) [OF s1 Suc.prems(1) assms(5)]
  have "bucket_ok capacity b1" using ok1 assms(1) by simp
  then have "bucket_ok capacity b2" "last_refill b2 = Some (t - d)"
    using lua_script_step(1,2) [OF s2] assms(1,5) by simp_all
  moreover have "tokens b2 \<noteq> None"
    using s2 by (auto simp: lua_script_def Let_def split: if_splits)
  ultimately have "n \<le> fst (script_run rate capacity cost (concat (replicate n [t, t - d])) b2)"
    using Suc.IH [of b2] by auto
  with s1 s2 \<open>k1 = 1\<close> show ?case by (auto split: prod.split)
qed simp

theorem skewed_clocks_defeat_limit_witness:
  "1000 \<le> fst (script_run 100 150 1 (concat (replicate 1000 [1700000000, 1700000000 - 2])) no_bucket)"
  by (rule skewed_clocks_defeat_limit) (simp_all add: no_bucket_def bucket_ok_def level_def)

end
