(* ===== verification/Circuit.thy ===== *)
theory Circuit
  imports Redis "HOL-Library.AList"
begin

text \<open>
  \<open>CircuitBreaker\<close> of \<open>api/main.py\<close>, over the Redis commands it sends, which are parameters. The
  clock reading is an argument; a float written with \<open>str\<close> and read back with \<open>float\<close> is the same
  number, so the text of a reading is \<open>show_time\<close> of it and \<open>read_time\<close> reads it.
\<close>

record 'r kv_client =
  kv_get :: "string \<Rightarrow> ('r, exn, string option) io"
  kv_set :: "string \<Rightarrow> string \<Rightarrow> ('r, exn, unit) io"
  kv_del :: "string list \<Rightarrow> ('r, exn, unit) io"
  kv_zadd_trim :: "string \<Rightarrow> string \<Rightarrow> rat \<Rightarrow> rat \<Rightarrow> ('r, exn, unit) io"
    \<comment> \<open>the pipeline: ZADD key member score, ZREMRANGEBYSCORE key -inf bound\<close>
  kv_zcount :: "string \<Rightarrow> rat \<Rightarrow> rat \<Rightarrow> ('r, exn, int) io"

record breaker =
  cb_name :: string
  cb_threshold :: int
  cb_window :: rat
  cb_half_open_after :: rat

definition default_breaker :: "string \<Rightarrow> breaker" where
  "default_breaker name = \<lparr>cb_name = name, cb_threshold = 5, cb_window = 60, cb_half_open_after = 30\<rparr>"

definition cb_key :: "breaker \<Rightarrow> string" where
  "cb_key b = ''circuitbreaker:'' @ cb_name b"

definition state_key :: "breaker \<Rightarrow> string" where
  "state_key b = cb_key b @ '':state''"

definition failure_key :: "breaker \<Rightarrow> string" where
  "failure_key b = cb_key b @ '':last_failure''"

definition record_failure :: "'r kv_client \<Rightarrow> (rat \<Rightarrow> string) \<Rightarrow> breaker \<Rightarrow> rat \<Rightarrow> ('r, exn, unit) io" where
  "record_failure C show_time b now = kv_zadd_trim C (cb_key b) (show_time now) now (now - cb_window b)"

definition is_open :: "'r kv_client \<Rightarrow> (string \<Rightarrow> exn + rat) \<Rightarrow> breaker \<Rightarrow> rat \<Rightarrow> ('r, exn, bool) io" where
  "is_open C read_time b now =
     io_bind (kv_get C (state_key b)) (\<lambda>state.
       if state = None \<or> state = Some ''CLOSED'' then io_ret False
       else if state = Some ''HALF_OPEN'' then io_ret False
       else io_bind (kv_get C (failure_key b)) (\<lambda>last_failure.
         if last_failure \<noteq> None \<and> last_failure \<noteq> Some [] then
           io_bind (io_lift (read_time (the last_failure))) (\<lambda>t.
             if cb_half_open_after b < now - t then
               io_bind (kv_set C (state_key b) ''HALF_OPEN'') (\<lambda>_. io_ret False)
             else io_ret True)
         else io_ret True))"

definition maybe_trip :: "'r kv_client \<Rightarrow> (rat \<Rightarrow> string) \<Rightarrow> breaker \<Rightarrow> rat \<Rightarrow> ('r, exn, bool) io" where
  "maybe_trip C show_time b now =
     io_bind (kv_zcount C (cb_key b) (now - cb_window b) now) (\<lambda>count.
       if cb_threshold b \<le> count then
         io_bind (kv_set C (state_key b) ''OPEN'') (\<lambda>_.
         io_bind (kv_set C (failure_key b) (show_time now)) (\<lambda>_. io_ret True))
       else io_ret False)"

definition reset :: "'r kv_client \<Rightarrow> breaker \<Rightarrow> ('r, exn, unit) io" where
  "reset C b = kv_del C [cb_key b, state_key b, failure_key b]"

section \<open>The abstract breaker\<close>

text \<open>
  What the keys of a breaker mean: the state machine of the class comment, with the time of the last
  trip while it is open.
\<close>

datatype circuit = Closed | Open rat | Half_open

text \<open>
  The documented behaviour of the commands on texts: \<open>val\<close> reads the value under a key, \<open>score\<close> the
  failures of a sorted set as member and score. \<open>GET\<close> answers the value and changes nothing, \<open>SET\<close>
  and \<open>DEL\<close> change their keys only; the sorted set commands leave the texts alone, and \<open>ZCOUNT\<close>
  counts the members scored in the range.
\<close>

definition kv_documented ::
    "'r kv_client \<Rightarrow> (string \<Rightarrow> 'r \<Rightarrow> string option) \<Rightarrow> (string \<Rightarrow> 'r \<Rightarrow> (string \<times> rat) list) \<Rightarrow> bool" where
  "kv_documented C val zset \<longleftrightarrow>
     (\<forall>k r. kv_get C k r = (Inr (val k r), r)) \<and>
     (\<forall>k v r. \<exists>r'. kv_set C k v r = (Inr (), r') \<and>
        (\<forall>k'. val k' r' = (if k' = k then Some v else val k' r)) \<and> (\<forall>k'. zset k' r' = zset k' r)) \<and>
     (\<forall>ks r. \<exists>r'. kv_del C ks r = (Inr (), r') \<and>
        (\<forall>k'. val k' r' = (if k' \<in> set ks then None else val k' r)) \<and>
        (\<forall>k'. zset k' r' = (if k' \<in> set ks then [] else zset k' r))) \<and>
     (\<forall>k m s bound r. \<exists>r'. kv_zadd_trim C k m s bound r = (Inr (), r') \<and>
        (\<forall>k'. val k' r' = val k' r) \<and>
        (\<forall>k'. zset k' r' = (if k' = k then
           filter (\<lambda>e. bound < snd e) (AList.update m s (zset k r)) else zset k' r))) \<and>
     (\<forall>k lo hi r. kv_zcount C k lo hi r =
        (Inr (int (length (filter (\<lambda>e. lo \<le> snd e \<and> snd e \<le> hi) (zset k r)))), r))"

definition circuit_of ::
    "(string \<Rightarrow> 'r \<Rightarrow> string option) \<Rightarrow> (string \<Rightarrow> exn + rat) \<Rightarrow> breaker \<Rightarrow> 'r \<Rightarrow> circuit option" where
  "circuit_of val read_time b r =
     (case val (state_key b) r of
        None \<Rightarrow> Some Closed
      | Some s \<Rightarrow>
          if s = ''CLOSED'' then Some Closed
          else if s = ''HALF_OPEN'' then Some Half_open
          else if s = ''OPEN'' then
            (case val (failure_key b) r of
               None \<Rightarrow> None
             | Some f \<Rightarrow> (case read_time f of Inl _ \<Rightarrow> None | Inr t \<Rightarrow> if f = [] then None else Some (Open t)))
          else None)"

fun circuit_check :: "rat \<Rightarrow> rat \<Rightarrow> circuit \<Rightarrow> bool \<times> circuit" where
  "circuit_check half_open_after now Closed = (False, Closed)"
| "circuit_check half_open_after now Half_open = (False, Half_open)"
| "circuit_check half_open_after now (Open t) =
     (if half_open_after < now - t then (False, Half_open) else (True, Open t))"

lemma breaker_keys [simp]:
  "state_key b \<noteq> failure_key b" "state_key b \<noteq> cb_key b" "failure_key b \<noteq> cb_key b"
  "failure_key b \<noteq> state_key b" "cb_key b \<noteq> state_key b" "cb_key b \<noteq> failure_key b"
  by (simp_all add: state_key_def failure_key_def)

lemma kv_get_val: "kv_documented C val zset \<Longrightarrow> kv_get C k r = (Inr (val k r), r)"
  by (simp add: kv_documented_def)

lemma kv_set_val:
  "kv_documented C val zset \<Longrightarrow> \<exists>r'. kv_set C k v r = (Inr (), r') \<and>
     (\<forall>k'. val k' r' = (if k' = k then Some v else val k' r)) \<and> (\<forall>k'. zset k' r' = zset k' r)"
  by (simp add: kv_documented_def)

text \<open>An in-memory client for the witnesses.\<close>

record mem_kv =
  texts :: "string \<Rightarrow> string option"
  zsets :: "string \<Rightarrow> (string \<times> rat) list"

definition mem_kv_client :: "mem_kv kv_client" where
  "mem_kv_client = \<lparr>kv_get = (\<lambda>k m. (Inr (texts m k), m)),
     kv_set = (\<lambda>k v m. (Inr (), m\<lparr>texts := (texts m)(k := Some v)\<rparr>)),
     kv_del = (\<lambda>ks m. (Inr (), m\<lparr>texts := (\<lambda>k. if k \<in> set ks then None else texts m k),
        zsets := (\<lambda>k. if k \<in> set ks then [] else zsets m k)\<rparr>)),
     kv_zadd_trim = (\<lambda>k mem s bound m. (Inr (), m\<lparr>zsets := (zsets m)
        (k := filter (\<lambda>e. bound < snd e) (AList.update mem s (zsets m k)))\<rparr>)),
     kv_zcount = (\<lambda>k lo hi m.
        (Inr (int (length (filter (\<lambda>e. lo \<le> snd e \<and> snd e \<le> hi) (zsets m k)))), m))\<rparr>"

lemma mem_kv_documented: "kv_documented mem_kv_client (\<lambda>k m. texts m k) (\<lambda>k m. zsets m k)"
  by (simp add: kv_documented_def mem_kv_client_def)

definition quiet_kv :: mem_kv where
  "quiet_kv = \<lparr>texts = (\<lambda>_. None), zsets = (\<lambda>_. [])\<rparr>"

definition open_kv :: mem_kv where
  "open_kv = quiet_kv\<lparr>texts := (\<lambda>_. None)(state_key (default_breaker ''db'') := Some ''OPEN'',
     failure_key (default_breaker ''db'') := Some ''7'')\<rparr>"

section \<open>One operation\<close>

text \<open>\<open>is_open\<close> answers and moves as the abstract breaker does.\<close>

lemma is_open_refines:
  assumes "kv_documented C val zset" "circuit_of val read_time b r = Some s"
  shows "\<exists>r'. is_open C read_time b now r = (Inr (fst (circuit_check (cb_half_open_after b) now s)), r') \<and>
    circuit_of val read_time b r' = Some (snd (circuit_check (cb_half_open_after b) now s)) \<and>
    zset (cb_key b) r' = zset (cb_key b) r"
proof -
  note get = kv_get_val [OF assms(1)]
  obtain r1 where r1: "kv_set C (state_key b) ''HALF_OPEN'' r = (Inr (), r1)"
    "\<And>k'. val k' r1 = (if k' = state_key b then Some ''HALF_OPEN'' else val k' r)"
    "\<And>k'. zset k' r1 = zset k' r"
    using kv_set_val [OF assms(1), of "state_key b" "''HALF_OPEN''" r] by blast
  show ?thesis
  proof (cases s)
    case (Open t)
    then obtain f where f: "val (state_key b) r = Some ''OPEN''" "val (failure_key b) r = Some f"
      "read_time f = Inr t" "f \<noteq> []"
      using assms(2) by (auto simp: circuit_of_def split: option.splits sum.splits if_splits)
    show ?thesis
    proof (cases "cb_half_open_after b < now - t")
      case True
      with f Open r1 show ?thesis by (auto simp: is_open_def io_bind_def get circuit_of_def)
    next
      case False
      with f Open show ?thesis by (auto simp: is_open_def io_bind_def get circuit_of_def)
    qed
  qed (use assms(2) in \<open>auto simp: is_open_def io_bind_def get circuit_of_def split: option.splits if_splits sum.splits\<close>)
qed

text \<open>\<open>maybe_trip\<close> answers whether the failures in the window reach the threshold, and opens the breaker
  when they do.\<close>

lemma maybe_trip_refines:
  assumes "kv_documented C val zset" "read_time (show_time now) = Inr now" "show_time now \<noteq> []"
    and "circuit_of val read_time b r = Some s"
    and "n = int (length (filter (\<lambda>e. now - cb_window b \<le> snd e \<and> snd e \<le> now) (zset (cb_key b) r)))"
  shows "\<exists>r'. maybe_trip C show_time b now r = (Inr (cb_threshold b \<le> n), r') \<and>
    circuit_of val read_time b r' = Some (if cb_threshold b \<le> n then Open now else s) \<and>
    zset (cb_key b) r' = zset (cb_key b) r"
proof -
  have count: "kv_zcount C (cb_key b) (now - cb_window b) now r = (Inr n, r)"
    using assms(1,5) by (simp add: kv_documented_def)
  obtain r1 where r1: "kv_set C (state_key b) ''OPEN'' r = (Inr (), r1)"
    "\<And>k'. val k' r1 = (if k' = state_key b then Some ''OPEN'' else val k' r)" "\<And>k'. zset k' r1 = zset k' r"
    using kv_set_val [OF assms(1), of "state_key b" "''OPEN''" r] by blast
  obtain r2 where r2: "kv_set C (failure_key b) (show_time now) r1 = (Inr (), r2)"
    "\<And>k'. val k' r2 = (if k' = failure_key b then Some (show_time now) else val k' r1)"
    "\<And>k'. zset k' r2 = zset k' r1"
    using kv_set_val [OF assms(1), of "failure_key b" "show_time now" r1] by blast
  show ?thesis
  proof (cases "cb_threshold b \<le> n")
    case True
    with count r1 r2 assms(2,3) show ?thesis
      by (auto simp: maybe_trip_def io_bind_def circuit_of_def)
  next
    case False
    with count assms(4) show ?thesis by (auto simp: maybe_trip_def io_bind_def)
  qed
qed

section \<open>Sequences of operations\<close>

datatype breaker_op = Fail rat | Check rat | Trip rat | Reset

text \<open>The abstract breaker: the state machine and the times of the failures in the window.\<close>

fun spec_op :: "breaker \<Rightarrow> breaker_op \<Rightarrow> circuit \<times> rat set \<Rightarrow> bool option \<times> circuit \<times> rat set" where
  "spec_op b (Fail now) (c, F) = (None, c, {t \<in> insert now F. now - cb_window b < t})"
| "spec_op b (Check now) (c, F) =
     (case circuit_check (cb_half_open_after b) now c of (answer, c) \<Rightarrow> (Some answer, c, F))"
| "spec_op b (Trip now) (c, F) =
     (if cb_threshold b \<le> int (card {t \<in> F. now - cb_window b \<le> t \<and> t \<le> now})
      then (Some True, Open now, F) else (Some False, c, F))"
| "spec_op b Reset (c, F) = (None, Closed, {})"

fun spec_run :: "breaker \<Rightarrow> breaker_op list \<Rightarrow> circuit \<times> rat set \<Rightarrow> bool option list \<times> circuit \<times> rat set" where
  "spec_run b [] s = ([], s)"
| "spec_run b (p # ps) s = (case spec_op b p s of (a, s) \<Rightarrow> (case spec_run b ps s of (as, s) \<Rightarrow> (a # as, s)))"

fun run_op ::
    "'r kv_client \<Rightarrow> (rat \<Rightarrow> string) \<Rightarrow> (string \<Rightarrow> exn + rat) \<Rightarrow> breaker \<Rightarrow> breaker_op \<Rightarrow>
     ('r, exn, bool option) io" where
  "run_op C show_time read_time b (Fail now) =
     io_bind (record_failure C show_time b now) (\<lambda>_. io_ret None)"
| "run_op C show_time read_time b (Check now) =
     io_bind (is_open C read_time b now) (\<lambda>answer. io_ret (Some answer))"
| "run_op C show_time read_time b (Trip now) =
     io_bind (maybe_trip C show_time b now) (\<lambda>answer. io_ret (Some answer))"
| "run_op C show_time read_time b Reset = io_bind (reset C b) (\<lambda>_. io_ret None)"

fun breaker_run ::
    "'r kv_client \<Rightarrow> (rat \<Rightarrow> string) \<Rightarrow> (string \<Rightarrow> exn + rat) \<Rightarrow> breaker \<Rightarrow> breaker_op list \<Rightarrow>
     ('r, exn, bool option list) io" where
  "breaker_run C show_time read_time b [] = io_ret []"
| "breaker_run C show_time read_time b (p # ps) =
     io_bind (run_op C show_time read_time b p) (\<lambda>a.
     io_bind (breaker_run C show_time read_time b ps) (\<lambda>as. io_ret (a # as)))"

text \<open>The keys of a breaker stand for an abstract one; a failure's member is the text of its time.\<close>

definition stands_for ::
    "(string \<Rightarrow> 'r \<Rightarrow> string option) \<Rightarrow> (string \<Rightarrow> 'r \<Rightarrow> (string \<times> rat) list) \<Rightarrow> (rat \<Rightarrow> string) \<Rightarrow>
     (string \<Rightarrow> exn + rat) \<Rightarrow> breaker \<Rightarrow> 'r \<Rightarrow> circuit \<times> rat set \<Rightarrow> bool" where
  "stands_for val zset show_time read_time b r s \<longleftrightarrow>
     circuit_of val read_time b r = Some (fst s) \<and>
     distinct (map fst (zset (cb_key b) r)) \<and>
     set (zset (cb_key b) r) = (\<lambda>t. (show_time t, t)) ` snd s"

lemma stamps_count:
  assumes "distinct (map fst z)" "set z = (\<lambda>t. (show_time t, t)) ` F"
  shows "length (filter (\<lambda>e. P (snd e)) z) = card {t \<in> F. P t}"
proof -
  have "distinct (filter (\<lambda>e. P (snd e)) z)" using assms(1) distinct_map by (intro distinct_filter) blast
  then have "length (filter (\<lambda>e. P (snd e)) z) = card (set (filter (\<lambda>e. P (snd e)) z))"
    by (rule distinct_card [symmetric])
  also have "set (filter (\<lambda>e. P (snd e)) z) = (\<lambda>t. (show_time t, t)) ` {t \<in> F. P t}"
    using assms(2) by auto
  also have "card \<dots> = card {t \<in> F. P t}" by (intro card_image) (auto simp: inj_on_def)
  finally show ?thesis .
qed

lemma stamps_add:
  assumes "inj show_time" "distinct (map fst z)" "set z = (\<lambda>t. (show_time t, t)) ` F"
  shows "distinct (map fst (AList.update (show_time now) now z))"
    and "set (AList.update (show_time now) now z) = (\<lambda>t. (show_time t, t)) ` insert now F"
proof -
  show d: "distinct (map fst (AList.update (show_time now) now z))"
    by (rule distinct_update [OF assms(2)])
  have old: "(m, t) \<in> set z \<longleftrightarrow> m = show_time t \<and> t \<in> F" for m t using assms(3) by auto
  have "(m, t) \<in> set (AList.update (show_time now) now z) \<longleftrightarrow> m = show_time t \<and> t \<in> insert now F" for m t
  proof -
    have "(m, t) \<in> set (AList.update (show_time now) now z) \<longleftrightarrow>
        ((map_of z)(show_time now \<mapsto> now)) m = Some t"
      by (simp only: map_of_eq_Some_iff [OF d, symmetric] update_conv')
    also have "\<dots> \<longleftrightarrow> (if m = show_time now then t = now else (m, t) \<in> set z)"
      using map_of_eq_Some_iff [OF assms(2)] by auto
    also have "\<dots> \<longleftrightarrow> m = show_time t \<and> t \<in> insert now F"
      using old injD [OF assms(1)] by auto
    finally show ?thesis .
  qed
  then show "set (AList.update (show_time now) now z) = (\<lambda>t. (show_time t, t)) ` insert now F"
    by auto
qed

lemma run_op_refines:
  assumes "kv_documented C val zset" "\<And>t. read_time (show_time t) = Inr t" "\<And>t. show_time t \<noteq> []"
    and "stands_for val zset show_time read_time b r s"
  shows "\<exists>r'. run_op C show_time read_time b p r = (Inr (fst (spec_op b p s)), r') \<and>
    stands_for val zset show_time read_time b r' (snd (spec_op b p s))"
proof -
  obtain c F where s: "s = (c, F)" by (cases s)
  have circ: "circuit_of val read_time b r = Some c" and d: "distinct (map fst (zset (cb_key b) r))"
    and set: "set (zset (cb_key b) r) = (\<lambda>t. (show_time t, t)) ` F"
    using assms(4) by (simp_all add: stands_for_def s)
  have inj: "inj show_time" using assms(2) by (metis injI sum.inject(2))
  show ?thesis
  proof (cases p)
    case (Fail now)
    let ?z = "AList.update (show_time now) now (zset (cb_key b) r)"
    obtain r' where r': "kv_zadd_trim C (cb_key b) (show_time now) now (now - cb_window b) r = (Inr (), r')"
      "\<And>k. val k r' = val k r" "zset (cb_key b) r' = filter (\<lambda>e. now - cb_window b < snd e) ?z"
      using assms(1) unfolding kv_documented_def by metis
    have "circuit_of val read_time b r' = Some c" using circ unfolding circuit_of_def r'(2) .
    moreover have "distinct (map fst (zset (cb_key b) r'))"
      unfolding r'(3) by (intro distinct_map_filter stamps_add(1) [OF inj d set])
    moreover have "set (zset (cb_key b) r') = (\<lambda>t. (show_time t, t)) ` {t \<in> insert now F. now - cb_window b < t}"
      unfolding r'(3) set_filter stamps_add(2) [OF inj d set] by auto
    ultimately show ?thesis
      using r'(1) Fail s by (simp add: io_bind_def record_failure_def stands_for_def)
  next
    case (Check now)
    obtain r' where r': "is_open C read_time b now r = (Inr (fst (circuit_check (cb_half_open_after b) now c)), r')"
      "circuit_of val read_time b r' = Some (snd (circuit_check (cb_half_open_after b) now c))"
      "zset (cb_key b) r' = zset (cb_key b) r"
      using is_open_refines [OF assms(1) circ] by blast
    then show ?thesis
      using Check s d set by (simp add: io_bind_def stands_for_def split: prod.split)
  next
    case (Trip now)
    let ?n = "int (card {t \<in> F. now - cb_window b \<le> t \<and> t \<le> now})"
    have n: "?n = int (length (filter (\<lambda>e. now - cb_window b \<le> snd e \<and> snd e \<le> now) (zset (cb_key b) r)))"
      using stamps_count [OF d set, of "\<lambda>t. now - cb_window b \<le> t \<and> t \<le> now"] by simp
    obtain r' where r':
      "maybe_trip C show_time b now r = (Inr (cb_threshold b \<le> ?n), r')"
      "circuit_of val read_time b r' = Some (if cb_threshold b \<le> ?n then Open now else c)"
      "zset (cb_key b) r' = zset (cb_key b) r"
      using maybe_trip_refines [where val = val and zset = zset and now = now and n = ?n and s = c and r = r
          and b = b and C = C and show_time = show_time and read_time = read_time] assms(1-3) circ n
      by blast
    then show ?thesis using Trip s d set by (simp add: io_bind_def stands_for_def)
  next
    case Reset
    obtain r' where r': "kv_del C [cb_key b, state_key b, failure_key b] r = (Inr (), r')"
      "val (state_key b) r' = None" "zset (cb_key b) r' = []"
      using assms(1) unfolding kv_documented_def by (metis list.set_intros(1) list.set_intros(2))
    then show ?thesis
      using Reset s by (simp add: io_bind_def reset_def stands_for_def circuit_of_def)
  qed
qed

section \<open>Properties\<close>

text \<open>C14. The breaker refines its specification: over commands that behave as documented, any sequence of
  recorded failures, checks, trips and resets gives the answers of the abstract breaker, which keeps
  the state machine of the class comment and the set of the failures of the window, and leaves the
  keys standing for its state.\<close>

theorem breaker_run_refines:
  assumes "kv_documented C val zset" "\<And>t. read_time (show_time t) = Inr t" "\<And>t. show_time t \<noteq> []"
    and "stands_for val zset show_time read_time b r s"
  shows "\<exists>r'. breaker_run C show_time read_time b ps r = (Inr (fst (spec_run b ps s)), r') \<and>
    stands_for val zset show_time read_time b r' (snd (spec_run b ps s))"
  using assms(4)
proof (induction ps arbitrary: r s)
  case (Cons p ps)
  obtain a s1 where p: "spec_op b p s = (a, s1)" by (cases "spec_op b p s")
  obtain as s2 where ps: "spec_run b ps s1 = (as, s2)" by (cases "spec_run b ps s1")
  obtain r1 where r1: "run_op C show_time read_time b p r = (Inr a, r1)"
    "stands_for val zset show_time read_time b r1 s1"
    using run_op_refines [OF assms(1-3) Cons.prems, of p] p by auto
  obtain r2 where "breaker_run C show_time read_time b ps r1 = (Inr as, r2)"
    "stands_for val zset show_time read_time b r2 s2"
    using Cons.IH [OF r1(2)] ps by auto
  with r1(1) p ps show ?case by (simp add: io_bind_def io_ret_def)
qed (simp add: io_ret_def)

text \<open>The witnesses: times written as the numerator and the denominator in unary.\<close>

definition unary_time :: "rat \<Rightarrow> string" where
  "unary_time t = (case quotient_of t of (n, d) \<Rightarrow>
     (if n < 0 then ''-'' else ''+'') @ replicate (nat \<bar>n\<bar>) CHR ''n'' @ replicate (nat d) CHR ''d'')"

definition read_unary :: "string \<Rightarrow> exn + rat" where
  "read_unary s =
     (let k = int (length (filter ((=) CHR ''n'') s));
          n = (if hd s = CHR ''-'' then - k else k)
      in Inr (Fract n (int (length (filter ((=) CHR ''d'') s)))))"

lemma read_unary_time: "read_unary (unary_time t) = Inr t" "unary_time t \<noteq> []"
proof -
  obtain n d where q: "quotient_of t = (n, d)" by fastforce
  have "d > 0" using quotient_of_denom_pos [OF q] .
  moreover have "Fract n d = t" using q quotient_of_div [OF q] by (simp add: Fract_of_int_quotient)
  ultimately show "read_unary (unary_time t) = Inr t"
    by (simp add: read_unary_def unary_time_def q Let_def)
  show "unary_time t \<noteq> []" by (simp add: unary_time_def q)
qed

lemma quiet_stands: "stands_for (\<lambda>k m. texts m k) (\<lambda>k m. zsets m k) unary_time read_unary b quiet_kv (Closed, {})"
  by (simp add: stands_for_def quiet_kv_def circuit_of_def)

theorem breaker_run_refines_witness:
  "\<exists>r'. breaker_run mem_kv_client unary_time read_unary ((default_breaker ''db'')\<lparr>cb_threshold := 1\<rparr>)
     [Check 0, Fail 1, Trip 2, Check 3, Check 40, Reset] quiet_kv =
     (Inr [Some False, None, Some True, Some True, Some False, None], r')"
proof -
  let ?b = "(default_breaker ''db'')\<lparr>cb_threshold := 1\<rparr>"
  have F: "{t. t = 1 \<and> - 59 < t \<and> - 58 \<le> t \<and> t \<le> 2} = {1 :: rat}" by auto
  have "fst (spec_run ?b [Check 0, Fail 1, Trip 2, Check 3, Check 40, Reset] (Closed, {})) =
      [Some False, None, Some True, Some True, Some False, None]"
    by (simp add: default_breaker_def F)
  with breaker_run_refines [OF mem_kv_documented read_unary_time quiet_stands, of ?b
      "[Check 0, Fail 1, Trip 2, Check 3, Check 40, Reset]"]
  show ?thesis by auto
qed

text \<open>Half open lets everything through. Once the breaker is half open, every check answers that it
  is not open, at any time and however many failures are recorded, until the breaker is tripped or
  reset by a call of its own; the comment says that one request passes.\<close>

theorem half_open_lets_everything_through:
  assumes "kv_documented C val zset" "\<And>t. read_time (show_time t) = Inr t" "\<And>t. show_time t \<noteq> []"
    and "stands_for val zset show_time read_time b r (Half_open, F)"
    and "\<forall>p\<in>set ps. \<exists>t. p = Fail t \<or> p = Check t"
  shows "\<exists>r' F'. breaker_run C show_time read_time b ps r =
      (Inr (map (\<lambda>p. case p of Check _ \<Rightarrow> Some False | _ \<Rightarrow> None) ps), r') \<and>
    stands_for val zset show_time read_time b r' (Half_open, F')"
  using assms(4,5)
proof (induction ps arbitrary: r F)
  case (Cons p ps)
  from Cons.prems(2) obtain F1 where p: "spec_op b p (Half_open, F) =
      ((case p of Check _ \<Rightarrow> Some False | _ \<Rightarrow> None), Half_open, F1)"
    by fastforce
  obtain r1 where r1: "run_op C show_time read_time b p r = (Inr (case p of Check _ \<Rightarrow> Some False | _ \<Rightarrow> None), r1)"
    "stands_for val zset show_time read_time b r1 (Half_open, F1)"
    using run_op_refines [OF assms(1-3) Cons.prems(1), of p] p by auto
  obtain r2 F2 where "breaker_run C show_time read_time b ps r1 =
      (Inr (map (\<lambda>p. case p of Check _ \<Rightarrow> Some False | _ \<Rightarrow> None) ps), r2)"
    "stands_for val zset show_time read_time b r2 (Half_open, F2)"
    using Cons.IH [OF r1(2)] Cons.prems(2) by auto
  with r1(1) show ?case by (auto simp: io_bind_def io_ret_def)
qed (auto simp: io_ret_def)

theorem half_open_lets_everything_through_witness:
  "\<exists>r'. breaker_run mem_kv_client unary_time read_unary (default_breaker ''db'')
     (replicate 9 (Check 1)) (quiet_kv\<lparr>texts := (\<lambda>_. None)(state_key (default_breaker ''db'') := Some ''HALF_OPEN'')\<rparr>) =
     (Inr (replicate 9 (Some False)), r')"
proof -
  let ?r = "quiet_kv\<lparr>texts := (\<lambda>_. None)(state_key (default_breaker ''db'') := Some ''HALF_OPEN'')\<rparr>"
  have "stands_for (\<lambda>k m. texts m k) (\<lambda>k m. zsets m k) unary_time read_unary (default_breaker ''db'') ?r (Half_open, {})"
    by (simp add: stands_for_def quiet_kv_def circuit_of_def)
  from half_open_lets_everything_through [OF mem_kv_documented read_unary_time this, of "replicate 9 (Check 1)"]
  show ?thesis by auto
qed

end
