(* ===== verification/Api.thy ===== *)
theory Api
  imports Enqueue RateLimiter
begin

text \<open>
  \<open>api/main.py\<close>: request validation and the endpoints, as the functions they are: a request is the
  record of its typed fields, checked by the constraints the model class declares, and an endpoint
  returns the reply it builds, the \<open>HTTPException\<close> it raises, or the exception that escapes it (which
  the framework turns into a 500). \<open>Serve\<close> adds bodies, routes and middlewares.

  The globals are set together when the application has started, so one flag says whether they
  are; the enqueuer's store is the store of the world.
\<close>

section \<open>Requests\<close>

definition max_payload_bytes :: nat where
  "max_payload_bytes = 1024 * 1024"

record enqueue_request =
  rq_kind :: string
  rq_payload :: "(string \<times> json) list"
  rq_queue :: string
  rq_key :: "string option"
  rq_max_retries :: int

definition ident_char :: "char \<Rightarrow> bool" where
  "ident_char c \<longleftrightarrow> (CHR ''A'' \<le> c \<and> c \<le> CHR ''Z'') \<or> (CHR ''a'' \<le> c \<and> c \<le> CHR ''z'') \<or>
     (CHR ''0'' \<le> c \<and> c \<le> CHR ''9'') \<or> c \<in> set ''_.-''"

definition valid_identifier :: "string \<Rightarrow> bool" where
  "valid_identifier s \<longleftrightarrow> 1 \<le> length s \<and> length s \<le> 100 \<and> list_all ident_char s"

definition bounded_payload :: "(string \<times> json) list \<Rightarrow> bool" where
  "bounded_payload p \<longleftrightarrow> length (dumps (JObj p)) \<le> max_payload_bytes"

definition valid_request :: "enqueue_request \<Rightarrow> bool" where
  "valid_request q \<longleftrightarrow>
     valid_identifier (rq_kind q) \<and> valid_identifier (rq_queue q) \<and> bounded_payload (rq_payload q) \<and>
     (case rq_key q of None \<Rightarrow> True | Some k \<Rightarrow> 1 \<le> length k \<and> length k \<le> 200) \<and>
     0 \<le> rq_max_retries q \<and> rq_max_retries q \<le> 25"

section \<open>Replies\<close>

datatype http =
    Reply int json "(string \<times> string) list"       \<comment> \<open>status, body, headers\<close>
  | HttpError int json "(string \<times> string) list"   \<comment> \<open>status, detail, headers\<close>
  | Crash exn

definition not_ready :: "string \<Rightarrow> http" where
  "not_ready what = HttpError 503 (JStr (what @ '' not ready'')) []"

definition not_found :: "string \<Rightarrow> string \<Rightarrow> http" where
  "not_found job_id where_to = HttpError 404
     (JStr (''job '' @ [CHR 39] @ job_id @ [CHR 39] @ '' not found'' @ where_to)) []"

section \<open>Endpoints\<close>

definition request_job :: "string \<Rightarrow> py_datetime \<Rightarrow> enqueue_request \<Rightarrow> job" where
  "request_job uuid_hex now q = (new_job uuid_hex now)\<lparr>kind := rq_kind q,
     payload := JObj (rq_payload q), queue := rq_queue q, max_retries := rq_max_retries q\<rparr>"

definition enqueue_error :: "exn \<Rightarrow> http" where
  "enqueue_error e = (case e of
     QueueFull q depth cap \<Rightarrow> HttpError 503
       (JObj [(''error'', JStr ''queue_full''), (''message'', JStr (queue_full_msg q depth cap)),
              (''retry_after'', JInt 5)]) [(''Retry-After'', ''5'')]
   | IdempotencyConflict k \<Rightarrow> HttpError 409 (JStr (idempotency_msg k)) []
   | _ \<Rightarrow> Crash e)"

definition enqueue_job ::
    "'r redis \<Rightarrow> string \<Rightarrow> int \<Rightarrow> bool \<Rightarrow> string \<Rightarrow> py_datetime \<Rightarrow> enqueue_request \<Rightarrow>
     'r world \<Rightarrow> http \<times> 'r world" where
  "enqueue_job R px cap up uuid_hex now q w =
     (if \<not> up then (not_ready ''enqueuer'', w)
      else (case enqueue R px cap now None (rq_key q) (request_job uuid_hex now q) w of
        (Inr entry_id, j, w) \<Rightarrow>
          (Reply 201 (JObj [(''job_id'', JStr (jid j)), (''stream_entry_id'', JStr entry_id),
             (''status'', JStr ''pending'')]) [], w)
      | (Inl e, j, w) \<Rightarrow> (enqueue_error e, w)))"

definition status_body :: "job \<Rightarrow> exn + json" where
  "status_body j = res_bind (status_attr (status j)) (\<lambda>st. Inr (JObj [
     (''id'', JStr (jid j)), (''kind'', JStr (kind j)), (''status'', JStr st),
     (''queue'', JStr (queue j)), (''created_at'', JStr (isoformat (created_at j))),
     (''attempts'', JInt (attempts j)), (''max_retries'', JInt (max_retries j)),
     (''payload'', payload j)]))"

definition get_job_status ::
    "bool \<Rightarrow> py_datetime \<Rightarrow> string \<Rightarrow> 'r world \<Rightarrow> http \<times> 'r world" where
  "get_job_status up now job_id w =
     (case (if up then store w else None) of
        None \<Rightarrow> (Reply 200 (JObj [(''id'', JStr job_id), (''status'', JStr ''unknown''),
           (''note'', JStr ''Status lookup requires a configured outbox store'')]) [], w)
      | Some db \<Rightarrow> (case get_job now job_id db of
          (Inl e, db) \<Rightarrow> (Crash e, w\<lparr>store := Some db\<rparr>)
        | (Inr None, db) \<Rightarrow> (not_found job_id [], w\<lparr>store := Some db\<rparr>)
        | (Inr (Some j), db) \<Rightarrow> (case status_body j of Inl e \<Rightarrow> Crash e | Inr b \<Rightarrow> Reply 200 b [],
            w\<lparr>store := Some db\<rparr>)))"

fun queue_stats :: "'r redis \<Rightarrow> string \<Rightarrow> string list \<Rightarrow> ('r, exn, json list) io" where
  "queue_stats R px [] = io_ret []"
| "queue_stats R px (name # names) =
     io_bind (stream_length R px name) (\<lambda>depth.
     io_bind (read_dlq R px name ''-'' ''+'' 0) (\<lambda>dlq_entries.
     io_bind (rc_xlen R (dlq_key px name)) (\<lambda>dlq_count.
     io_bind (queue_stats R px names) (\<lambda>stats.
       io_ret (JObj [(''name'', JStr name), (''depth'', JInt depth),
         (''oldest_job_age_seconds'', JFloat ''0.0''), (''dead_letter_count'', JInt dlq_count)] # stats)))))"

text \<open>None when the key scan never ends.\<close>

definition list_queues_endpoint ::
    "'r redis \<Rightarrow> string \<Rightarrow> bool \<Rightarrow> 'r \<Rightarrow> (http \<times> 'r) option" where
  "list_queues_endpoint R px up r =
     (if \<not> up then Some (not_ready ''transport'', r)
      else (case list_queues R px r of
        None \<Rightarrow> None
      | Some (Inl e, r) \<Rightarrow> Some (Crash e, r)
      | Some (Inr names, r) \<Rightarrow> (case queue_stats R px names r of
          (Inl e, r) \<Rightarrow> Some (Crash e, r)
        | (Inr stats, r) \<Rightarrow> Some (Reply 200 (JObj [(''queues'', JList stats)]) [], r))))"

definition dlq_json :: "dlq_entry \<Rightarrow> json" where
  "dlq_json d = JObj [(''entry_id'', JStr (d_entry_id d)), (''job'', d_job d), (''reason'', JStr (d_reason d))]"

definition list_dlq :: "'r redis \<Rightarrow> string \<Rightarrow> bool \<Rightarrow> string \<Rightarrow> int \<Rightarrow> 'r \<Rightarrow> http \<times> 'r" where
  "list_dlq R px up name limit r =
     (if \<not> up then (not_ready ''transport'', r)
      else (case read_dlq R px name ''-'' ''+'' limit r of
        (Inl e, r) \<Rightarrow> (Crash e, r)
      | (Inr entries, r) \<Rightarrow> (Reply 200 (JObj [(''queue'', JStr name),
          (''entries'', JList (map dlq_json entries)), (''count'', JInt (int (length entries)))]) [], r)))"

definition replay_dlq_job ::
    "'r redis \<Rightarrow> string \<Rightarrow> int \<Rightarrow> bool \<Rightarrow> py_datetime \<Rightarrow> string \<Rightarrow> string \<Rightarrow> 'r world \<Rightarrow> http \<times> 'r world" where
  "replay_dlq_job R px cap up now name job_id w =
     (if \<not> up then (HttpError 503 (JStr ''not ready'') [], w)
      else (case on_server (read_dlq_entry R px name job_id) w of
        (Inl e, w) \<Rightarrow> (Crash e, w)
      | (Inr None, w) \<Rightarrow> (not_found job_id '' in DLQ'', w)
      | (Inr (Some d), w) \<Rightarrow>
     (case from_dict now (d_job d) of
        Inl e \<Rightarrow> (Crash e, w)
      | Inr j \<Rightarrow>
     (case enqueue R px cap now None None (j\<lparr>status := Plain ''pending'', attempts := 0\<rparr>) w of
        (Inl e, j, w) \<Rightarrow> (Crash e, w)
      | (Inr entry_id, j, w) \<Rightarrow>
     (case on_server (delete_dlq_entry R px name (d_entry_id d)) w of
        (Inl e, w) \<Rightarrow> (Crash e, w)
      | (Inr _, w) \<Rightarrow> (Reply 200 (JObj [(''job_id'', JStr (jid j)),
          (''new_stream_entry_id'', JStr entry_id), (''status'', JStr ''replayed'')]) [], w))))))"

section \<open>Start and middleware\<close>

text \<open>\<open>lifespan\<close>: the enqueuer is built without a store, and the default group is created.\<close>

definition start_api :: "'r redis \<Rightarrow> string \<Rightarrow> 'r \<Rightarrow> exn + 'r world" where
  "start_api R px r = (case ensure_group R px ''default'' r of
     (Inl e, _) \<Rightarrow> Inl e
   | (Inr _, r) \<Rightarrow> Inr \<lparr>server = r, store = None, metrics = []\<rparr>)"

definition request_id :: "string option \<Rightarrow> string \<Rightarrow> string" where
  "request_id header uuid = (case header of Some i \<Rightarrow> i | None \<Rightarrow> uuid)"

definition limited_reply :: http where
  "limited_reply = Reply 429 (JObj [(''error'', JStr ''rate_limit_exceeded''), (''retry_after'', JInt 1)])
     [(''Retry-After'', ''1'')]"

text \<open>\<open>rate_limit_middleware\<close>: the reply that stops the request, or None to go on.\<close>

definition rate_limit ::
    "'r script_client \<Rightarrow> rat \<Rightarrow> limiter option \<Rightarrow> 'r \<Rightarrow> http option \<times> limiter \<times> 'r" where
  "rate_limit C now l r =
     (case allow C now 1 (case l of None \<Rightarrow> api_limiter | Some l \<Rightarrow> l) r of
        (Inl e, l, r) \<Rightarrow> (Some (Crash e), l, r)
      | (Inr True, l, r) \<Rightarrow> (None, l, r)
      | (Inr False, l, r) \<Rightarrow> (Some limited_reply, l, r))"

section \<open>Laws\<close>

lemma ident_no_colon: "list_all ident_char s \<Longrightarrow> CHR '':'' \<notin> set s"
  by (auto simp: list_all_iff ident_char_def less_eq_char_def)

lemma insert_outbox_Plain: "status j = Plain s \<Longrightarrow>
   insert_outbox j db = (Inl (AttributeError ''str object has no attribute value''), db)"
  by (simp add: insert_outbox_def status_attr_def)

lemma on_server_snd: "on_server m w = (res, w') \<Longrightarrow> server w' = snd (m (server w)) \<and> store w' = store w"
  using on_server_run [of m w res w'] on_server_frame(1) [of m w res w'] by simp

lemma check_key_committed:
  assumes "check_key now key w = (res, w')"
  shows "server w' = server w" "map_option committed (store w') = map_option committed (store w)"
  using check_key_frame [OF assms] by (auto simp: rel_option_iff split: option.splits)

text \<open>A job whose status is a plain string is never enqueued, and nothing is appended for it.\<close>

lemma enqueue_Plain:
  assumes "status j = Plain s" "enqueue R px cap now None key j w = (res, j', w')"
  shows "(\<exists>e. res = Inl e) \<and> server w' = snd (stream_length R px (queue j) (server w)) \<and>
    map_option committed (store w') = map_option committed (store w)"
  using assms(2)
proof (cases rule: enqueue_cases)
  case (length_err e)
  then show ?thesis using on_server_snd [OF length_err(3)] by simp
next
  case (full depth)
  then show ?thesis using on_server_snd [OF full(4)] by simp
next
  case (key_err e depth w1)
  then show ?thesis using on_server_snd [OF key_err(4)] check_key_committed [OF key_err(5)] by simp
next
  case (outbox_err e depth w1 w2)
  have "server w' = server w2 \<and> map_option committed (store w') = map_option committed (store w2)"
    using outbox_err(6) by (cases rule: write_outbox_cases) simp_all
  then show ?thesis
    using outbox_err(1) on_server_snd [OF outbox_err(4)] check_key_committed [OF outbox_err(5)] by simp
next
  case (sent depth w1 w2 w3)
  from sent(5) show ?thesis
  proof (cases rule: write_outbox_cases)
    case none
    have "job_text (keyed_job key j) = Inl (AttributeError ''str object has no attribute value'')"
      by (rule job_text_Plain) (simp add: assms(1))
    with sent(6) have "res = Inl (AttributeError ''str object has no attribute value'')" "w' = w3"
      by (simp_all add: on_server_def xadd_def io_bind_def)
    with none show ?thesis
      using on_server_snd [OF sent(3)] check_key_committed [OF sent(4)] by simp
  qed (use assms(1) in simp_all)
qed

text \<open>A request of the witnesses.\<close>

definition sample_request :: enqueue_request where
  "sample_request = \<lparr>rq_kind = ''email'', rq_payload = [(''to'', JStr ''x'')], rq_queue = ''default'',
     rq_key = None, rq_max_retries = 3\<rparr>"

lemma valid_sample_request: "valid_request sample_request"
  by (simp add: valid_request_def sample_request_def valid_identifier_def ident_char_def
    less_eq_char_def bounded_payload_def max_payload_bytes_def quoted_def esc_def)

section \<open>Properties\<close>

text \<open>C33. Replay never replays. Whatever the dead-letter entry, the store and the limits, the replay
  endpoint never answers success: the plain string it assigns to the status cannot be serialised, so
  the request ends in an error, nothing is appended or committed, and the entry is not deleted; the
  server sees at most the lookup and one length query.\<close>

theorem replay_never_succeeds:
  assumes "replay_dlq_job R px cap up now name job_id w = (res, w')"
  shows "(\<nexists>code body hs. res = Reply code body hs) \<and>
    map_option committed (store w') = map_option committed (store w) \<and>
    (server w' = server w \<or> server w' = snd (read_dlq_entry R px name job_id (server w)) \<or>
     (\<exists>q. server w' = snd (stream_length R px q (snd (read_dlq_entry R px name job_id (server w))))))"
proof (cases up)
  case True
  obtain m w1 where look: "on_server (read_dlq_entry R px name job_id) w = (m, w1)" by fastforce
  note w1 = on_server_snd [OF look]
  show ?thesis
  proof (cases "\<exists>d j. m = Inr (Some d) \<and> from_dict now (d_job d) = Inr j")
    case False
    with assms True look w1 show ?thesis
      by (auto simp: replay_dlq_job_def not_found_def split: sum.splits option.splits)
  next
    case ok: True
    then obtain d j where d: "m = Inr (Some d)" "from_dict now (d_job d) = Inr j" by blast
    let ?j = "j\<lparr>status := Plain ''pending'', attempts := 0\<rparr>"
    obtain r j' w2 where run: "enqueue R px cap now None None ?j w1 = (r, j', w2)"
      by (metis prod_cases3)
    have "status ?j = Plain ''pending''" by simp
    note fails = enqueue_Plain [OF this run]
    then obtain e where e: "r = Inl e" by blast
    then have "res = Crash e" "w' = w2"
      using assms True look d run by (simp_all add: replay_dlq_job_def)
    with fails w1 show ?thesis by auto
  qed
qed (use assms in \<open>auto simp: replay_dlq_job_def\<close>)

theorem replay_never_succeeds_witness:
  "let r = snd (xadd_dlq mem_client ''relayq'' ''q'' sample_job ''boom'' mem_init) in
   \<nexists>code body hs. fst (replay_dlq_job mem_client ''relayq'' 10 True base_time ''q'' (jid sample_job)
     (demo_world\<lparr>server := r\<rparr>)) = Reply code body hs"
proof -
  define r where "r = snd (xadd_dlq mem_client ''relayq'' ''q'' sample_job ''boom'' mem_init)"
  obtain res w' where run: "replay_dlq_job mem_client ''relayq'' 10 True base_time ''q'' (jid sample_job)
      (demo_world\<lparr>server := r\<rparr>) = (res, w')" by fastforce
  from replay_never_succeeds [OF this] run show ?thesis by (simp add: r_def Let_def)
qed

text \<open>The enqueue endpoint answers what happened: 201 with the job and entry id exactly when the
  enqueue returned an entry id, 503 with \<open>Retry-After\<close> for a full queue, 409 for a used key, and any
  other exception escapes.\<close>

theorem enqueue_job_replies:
  assumes "enqueue R px cap now None (rq_key q) (request_job u now q) w = (r, j, w')"
  shows "enqueue_job R px cap True u now q w = (case r of
     Inr i \<Rightarrow> Reply 201 (JObj [(''job_id'', JStr (''job_'' @ take 16 u)), (''stream_entry_id'', JStr i),
       (''status'', JStr ''pending'')]) []
   | Inl (QueueFull n depth m) \<Rightarrow> HttpError 503 (JObj [(''error'', JStr ''queue_full''),
       (''message'', JStr (queue_full_msg n depth m)), (''retry_after'', JInt 5)]) [(''Retry-After'', ''5'')]
   | Inl (IdempotencyConflict k) \<Rightarrow> HttpError 409 (JStr (idempotency_msg k)) []
   | Inl e \<Rightarrow> Crash e, w')"
proof (cases r)
  case (Inl e)
  with assms show ?thesis by (cases e) (simp_all add: enqueue_job_def enqueue_error_def)
next
  case (Inr i)
  from assms have "jid j = ''job_'' @ take 16 u"
  proof (cases rule: enqueue_cases)
    case (sent depth w1 w2 w3)
    then show ?thesis by (simp add: request_job_def new_job_def)
  qed (use Inr in simp_all)
  with Inr assms show ?thesis by (simp add: enqueue_job_def)
qed

theorem enqueue_job_replies_witness:
  "\<exists>w'. enqueue_job mem_client ''relayq'' 0 True ''0123456789abcdef'' base_time sample_request demo_world =
     (HttpError 503 (JObj [(''error'', JStr ''queue_full''),
        (''message'', JStr (queue_full_msg ''default'' 0 0)), (''retry_after'', JInt 5)])
        [(''Retry-After'', ''5'')], w')"
proof -
  have "enqueue mem_client ''relayq'' 0 base_time None (rq_key sample_request)
      (request_job ''0123456789abcdef'' base_time sample_request) demo_world =
    (Inl (QueueFull ''default'' 0 0), request_job ''0123456789abcdef'' base_time sample_request, demo_world)"
    by (simp add: enqueue_def on_server_def stream_length_def sample_request_def request_job_def demo_world_def)
  from enqueue_job_replies [OF this] show ?thesis by simp
qed

text \<open>C34. A validated request is safe downstream: its queue name contains no colon, so its keys belong to
  no other queue and the name is recovered from the stream key; its serialised payload is at most
  1 MB; and a job made from it survives the wire: a worker that decodes the stream entry gets a
  pending job with the request's kind, payload, queue and retry limit, and no attempt counted.\<close>

theorem valid_request_reaches_worker:
  assumes "valid_request q" "wf_json (JObj (rq_payload q))" "valid_datetime now" "CHR '':'' \<notin> set px"
  shows "queue_of_key (stream_key px (rq_queue q)) = Some (rq_queue q) \<and>
    length (dumps (JObj (rq_payload q))) \<le> 1048576 \<and>
    (\<exists>body. job_text (request_job u now q) = Inr body \<and>
       (let d = decode_entry t (sent_fields b [(''job'', body)]) in
        \<exists>j. d = Inr (Some j) \<and> kind j = rq_kind q \<and> payload j = JObj (rq_payload q) \<and>
          queue j = rq_queue q \<and> max_retries j = rq_max_retries q \<and> attempts j = 0 \<and>
          status j = Member PENDING))"
proof -
  have "CHR '':'' \<notin> set (rq_queue q)"
    using assms(1) ident_no_colon by (simp add: valid_request_def valid_identifier_def)
  moreover have "length (dumps (JObj (rq_payload q))) \<le> 1048576"
    using assms(1) by (simp add: valid_request_def bounded_payload_def max_payload_bytes_def del: dumps.simps)
  moreover have "wf_job (request_job u now q)"
    using assms(2,3) by (simp add: wf_job_def request_job_def new_job_def)
  then obtain body where body: "job_text (request_job u now q) = Inr body" using job_text_Inr by blast
  have "carries (''i'', sent_fields b [(''job'', body)]) (''i'', request_job u now q)"
    using body \<open>wf_job (request_job u now q)\<close> by (auto simp: carries_def intro!: exI [of _ "[(''job'', body)]"])
  from decode_entry_carries [OF this, of t]
  have "decode_entry t (sent_fields b [(''job'', body)]) = Inr (Some (request_job u now q))" by simp
  ultimately show ?thesis
    using body assms(4) by (simp add: request_job_def new_job_def Let_def del: dumps.simps)
qed

theorem valid_request_reaches_worker_witness:
  "queue_of_key (stream_key ''relayq'' (rq_queue sample_request)) = Some ''default'' \<and>
   (\<exists>body. job_text (request_job ''0123456789abcdef'' base_time sample_request) = Inr body)"
proof -
  have "wf_json (JObj (rq_payload sample_request))" by (simp add: sample_request_def)
  from valid_request_reaches_worker [OF valid_sample_request this valid_base_time,
      of "''relayq''" "''0123456789abcdef''" base_time True]
  show ?thesis by (auto simp: sample_request_def)
qed

text \<open>The queue listing fails as soon as there is a queue: it asks for zero dead letters, and the
  client refuses such a count, so the reply is never a list.\<close>

theorem list_queues_endpoint_fails:
  assumes "\<And>k hi lo n r. n < 1 \<Longrightarrow> \<exists>m r'. rc_xrevrange R k hi lo n r = (Inl (DataError m), r')"
    and "list_queues R px r = Some (Inr (name # names), r1)"
  shows "\<exists>e r'. list_queues_endpoint R px True r = Some (Crash e, r')"
proof (cases "stream_length R px name r1")
  case (Pair m r2)
  show ?thesis
  proof (cases m)
    case (Inr n)
    obtain e r3 where "rc_xrevrange R (dlq_key px name) ''+'' ''-'' 0 r2 = (Inl (DataError e), r3)"
      using assms(1) [of 0] by (metis zero_less_one)
    with Inr Pair assms(2) show ?thesis
      by (simp add: list_queues_endpoint_def io_bind_def read_dlq_def)
  qed (use Pair assms(2) in \<open>simp add: list_queues_endpoint_def io_bind_def\<close>)
qed

theorem list_queues_endpoint_fails_witness:
  "\<exists>e r'. list_queues_endpoint mem_client ''relayq'' True (mem_with ''q'' []) = Some (Crash e, r')"
proof (rule list_queues_endpoint_fails)
  show "\<exists>m r'. rc_xrevrange mem_client k hi lo n r = (Inl (DataError m), r')" if "n < 1" for k hi lo n r
    using that by simp
  have "scan_pages mem_client ''relayq'' 0 (mem_with ''q'' []) [RStr (stream_key ''relayq'' ''q'')]
      (mem_with ''q'' [])"
    by (rule last_page) (simp add: mem_with_def)
  moreover have "add_keys [RStr (stream_key ''relayq'' ''q'')] [] = Inr [''q'']" by simp
  ultimately have "scan_loop mem_client ''relayq'' 0 [] (mem_with ''q'' []) =
      Some (Inr (sort [''q'']), mem_with ''q'' [])"
    by (rule scan_loop_pages)
  then show "list_queues mem_client ''relayq'' (mem_with ''q'' []) =
      Some (Inr (''q'' # []), mem_with ''q'' [])"
    by (simp add: list_queues_def)
qed

end
