(* ===== verification/Lifecycle.thy ===== *)
theory Lifecycle
  imports Api Execute
begin

text \<open>
  A job from its enqueue to the status the API reports: \<open>Enqueuer.enqueue\<close>, \<open>Executor.execute\<close> and
  \<open>GET /jobs/{job_id}\<close> over one outbox.
\<close>

section \<open>What a delivery notes in the outbox\<close>

text \<open>The status and the attempt count a delivery leaves in the outbox.\<close>

definition ended_as :: "rat \<Rightarrow> handler \<Rightarrow> job \<Rightarrow> job_status \<times> int" where
  "ended_as T h j = (case failure_of T (h j) of
     None \<Rightarrow> (COMPLETED, attempts j)
   | Some _ \<Rightarrow>
       if attempts (left (h j)) < max_retries (left (h j)) then (FAILED, attempts (left (h j)) + 1)
       else (DEAD, attempts j))"

text \<open>The last note: only a failure with retries left gives an attempt count.\<close>

definition last_note :: "rat \<Rightarrow> handler \<Rightarrow> job \<Rightarrow> sqlite \<Rightarrow> sqlite" where
  "last_note T h j db = snd (update_status (jid (left (h j))) (fst (ended_as T h j))
     (if fst (ended_as T h j) = FAILED then Some (snd (ended_as T h j)) else None) db)"

definition uncancelled :: "'r redis \<Rightarrow> rat \<Rightarrow> handler_run \<Rightarrow> bool" where
  "uncancelled R T run \<longleftrightarrow> timed T run \<noteq> Inl CancelledError \<and>
     (\<forall>k kvs m a r. fst (rc_xadd R k kvs m a r) \<noteq> Inl CancelledError) \<and>
     (\<forall>s g i r. fst (rc_xack R s g i r) \<noteq> Inl CancelledError)"

lemma uncancelledD:
  assumes "uncancelled R T run"
  shows "timed T run \<noteq> Inl CancelledError"
    and "fst (xack R px q i r) \<noteq> Inl CancelledError"
    and "fst (xadd_dlq R px q j reason r) \<noteq> Inl CancelledError"
  using assms
  by (auto simp: uncancelled_def xack_def xadd_dlq_def io_bind_def job_text_def to_dict_def status_attr_def
    py_dumps_def split: status_field.split)

lemma bury_swallowed:
  assumes "uncancelled R T run"
  shows "\<exists>w'. swallow (bury R px ns q j reason i) w = (Inr (), w') \<and> store w' = store w"
proof -
  obtain r w' where run: "bury R px ns q j reason i w = (r, w')" by fastforce
  then have "store w' = store w \<and> r \<noteq> Inl CancelledError"
  proof (cases rule: bury_cases)
    case (dlq_failed e)
    with uncancelledD(3) [OF assms, of px q j reason "server w"] show ?thesis by auto
  next
    case (ack_failed e i' s)
    with uncancelledD(2) [OF assms, of px q i s] show ?thesis by auto
  qed simp
  with run show ?thesis by (cases r) (auto simp: swallow_def is_exception_def)
qed

lemma execute_store:
  assumes "uncancelled R T (h j)" "max_attempts policy \<le> 1024"
    and "execute R px ns policy u sf T q i j h w = (res, j', w')"
  shows "store w' = map_option (\<lambda>db. last_note T h j
    (snd (update_status (jid j) PROCESSING (Some (attempts j)) db))) (store w)"
proof (cases "failure_of T (h j)")
  case None
  have ok: "timed T (h j) = Inr ()"
    using None uncancelledD(1) [OF assms(1)]
    by (auto simp: failure_of_def is_exception_def split: sum.splits exn.splits if_splits)
  obtain r s where ack: "xack R px q i (server w) = (r, s)" by fastforce
  with uncancelledD(2) [OF assms(1), of px q i "server w"] have "r \<noteq> Inl CancelledError" by simp
  with assms(3) ok ack None show ?thesis
    by (cases r) (auto simp: execute_succeeded io_bind_def swallow_def on_server_def note_status_eq noted_eq
      is_exception_def on_metrics_def last_note_def ended_as_def option.map_comp comp_def)
next
  case (Some e)
  show ?thesis
  proof (cases "max_retries (left (h j)) \<le> attempts (left (h j))")
    case True
    let ?j = "(left (h j))\<lparr>attempts := attempts (left (h j)) + 1\<rparr>"
    obtain w1 where bury: "swallow (bury R px ns q ?j (exn_name e @ '': '' @ exn_str sf e) i)
        (on_metrics (incr_delivery_attempts ns (kind (left (h j))) False) (after_run ns j (h j) w)) = (Inr (), w1)"
      "store w1 = store (after_run ns j (h j) w)"
      using bury_swallowed [OF assms(1)] by (metis on_metrics_frame(2))
    with handle_failure_dead [OF True bury(1)] assms(3) Some True show ?thesis
      by (auto simp: execute_failed note_status_eq last_note_def ended_as_def option.map_comp comp_def)
  next
    case False
    obtain d where "delay policy u (attempts (left (h j))) = Inr d" using delay_total assms(2) by blast
    with False Some assms(3) show ?thesis
      by (auto simp: execute_failed handle_failure_retry last_note_def ended_as_def option.map_comp comp_def)
  qed
qed

section \<open>What the connections read\<close>

text \<open>A job just inserted, read by its own connection and by another.\<close>

lemma inserted_get:
  assumes "committed db' = rows @ [row_of j (status_value st)]" "working db' = None" "locks db' = []"
    and "constraint rows (row_of j (status_value st)) = None" "status j = Member st" "wf_json (payload j)"
  shows "get_job t (jid j) db' = (Inr (Some (j\<lparr>created_at := t\<rparr>)), db')"
proof -
  let ?r = "row_of j (status_value st)"
  have "find (\<lambda>r. r_id r = jid j) (table db') = Some ?r"
    using constraint_None_find(1) [OF assms(4)] assms(1,2) by (simp add: find_append row_of_def)
  with job_of_row_of [OF assms(5,6)] show ?thesis by (simp add: get_job_def fetch_job_unlocked assms(3))
qed

lemma get_job_unlocked: "locks db = [] \<Longrightarrow> snd (get_job t i db) = db"
  by (simp add: get_job_def fetch_job_unlocked)

lemma update_status_locks: "locks db = [] \<Longrightarrow> locks (snd (update_status i st a db)) = []"
  by (simp add: update_status_unlocked)

lemma update_status_committed: "committed (snd (update_status i st a db)) = committed db"
  by (metis prod.collapse update_status_frame)

lemma notes_get:
  assumes "locks db = []" "get_job t (jid j) db = (Inr (Some k), db)" "jid (left (h j)) = jid j"
  shows "get_job t (jid j) (last_note T h j (snd (update_status (jid j) PROCESSING (Some (attempts j)) db))) =
    (Inr (Some (k\<lparr>status := Member (fst (ended_as T h j)), attempts := snd (ended_as T h j)\<rparr>)),
     last_note T h j (snd (update_status (jid j) PROCESSING (Some (attempts j)) db)))"
proof -
  let ?db1 = "snd (update_status (jid j) PROCESSING (Some (attempts j)) db)"
  have 1: "fst (get_job t (jid j) ?db1) = Inr (Some (k\<lparr>status := Member PROCESSING, attempts := attempts j\<rparr>))"
    using update_status_get [OF assms(1), of t "jid j" k "jid j"] assms(2) by simp
  have l1: "locks ?db1 = []" by (rule update_status_locks [OF assms(1)])
  have "fst (get_job t (jid j) (last_note T h j ?db1)) =
      Inr (Some (k\<lparr>status := Member (fst (ended_as T h j)), attempts := snd (ended_as T h j)\<rparr>))"
    using update_status_get [OF l1 1, of "jid j"] assms(3)
    by (auto simp: last_note_def ended_as_def split: option.split)
  moreover have "locks (last_note T h j ?db1) = []" using l1 by (simp add: last_note_def update_status_locks)
  ultimately show ?thesis using get_job_unlocked by (metis prod.collapse)
qed

section \<open>Properties\<close>

text \<open>C19. The status of a job follows it, for its own connection only. After an enqueue with a store and a
  delivery of the job over the same connection, \<open>GET /jobs/{job_id}\<close> over that connection answers with
  the status the delivery ended in: \<open>completed\<close>, \<open>failed\<close> with the attempts made, or \<open>dead\<close>. Over any other
  connection it answers with the status the job was enqueued with.\<close>

theorem status_follows_job:
  assumes "enqueue R px cap now None key j w = (Inr i, j', w1)" "store w = Some db" "wf_job j"
    and "store w1 = Some db1" "locks db1 = []"
    and "store w2 = store w1" "jid d = jid j" "jid (left (h d)) = jid j" "uncancelled R T (h d)"
    and "max_attempts policy \<le> 1024"
    and "execute R px ns policy u sf T q i d h w2 = (res, d', w3)"
  shows "(\<exists>b. status_body (j'\<lparr>created_at := t, status := Member (fst (ended_as T h d)),
        attempts := snd (ended_as T h d)\<rparr>) = Inr b \<and>
      get_job_status True t (jid j) w3 = (Reply 200 b [], w3)) \<and>
    (\<exists>b w4. status_body (j'\<lparr>created_at := t\<rparr>) = Inr b \<and>
      get_job_status True t (jid j) (w3\<lparr>store := map_option reconnect (store w3)\<rparr>) = (Reply 200 b [], w4))"
proof -
  let ?note = "\<lambda>db. last_note T h d (snd (update_status (jid d) PROCESSING (Some (attempts d)) db))"
  from assms(1,2) obtain st where st: "status j = Member st" "j' = keyed_job key j"
    "committed db1 = committed db @ [row_of (keyed_job key j) (status_value st)]" "working db1 = None"
    "constraint (committed db) (row_of (keyed_job key j) (status_value st)) = None"
  proof (cases rule: enqueue_store)
    case (after depth r1 db' st)
    have "j' = keyed_job key j" using assms(1) by (cases rule: enqueue_cases) simp_all
    with after assms(4) that show ?thesis by simp
  qed simp
  have wf: "status j' = Member st" "wf_json (payload j')" "jid j' = jid j"
    using st(1,2) assms(3) by (auto simp: keyed_job_def wf_job_def)
  have got: "get_job t (jid d) db1 = (Inr (Some (j'\<lparr>created_at := t\<rparr>)), db1)"
    using inserted_get [of db1 "committed db" j' st t] st assms(5,7) wf by simp
  have store: "store w3 = Some (?note db1)"
    using execute_store [OF assms(9,10,11)] assms(4,6) by simp
  have "jid (left (h d)) = jid d" using assms(7,8) by simp
  from notes_get [where h = h, OF assms(5) got this] store
  have own: "\<exists>b. status_body (j'\<lparr>created_at := t, status := Member (fst (ended_as T h d)),
        attempts := snd (ended_as T h d)\<rparr>) = Inr b \<and>
      get_job_status True t (jid j) w3 = (Reply 200 b [], w3)"
    by (simp add: get_job_status_def status_body_def status_attr_def assms(7))
  have "committed (?note db1) = committed db1"
    by (simp add: last_note_def update_status_committed)
  moreover have "locks (?note db1) = []"
    by (simp add: last_note_def update_status_locks assms(5))
  ultimately have "get_job t (jid d) (reconnect (?note db1)) =
      (Inr (Some (j'\<lparr>created_at := t\<rparr>)), reconnect (?note db1))"
    using inserted_get [of "reconnect (?note db1)" "committed db" j' st t] st wf assms(7)
    by (simp add: reconnect_def connect_def)
  with store have "\<exists>b w4. status_body (j'\<lparr>created_at := t\<rparr>) = Inr b \<and>
      get_job_status True t (jid j) (w3\<lparr>store := map_option reconnect (store w3)\<rparr>) = (Reply 200 b [], w4)"
    by (simp add: get_job_status_def status_body_def status_attr_def assms(7) wf)
  with own show ?thesis by (intro conjI)
qed

lemma mem_uncancelled: "timed T run \<noteq> Inl CancelledError \<Longrightarrow> uncancelled mem_client T run"
  using mem_never_cancels(1,2) by (auto simp: uncancelled_def)

theorem status_follows_job_witness:
  "\<exists>w1 res d' w3 b b0 w4.
     enqueue mem_client ''relayq'' 10 base_time None None sample_job demo_world = (Inr (mem_id 1), sample_job, w1) \<and>
     execute mem_client ''relayq'' ''relayq'' default_policy 0 (\<lambda>_. []) 300 ''default'' (mem_id 1) sample_job ok_handler w1 =
       (res, d', w3) \<and>
     get_job_status True base_time (jid sample_job) w3 = (Reply 200 b [], w3) \<and>
     status_body (sample_job\<lparr>created_at := base_time, status := Member COMPLETED, attempts := 0\<rparr>) = Inr b \<and>
     get_job_status True base_time (jid sample_job) (w3\<lparr>store := map_option reconnect (store w3)\<rparr>) = (Reply 200 b0 [], w4) \<and>
     status_body (sample_job\<lparr>created_at := base_time\<rparr>) = Inr b0"
proof -
  obtain w1 where enq: "enqueue mem_client ''relayq'' 10 base_time None None sample_job demo_world =
      (Inr (mem_id 1), sample_job, w1)" "store w1 = Some (connect [row_of sample_job (status_value PENDING)] [])"
    using demo_enqueue [of sample_job PENDING base_time] by auto
  obtain res d' w3 where ex: "execute mem_client ''relayq'' ''relayq'' default_policy 0 (\<lambda>_. []) 300 ''default'' (mem_id 1)
      sample_job ok_handler w1 = (res, d', w3)"
    by (metis prod_cases3)
  have w: "store demo_world = Some (connect [] [])" and l: "locks (connect [row_of sample_job (status_value PENDING)] []) = []"
    and p: "max_attempts default_policy \<le> 1024" and h: "jid (left (ok_handler sample_job)) = jid sample_job"
    by (simp_all add: connect_def default_policy_def)
  have e: "ended_as 300 ok_handler sample_job = (COMPLETED, 0)" by (simp add: ended_as_def)
  have u: "uncancelled mem_client 300 (ok_handler sample_job)" by (rule mem_uncancelled) simp
  from status_follows_job [where h = ok_handler, OF enq(1) w wf_sample_job enq(2) l refl refl h u p ex, of base_time] enq(1) ex e
  show ?thesis by (metis fst_conv snd_conv)
qed

end
