(* ===== verification/Cli.thy ===== *)
theory Cli
  imports Json Url
begin

text \<open>
  \<open>cli.py\<close>: from the command line to the HTTP request each command sends, and from the reply to what
  it prints. \<open>urlopen\<close> is a parameter of \<open>cli_run\<close>: from a request, how the call ends. Python's \<open>str\<close> of
  values other than texts and integers (floats, lists, dicts) is a parameter as well.
\<close>

section \<open>Quoting\<close>

text \<open>\<open>urllib.parse.quote(s, safe='')\<close>: the UTF-8 bytes of the text, each byte that is no unreserved
  character as a percent sign and two upper-case hexadecimal digits.\<close>

definition utf8_encode :: "string \<Rightarrow> string" where
  "utf8_encode s = concat (map (\<lambda>c. let n = (of_char c :: nat) in
     if n < 128 then [c] else [char_of (192 + n div 64), char_of (128 + n mod 64)]) s)"

definition unreserved :: "char \<Rightarrow> bool" where
  "unreserved c \<longleftrightarrow> (let n = (of_char c :: nat) in
     (65 \<le> n \<and> n \<le> 90) \<or> (97 \<le> n \<and> n \<le> 122) \<or> (48 \<le> n \<and> n \<le> 57) \<or> c \<in> set ''_.-~'')"

definition hex_upper :: "nat \<Rightarrow> char" where
  "hex_upper k = (if k < 10 then char_of (48 + k) else char_of (55 + k))"

definition quote_byte :: "char \<Rightarrow> string" where
  "quote_byte b = (if unreserved b then [b]
     else [CHR ''%'', hex_upper (of_char b div 16), hex_upper (of_char b mod 16)])"

definition quote :: "string \<Rightarrow> string" where
  "quote s = concat (map quote_byte (utf8_encode s))"

text \<open>How a server reads a path segment back: \<open>urllib.parse.unquote\<close>.\<close>

definition hex_val :: "char \<Rightarrow> nat option" where
  "hex_val c = (let n = (of_char c :: nat) in
     if 48 \<le> n \<and> n \<le> 57 then Some (n - 48)
     else if 65 \<le> n \<and> n \<le> 70 then Some (n - 55)
     else if 97 \<le> n \<and> n \<le> 102 then Some (n - 87) else None)"

fun unquote_bytes :: "string \<Rightarrow> string" where
  "unquote_bytes [] = []"
| "unquote_bytes (c # s) = (case s of
     a # b # s' \<Rightarrow> (case (c = CHR ''%'', hex_val a, hex_val b) of
        (True, Some x, Some y) \<Rightarrow> char_of (16 * x + y) # unquote_bytes s'
      | _ \<Rightarrow> c # unquote_bytes s)
   | _ \<Rightarrow> c # unquote_bytes s)"

definition unquote :: "string \<Rightarrow> string option" where
  "unquote s = utf8_decode (unquote_bytes s)"

section \<open>Commands\<close>

record http_request =
  rq_method :: string
  rq_path :: string
  rq_body :: "json option"

definition get_request :: "string \<Rightarrow> http_request" where
  "get_request path = \<lparr>rq_method = ''GET'', rq_path = path, rq_body = None\<rparr>"

definition cmd_enqueue :: "string list \<Rightarrow> string + http_request" where
  "cmd_enqueue args = (case args of
     q # text # _ \<Rightarrow> Inr \<lparr>rq_method = ''POST'', rq_path = ''/jobs'', rq_body = Some (JObj
       [(''kind'', JStr ''generic''),
        (''payload'', case loads text of Some v \<Rightarrow> v | None \<Rightarrow> JObj [(''data'', JStr text)]),
        (''queue'', JStr q)])\<rparr>
   | _ \<Rightarrow> Inl ''Usage: relayq enqueue <queue> <payload_json>'')"

definition cmd_status :: "string list \<Rightarrow> string + http_request" where
  "cmd_status args = (case args of
     i # _ \<Rightarrow> Inr (get_request (''/jobs/'' @ quote i))
   | _ \<Rightarrow> Inl ''Usage: relayq status <job-id>'')"

definition cmd_queues :: "string list \<Rightarrow> string + http_request" where
  "cmd_queues args = Inr (get_request ''/queues'')"

definition cmd_dlq :: "string list \<Rightarrow> string + http_request" where
  "cmd_dlq args = (case args of
     q # _ \<Rightarrow> Inr (get_request (''/queues/'' @ quote q @ ''/dlq''))
   | _ \<Rightarrow> Inl ''Usage: relayq dlq <queue>'')"

definition cmd_replay :: "string list \<Rightarrow> string + http_request" where
  "cmd_replay args = (case args of
     q # i # _ \<Rightarrow> Inr \<lparr>rq_method = ''POST'',
       rq_path = ''/queues/'' @ quote q @ ''/dlq/'' @ quote i @ ''/replay'', rq_body = None\<rparr>
   | _ \<Rightarrow> Inl ''Usage: relayq replay <queue> <job-id>'')"

text \<open>\<open>main\<close>, on the arguments after the program's name: a message and exit code 1, or a request.\<close>

definition cli_main :: "string \<Rightarrow> string list \<Rightarrow> string + http_request" where
  "cli_main doc argv = (case argv of
     [] \<Rightarrow> Inl doc
   | command # args \<Rightarrow>
       (case map_of [(''enqueue'', cmd_enqueue), (''status'', cmd_status), (''queues'', cmd_queues),
           (''dlq'', cmd_dlq), (''replay'', cmd_replay)] command of
          None \<Rightarrow> Inl (''Unknown command: '' @ command @ [CHR 10] @ doc)
        | Some cmd \<Rightarrow> cmd args))"

section \<open>Replies\<close>

text \<open>What \<open>urlopen\<close> does: a body is read (its bytes), or \<open>HTTPError\<close> carries a status and a body, or
  another exception escapes.\<close>

datatype http_end = Answered string | HttpErrorRaised int string | CallRaised exn

text \<open>How a command ends: it returns, it writes to the error output and exits with code 1, or an
  exception escapes.\<close>

datatype ending = Done | Exits string | Escapes exn

definition show_value :: "(json \<Rightarrow> string) \<Rightarrow> json \<Rightarrow> string" where
  "show_value str v = (case v of JStr s \<Rightarrow> s | JInt i \<Rightarrow> int_str i | _ \<Rightarrow> str v)"

definition decoded :: "string \<Rightarrow> exn + string" where
  "decoded body = (case utf8_decode body of None \<Rightarrow> Inl UnicodeDecodeError | Some s \<Rightarrow> Inr s)"

text \<open>\<open>_request\<close>, after the call.\<close>

definition request_result :: "(json \<Rightarrow> string) \<Rightarrow> http_end \<Rightarrow> ending + json" where
  "request_result str r =
     (case r of
        Answered body \<Rightarrow> (case res_bind (decoded body) (\<lambda>s. case loads s of
            None \<Rightarrow> Inl JSONDecodeError | Some v \<Rightarrow> Inr v) of
          Inl e \<Rightarrow> Inl (Escapes e) | Inr v \<Rightarrow> Inr v)
      | HttpErrorRaised code body \<Rightarrow> (case decoded body of
          Inl e \<Rightarrow> Inl (Escapes e)
        | Inr s \<Rightarrow> Inl (Exits (''Error '' @ int_str code @ '': '' @
            (case loads s of None \<Rightarrow> s | Some detail \<Rightarrow> show_value str detail))))
      | CallRaised e \<Rightarrow> Inl (Escapes e))"

section \<open>Output\<close>

text \<open>\<open>v['k']\<close>, \<open>v.get('k', x)\<close>, \<open>for x in v\<close>, \<open>f'{v:20s}'\<close> and \<open>f'{v:>6d}'\<close> on a parsed value.\<close>

definition item :: "json \<Rightarrow> string \<Rightarrow> exn + json" where
  "item v k = (case v of
     JObj ms \<Rightarrow> (case map_of ms k of None \<Rightarrow> Inl (KeyError k) | Some x \<Rightarrow> Inr x)
   | _ \<Rightarrow> Inl (TypeError ''not subscriptable by a text''))"

definition get_or :: "json \<Rightarrow> string \<Rightarrow> json \<Rightarrow> exn + json" where
  "get_or v k x = (case v of
     JObj ms \<Rightarrow> Inr (case map_of ms k of None \<Rightarrow> x | Some y \<Rightarrow> y)
   | _ \<Rightarrow> Inl (AttributeError ''no attribute get''))"

definition elements :: "json \<Rightarrow> exn + json list" where
  "elements v = (case v of
     JList vs \<Rightarrow> Inr vs
   | JObj ms \<Rightarrow> Inr (map (\<lambda>m. JStr (fst m)) ms)
   | JStr s \<Rightarrow> Inr (map (\<lambda>c. JStr [c]) s)
   | _ \<Rightarrow> Inl (TypeError ''object is not iterable''))"

definition pad_right :: "nat \<Rightarrow> string \<Rightarrow> string" where
  "pad_right n s = s @ replicate (n - length s) CHR '' ''"

definition pad_left :: "nat \<Rightarrow> string \<Rightarrow> string" where
  "pad_left n s = replicate (n - length s) CHR '' '' @ s"

definition format_error :: "json \<Rightarrow> exn" where
  "format_error v = (case v of
     JNull \<Rightarrow> TypeError ''unsupported format string''
   | JList _ \<Rightarrow> TypeError ''unsupported format string''
   | JObj _ \<Rightarrow> TypeError ''unsupported format string''
   | _ \<Rightarrow> ValueError ''Unknown format code'')"

definition format_s :: "nat \<Rightarrow> json \<Rightarrow> exn + string" where
  "format_s n v = (case v of JStr s \<Rightarrow> Inr (pad_right n s) | _ \<Rightarrow> Inl (format_error v))"

definition format_d :: "nat \<Rightarrow> json \<Rightarrow> exn + string" where
  "format_d n v = (case v of
     JInt i \<Rightarrow> Inr (pad_left n (int_str i))
   | JBool b \<Rightarrow> Inr (pad_left n (if b then ''1'' else ''0''))
   | _ \<Rightarrow> Inl (format_error v))"

text \<open>\<open>json.dumps(v, indent=2)\<close>.\<close>

definition new_line :: "nat \<Rightarrow> string" where
  "new_line n = CHR 10 # replicate n CHR '' ''"

fun pretty :: "nat \<Rightarrow> json \<Rightarrow> string"
  and pretty_items :: "nat \<Rightarrow> json list \<Rightarrow> string"
  and pretty_members :: "nat \<Rightarrow> (string \<times> json) list \<Rightarrow> string" where
  "pretty n (JList []) = ''[]''"
| "pretty n (JList (v # vs)) = CHR ''['' # pretty_items (n + 2) (v # vs) @ new_line n @ '']''"
| "pretty n (JObj []) = ''{}''"
| "pretty n (JObj (m # ms)) = CHR ''{'' # pretty_members (n + 2) (m # ms) @ new_line n @ ''}''"
| "pretty n v = dumps v"
| "pretty_items n [] = []"
| "pretty_items n [v] = new_line n @ pretty n v"
| "pretty_items n (v # w # vs) = new_line n @ pretty n v @ '','' @ pretty_items n (w # vs)"
| "pretty_members n [] = []"
| "pretty_members n [(k, v)] = new_line n @ quoted k @ '': '' @ pretty n v"
| "pretty_members n ((k, v) # m # ms) =
     new_line n @ quoted k @ '': '' @ pretty n v @ '','' @ pretty_members n (m # ms)"

text \<open>A command prints lines (their UTF-8 bytes), and may raise on the way.\<close>

fun print_each :: "('a \<Rightarrow> exn + string) \<Rightarrow> 'a list \<Rightarrow> string list \<times> ending" where
  "print_each f [] = ([], Done)"
| "print_each f (x # xs) =
     (case f x of
        Inl e \<Rightarrow> ([], Escapes e)
      | Inr line \<Rightarrow> (case print_each f xs of (lines, fin) \<Rightarrow> (line # lines, fin)))"

definition print_enqueued :: "(json \<Rightarrow> string) \<Rightarrow> json \<Rightarrow> string list \<times> ending" where
  "print_enqueued str result = print_each (\<lambda>_.
     res_bind (item result ''job_id'') (\<lambda>i.
     res_bind (item result ''stream_entry_id'') (\<lambda>e.
       Inr (utf8_encode (''Enqueued job '' @ show_value str i @ '' (stream: '' @ show_value str e @ '')''))))) [()]"

definition print_status :: "json \<Rightarrow> string list \<times> ending" where
  "print_status result = ([utf8_encode (pretty 0 result)], Done)"

definition queue_line :: "json \<Rightarrow> exn + string" where
  "queue_line q =
     res_bind (res_bind (item q ''name'') (format_s 20)) (\<lambda>name.
     res_bind (res_bind (item q ''depth'') (format_d 6)) (\<lambda>depth.
     res_bind (res_bind (item q ''dead_letter_count'') (format_d 4)) (\<lambda>dead.
       Inr (utf8_encode (name @ '' depth='' @ depth @ ''  dlq='' @ dead)))))"

definition print_queues :: "json \<Rightarrow> string list \<times> ending" where
  "print_queues result =
     (case res_bind (get_or result ''queues'' (JList [])) elements of
        Inl e \<Rightarrow> ([], Escapes e)
      | Inr qs \<Rightarrow> print_each queue_line qs)"

text \<open>The dash between kind and reason is U+2014.\<close>

definition dash_bytes :: string where
  "dash_bytes = [char_of (226 :: nat), char_of (128 :: nat), char_of (148 :: nat)]"

definition dlq_line :: "(json \<Rightarrow> string) \<Rightarrow> json \<Rightarrow> exn + string" where
  "dlq_line str entry =
     res_bind (get_or entry ''job'' (JObj [])) (\<lambda>job.
     res_bind (get_or job ''id'' (JStr ''?'')) (\<lambda>i.
     res_bind (get_or job ''kind'' (JStr ''?'')) (\<lambda>k.
     res_bind (get_or entry ''reason'' (JStr ''?'')) (\<lambda>reason.
       Inr (utf8_encode (''  '' @ show_value str i @ '': '' @ show_value str k @ '' '') @ dash_bytes @
         utf8_encode ('' '' @ show_value str reason))))))"

definition print_dlq :: "(json \<Rightarrow> string) \<Rightarrow> string \<Rightarrow> json \<Rightarrow> string list \<times> ending" where
  "print_dlq str q result =
     (case get_or result ''count'' (JInt 0) of
        Inl e \<Rightarrow> ([], Escapes e)
      | Inr count \<Rightarrow>
          (case (case res_bind (get_or result ''entries'' (JList [])) elements of
             Inl e \<Rightarrow> ([], Escapes e)
           | Inr entries \<Rightarrow> print_each (dlq_line str) entries) of
             (lines, fin) \<Rightarrow>
               (utf8_encode (''DLQ for queue '' @ [CHR 39] @ q @ [CHR 39] @ '' ('' @ show_value str count @ '' entries):'')
                  # lines, fin)))"

definition print_replayed :: "(json \<Rightarrow> string) \<Rightarrow> json \<Rightarrow> string list \<times> ending" where
  "print_replayed str result = print_each (\<lambda>_.
     res_bind (item result ''job_id'') (\<lambda>i.
     res_bind (item result ''new_stream_entry_id'') (\<lambda>e.
       Inr (utf8_encode (''Replayed job '' @ show_value str i @ '' (new stream entry: '' @ show_value str e @ '')''))))) [()]"

definition print_reply :: "(json \<Rightarrow> string) \<Rightarrow> string list \<Rightarrow> json \<Rightarrow> string list \<times> ending" where
  "print_reply str argv result =
     (case argv of
        command # args \<Rightarrow>
          (if command = ''enqueue'' then print_enqueued str result
           else if command = ''status'' then print_status result
           else if command = ''queues'' then print_queues result
           else if command = ''dlq'' then print_dlq str (hd args) result
           else print_replayed str result)
      | [] \<Rightarrow> ([], Done))"

text \<open>The whole run: the module's check of the environment variable, \<open>main\<close>, the request, the output.\<close>

definition cli_run ::
    "(json \<Rightarrow> string) \<Rightarrow> (string \<Rightarrow> exn option) \<Rightarrow> string \<Rightarrow> (string \<Rightarrow> http_request \<Rightarrow> http_end) \<Rightarrow>
     string option \<Rightarrow> string list \<Rightarrow> string list \<times> ending" where
  "cli_run str ip doc urlopen env argv =
     (case validated_api_url ip (case env of None \<Rightarrow> default_api_url | Some url \<Rightarrow> url) of
        Inl e \<Rightarrow> ([], Escapes e)
      | Inr base \<Rightarrow>
     (case cli_main doc argv of
        Inl message \<Rightarrow> ([], Exits message)
      | Inr rq \<Rightarrow>
     (case request_result str (urlopen (base @ rq_path rq) rq) of
        Inl fin \<Rightarrow> ([], fin)
      | Inr result \<Rightarrow> print_reply str argv result)))"

section \<open>Laws\<close>

lemma hex_val_upper [simp]: "k < 16 \<Longrightarrow> hex_val (hex_upper k) = Some k"
  by (simp add: hex_val_def hex_upper_def Let_def)

lemma of_char_less_256: "(of_char c :: nat) < 256"
  by (rule nat_of_char_less_256)

lemma unreserved_not_percent: "unreserved c \<Longrightarrow> c \<noteq> CHR ''%''"
  by (auto simp: unreserved_def Let_def)

lemma unquote_quote_byte [simp]: "unquote_bytes (quote_byte b @ s) = b # unquote_bytes s"
proof (cases "unreserved b")
  case True
  have "c \<noteq> CHR ''%'' \<Longrightarrow> unquote_bytes (c # s) = c # unquote_bytes s" for c
    by (subst unquote_bytes.simps(2)) (simp split: list.split)
  with True unreserved_not_percent show ?thesis by (simp add: quote_byte_def)
next
  case False
  have "(of_char b :: nat) div 16 < 16" using of_char_less_256 [of b] by simp
  moreover have "16 * ((of_char b :: nat) div 16) + of_char b mod 16 = of_char b" by simp
  ultimately show ?thesis
    using False by (simp add: quote_byte_def del: of_char_of)
qed

lemma unquote_bytes_quote [simp]: "unquote_bytes (concat (map quote_byte bs) @ s) = bs @ unquote_bytes s"
  by (induction bs) simp_all

lemma unquote_bytes_plain: "CHR ''%'' \<notin> set a \<Longrightarrow> unquote_bytes (a @ s) = a @ unquote_bytes s"
proof (induction a)
  case (Cons c a)
  have "c \<noteq> CHR ''%'' \<Longrightarrow> unquote_bytes (c # r) = c # unquote_bytes r" for r
    by (subst unquote_bytes.simps(2)) (simp split: list.split)
  then have "unquote_bytes (c # r) = c # unquote_bytes r" for r using Cons.prems by auto
  moreover have "unquote_bytes (a @ s) = a @ unquote_bytes s" using Cons by simp
  ultimately show ?case by (simp del: unquote_bytes.simps(2))
qed simp

lemma utf8_decode_plain: "is_ascii a \<Longrightarrow> utf8_decode (a @ s) = map_option ((@) a) (utf8_decode s)"
  by (induction a; cases "utf8_decode s") auto

lemma utf8_decode_encode: "utf8_decode (utf8_encode s @ t) = map_option ((@) s) (utf8_decode t)"
proof (induction s)
  case (Cons c s)
  let ?n = "of_char c :: nat"
  show ?case
  proof (cases "?n < 128")
    case True
    with Cons show ?thesis by (cases "utf8_decode t") (simp_all add: utf8_encode_def Let_def)
  next
    case False
    have n: "?n < 256" by (rule of_char_less_256)
    define d r where "d = ?n div 64" and "r = ?n mod 64"
    have "d < 4" using n by (simp add: d_def less_mult_imp_div_less)
    moreover have "2 \<le> d" using div_le_mono [of 128 ?n 64] False by (simp add: d_def)
    ultimately have d: "d = 2 \<or> d = 3" by linarith
    have d': "192 + d < 256" using d by linarith
    have r: "r < 64" and dr: "d * 64 + r = ?n" by (simp_all add: r_def d_def)
    have b1: "(of_char (char_of (192 + d)) :: nat) = 192 + d" by (simp add: d')
    have b2: "(of_char (char_of (128 + r)) :: nat) = 128 + r" using r by simp
    have c: "char_of (d * 64 + r) = c" by (simp add: dr)
    have "utf8_encode (c # s) @ t = char_of (192 + d) # char_of (128 + r) # utf8_encode s @ t"
      using False by (simp add: utf8_encode_def Let_def d_def r_def)
    then have "utf8_decode (utf8_encode (c # s) @ t) =
        map_option ((#) (char_of ((192 + d - 192) * 64 + (128 + r - 128)))) (utf8_decode (utf8_encode s @ t))"
      using d r b1 b2 by auto
    then show ?thesis using Cons c by (cases "utf8_decode t") simp_all
  qed
qed (cases "utf8_decode t"; simp add: utf8_encode_def)

lemma utf8_round [simp]: "utf8_decode (utf8_encode s) = Some s"
  using utf8_decode_encode [of s "[]"] by simp

text \<open>Reading a path back, from the front.\<close>

lemma unquote_plain:
  assumes "CHR ''%'' \<notin> set a" "is_ascii a"
  shows "unquote (a @ s) = map_option ((@) a) (unquote s)"
  using assms by (simp add: unquote_def unquote_bytes_plain utf8_decode_plain)

lemma unquote_quoted: "unquote (quote i @ s) = map_option ((@) i) (unquote s)"
  by (simp add: unquote_def quote_def utf8_decode_encode)

lemma unquote_Nil [simp]: "unquote [] = Some []"
  by (simp add: unquote_def)

lemma unquote_const: "CHR ''%'' \<notin> set a \<Longrightarrow> is_ascii a \<Longrightarrow> unquote a = Some a"
  using unquote_plain [of a "[]"] by simp

lemma unquote_quote [simp]: "unquote (quote s) = Some s"
  using unquote_quoted [of s "[]"] by simp

lemma quote_byte_chars: "c \<in> set (quote_byte b) \<Longrightarrow> unreserved c \<or> c = CHR ''%''"
proof -
  have "k < 16 \<Longrightarrow> unreserved (hex_upper k)" for k
    by (auto simp: unreserved_def hex_upper_def Let_def)
  moreover have "(of_char b :: nat) div 16 < 16" using of_char_less_256 [of b] by simp
  ultimately show "c \<in> set (quote_byte b) \<Longrightarrow> ?thesis"
    by (auto simp: quote_byte_def split: if_splits)
qed

lemma quote_chars: "c \<in> set (quote s) \<Longrightarrow> unreserved c \<or> c = CHR ''%''"
  by (auto simp: quote_def dest: quote_byte_chars)

lemma quote_free [simp]:
  "CHR ''/'' \<notin> set (quote s)" "CHR ''?'' \<notin> set (quote s)" "CHR ''#'' \<notin> set (quote s)"
  using quote_chars [of "CHR ''/''" s] quote_chars [of "CHR ''?''" s] quote_chars [of "CHR ''#''" s]
  by (auto simp: unreserved_def Let_def)

text \<open>The path of every request starts with a slash and has nothing in it that would end it.\<close>

lemma request_path_append [simp]:
  "request_path a \<Longrightarrow> request_path (a @ b) \<longleftrightarrow> no_delimiter b \<and> list_all (\<lambda>c. \<not> unsafe_char c) b"
  by (auto simp: request_path_def)

lemma request_path_const [simp]:
  "request_path ''/jobs''" "request_path ''/jobs/''" "request_path ''/queues''" "request_path ''/queues/''"
  "no_delimiter ''/dlq''" "no_delimiter ''/dlq/''" "no_delimiter ''/replay''"
  "list_all (\<lambda>c. \<not> unsafe_char c) ''/dlq''" "list_all (\<lambda>c. \<not> unsafe_char c) ''/dlq/''"
  "list_all (\<lambda>c. \<not> unsafe_char c) ''/replay''"
  by (simp_all add: request_path_def no_delimiter_def unsafe_char_def)

lemma quote_clean [simp]: "no_delimiter (quote s)" "list_all (\<lambda>c. \<not> unsafe_char c) (quote s)"
proof -
  have "unreserved c \<or> c = CHR ''%'' \<Longrightarrow> \<not> unsafe_char c" for c
    by (auto simp: unreserved_def unsafe_char_def Let_def)
  then show "list_all (\<lambda>c. \<not> unsafe_char c) (quote s)" using quote_chars by (auto simp: list_all_iff)
qed (simp add: no_delimiter_def)

lemma cli_request_path:
  assumes "cli_main doc argv = Inr rq"
  shows "request_path (rq_path rq)"
proof -
  have const: "request_path (''/jobs/'' @ quote i)" "request_path (''/queues/'' @ quote i @ ''/dlq'')"
    "request_path (''/queues/'' @ quote i @ ''/dlq/'' @ quote j @ ''/replay'')" for i j
    by (simp_all del: append_Cons append_Nil) (simp_all add: unsafe_char_def)
  with assms show ?thesis
    by (auto simp: cli_main_def cmd_enqueue_def cmd_status_def cmd_queues_def cmd_dlq_def cmd_replay_def
      get_request_def split: list.splits if_splits)
qed

section \<open>Properties\<close>

text \<open>C29. Requests go to the configured server. Whatever base URL is accepted and whatever command is
  given, the URL of its request, read by \<open>urlsplit\<close>, has the scheme, \<open>http\<close> or \<open>https\<close>, and the network
  location of the configured URL, which names a host and no user. Its path is the path of the
  accepted URL, that is the configured one less slashes at its end, followed by the path of the
  command, unless the accepted URL contains a \<open>?\<close> or a \<open>#\<close>: an empty query or fragment passes the
  check, and then the path of the command becomes the query, or the fragment, and the path of the
  server asked for is the same for every command.\<close>

theorem requests_reach_configured_host:
  assumes "validated_api_url ip v = Inr base" "cli_main doc argv = Inr rq"
  shows "\<exists>q p k. urlsplit ip v = Inr q \<and> u_scheme q \<in> {''http'', ''https''} \<and> hostname q \<noteq> [] \<and>
    credentials q = ([], []) \<and> urlsplit ip base = Inr p \<and> u_scheme p = u_scheme q \<and>
    u_netloc p = u_netloc q \<and> u_path q = u_path p @ replicate k CHR ''/'' \<and>
    urlsplit ip (base @ rq_path rq) = Inr
      (if CHR ''?'' \<notin> set base \<and> CHR ''#'' \<notin> set base then p\<lparr>u_path := u_path p @ rq_path rq\<rparr>
       else if CHR ''#'' \<in> set base then p\<lparr>u_fragment := rq_path rq\<rparr> else p\<lparr>u_query := rq_path rq\<rparr>)"
proof -
  obtain q p k where "urlsplit ip v = Inr q" "u_scheme q \<in> {''http'', ''https''}" "hostname q \<noteq> []"
    "credentials q = ([], [])" "urlsplit ip base = Inr p" "u_scheme p = u_scheme q" "u_netloc p = u_netloc q"
    "u_path q = u_path p @ replicate k CHR ''/''"
    "urlsplit ip (base @ rq_path rq) = Inr
       (if no_delimiter base then p\<lparr>u_path := u_path p @ rq_path rq\<rparr>
        else if CHR ''#'' \<in> set base then p\<lparr>u_fragment := rq_path rq\<rparr> else p\<lparr>u_query := rq_path rq\<rparr>)"
    by (rule urlsplit_request [OF assms(1) cli_request_path [OF assms(2)]])
  then show ?thesis unfolding no_delimiter_def by blast
qed

theorem requests_reach_configured_host_witness:
  "(\<exists>p. urlsplit (\<lambda>_. None) (''http://localhost:8000/api'' @ ''/queues'') = Inr p \<and>
     u_netloc p = ''localhost:8000'' \<and> u_path p = ''/api/queues'') \<and>
   (\<exists>p. urlsplit (\<lambda>_. None) (''http://localhost?'' @ ''/queues'') = Inr p \<and> u_netloc p = ''localhost'' \<and>
     u_path p = [] \<and> u_query p = ''/queues'')"
proof -
  have v: "validated_api_url (\<lambda>_. None) ''http://localhost:8000/api/'' = Inr ''http://localhost:8000/api''"
    "validated_api_url (\<lambda>_. None) ''http://localhost?'' = Inr ''http://localhost?''"
    by code_simp+
  have p: "urlsplit (\<lambda>_. None) ''http://localhost:8000/api'' = Inr \<lparr>u_scheme = ''http'', u_netloc = ''localhost:8000'',
      u_path = ''/api'', u_query = [], u_fragment = []\<rparr>"
    "urlsplit (\<lambda>_. None) ''http://localhost?'' = Inr \<lparr>u_scheme = ''http'', u_netloc = ''localhost'',
      u_path = [], u_query = [], u_fragment = []\<rparr>"
    by code_simp+
  have c: "cli_main [] [''queues''] = Inr (get_request ''/queues'')"
    by (simp add: cli_main_def cmd_queues_def)
  have "urlsplit (\<lambda>_. None) (''http://localhost:8000/api'' @ ''/queues'') = Inr \<lparr>u_scheme = ''http'',
      u_netloc = ''localhost:8000'', u_path = ''/api/queues'', u_query = [], u_fragment = []\<rparr>"
    using requests_reach_configured_host [OF v(1) c] p(1) by (elim exE conjE) (simp add: get_request_def)
  moreover have "urlsplit (\<lambda>_. None) (''http://localhost?'' @ ''/queues'') = Inr \<lparr>u_scheme = ''http'',
      u_netloc = ''localhost'', u_path = [], u_query = ''/queues'', u_fragment = []\<rparr>"
    using requests_reach_configured_host [OF v(2) c] p(2) by (elim exE conjE) (simp add: get_request_def)
  ultimately show ?thesis by simp
qed


text \<open>Arguments cannot escape their path segment: whatever queue and job id the user types, the
  path of a status, dead-letter or replay request has exactly the segments of its endpoint, the
  argument's segment reads back as the argument, and neither a query nor a fragment starts in it.\<close>

theorem cli_paths_are_safe:
  "let seg = (\<lambda>r. case r of Inr q \<Rightarrow> map unquote (split_on CHR ''/'' (rq_path q)) | Inl _ \<Rightarrow> []);
       clean = (\<lambda>r. case r of Inr q \<Rightarrow> CHR ''?'' \<notin> set (rq_path q) \<and> CHR ''#'' \<notin> set (rq_path q) | Inl _ \<Rightarrow> False)
   in seg (cli_main doc [''status'', i]) = map Some [[], ''jobs'', i] \<and>
      seg (cli_main doc [''dlq'', q]) = map Some [[], ''queues'', q, ''dlq''] \<and>
      seg (cli_main doc [''replay'', q, i]) = map Some [[], ''queues'', q, ''dlq'', i, ''replay''] \<and>
      clean (cli_main doc [''status'', i]) \<and> clean (cli_main doc [''dlq'', q]) \<and>
      clean (cli_main doc [''replay'', q, i])"
proof -
  have "unquote [] = Some []" "unquote ''jobs'' = Some ''jobs''" "unquote ''queues'' = Some ''queues''"
    "unquote ''dlq'' = Some ''dlq''" "unquote ''replay'' = Some ''replay''"
    by (simp_all add: unquote_def)
  then show ?thesis
    by (simp add: cli_main_def cmd_status_def cmd_dlq_def cmd_replay_def get_request_def
      split_on_first split_on_free Let_def)
qed

end
