(* ===== verification/Serve.thy ===== *)
theory Serve
  imports Api Cli
begin

text \<open>
  The application as a whole: the response models of \<open>api/main.py\<close>, the request body, the routes, the
  three middlewares around the endpoints, and the command line tool of \<open>cli.py\<close> talking to it.

  The framework's part is as documented: the middleware registered last is the outermost (rate
  limit, then logging, then request id); an \<open>HTTPException\<close> becomes a response inside them, any other
  exception passes through them; a path parameter is one non-empty segment of the decoded path. The
  responses the framework writes itself (a path that is not routed, a body that does not validate,
  its documentation pages) and the lax conversion of a value that is no integer to one are
  parameters.
\<close>

section \<open>Response models\<close>

datatype field_type = TStr | TInt | TFloat | TDict

type_synonym schema = "(string \<times> field_type) list"

definition has_type :: "field_type \<Rightarrow> json \<Rightarrow> bool" where
  "has_type t v = (case (t, v) of
     (TStr, JStr _) \<Rightarrow> True
   | (TInt, JInt _) \<Rightarrow> True
   | (TFloat, JFloat _) \<Rightarrow> True
   | (TDict, JObj _) \<Rightarrow> True
   | _ \<Rightarrow> False)"

definition fits :: "schema \<Rightarrow> json \<Rightarrow> bool" where
  "fits sch v = (case v of
     JObj ms \<Rightarrow> list_all (\<lambda>(k, t). case map_of ms k of Some x \<Rightarrow> has_type t x | None \<Rightarrow> False) sch
   | _ \<Rightarrow> False)"

definition fits_list :: "string \<Rightarrow> schema \<Rightarrow> json \<Rightarrow> bool" where
  "fits_list k sch v = (case v of
     JObj ms \<Rightarrow> (case map_of ms k of Some (JList vs) \<Rightarrow> list_all (fits sch) vs | _ \<Rightarrow> False)
   | _ \<Rightarrow> False)"

definition job_status_response :: schema where
  "job_status_response = [(''id'', TStr), (''kind'', TStr), (''status'', TStr), (''queue'', TStr),
     (''created_at'', TStr), (''attempts'', TInt), (''max_retries'', TInt), (''payload'', TDict)]"

definition queue_stats_model :: schema where
  "queue_stats_model = [(''name'', TStr), (''depth'', TInt), (''oldest_job_age_seconds'', TFloat),
     (''dead_letter_count'', TInt)]"

definition queue_list_response :: "json \<Rightarrow> bool" where
  "queue_list_response = fits_list ''queues'' queue_stats_model"

definition dlq_entry_model :: schema where
  "dlq_entry_model = [(''entry_id'', TStr), (''job'', TDict), (''reason'', TStr)]"

definition dlq_list_response :: "json \<Rightarrow> bool" where
  "dlq_list_response = fits_list ''entries'' dlq_entry_model"

section \<open>Request bodies\<close>

text \<open>A field of the body: what is there, or the default the model declares (None: the field is
  required).\<close>

definition field_or :: "(string \<times> json) list \<Rightarrow> string \<Rightarrow> json option \<Rightarrow> json option" where
  "field_or ms k d = (case map_of ms k of Some v \<Rightarrow> Some v | None \<Rightarrow> d)"

definition as_int :: "(json \<Rightarrow> int option) \<Rightarrow> json \<Rightarrow> int option" where
  "as_int lax v = (case v of JInt i \<Rightarrow> Some i | _ \<Rightarrow> lax v)"

text \<open>\<open>EnqueueRequest\<close>: None when the body does not validate.\<close>

definition parse_request :: "(json \<Rightarrow> int option) \<Rightarrow> json \<Rightarrow> enqueue_request option" where
  "parse_request lax body =
     (case body of
        JObj ms \<Rightarrow>
          (case (field_or ms ''kind'' None, field_or ms ''payload'' (Some (JObj [])),
                 field_or ms ''queue'' (Some (JStr ''default'')),
                 field_or ms ''idempotency_key'' (Some JNull),
                 map_option (as_int lax) (field_or ms ''max_retries'' (Some (JInt 3)))) of
             (Some (JStr k), Some (JObj p), Some (JStr q), Some key, Some (Some n)) \<Rightarrow>
               (case (case key of JNull \<Rightarrow> Some None | JStr i \<Rightarrow> Some (Some i) | _ \<Rightarrow> None) of
                  None \<Rightarrow> None
                | Some key \<Rightarrow>
                    (let req = \<lparr>rq_kind = k, rq_payload = p, rq_queue = q, rq_key = key, rq_max_retries = n\<rparr>
                     in if valid_request req then Some req else None))
           | _ \<Rightarrow> None)
      | _ \<Rightarrow> None)"

section \<open>Routes\<close>

datatype target =
    ToEnqueue
  | ToStatus string
  | ToQueues
  | ToDlq string
  | ToReplay string string

text \<open>The decorators of the five endpoints, on the segments of a path.\<close>

definition route :: "string \<Rightarrow> string list \<Rightarrow> target option" where
  "route verb segs =
     (case segs of
        [[], a] \<Rightarrow>
          if verb = ''POST'' \<and> a = ''jobs'' then Some ToEnqueue
          else if verb = ''GET'' \<and> a = ''queues'' then Some ToQueues else None
      | [[], a, i] \<Rightarrow> if verb = ''GET'' \<and> a = ''jobs'' \<and> i \<noteq> [] then Some (ToStatus i) else None
      | [[], a, q, b] \<Rightarrow>
          if verb = ''GET'' \<and> a = ''queues'' \<and> q \<noteq> [] \<and> b = ''dlq'' then Some (ToDlq q) else None
      | [[], a, q, b, i, c] \<Rightarrow>
          if verb = ''POST'' \<and> a = ''queues'' \<and> q \<noteq> [] \<and> b = ''dlq'' \<and> i \<noteq> [] \<and> c = ''replay''
          then Some (ToReplay q i) else None
      | _ \<Rightarrow> None)"

record api_request =
  ar_verb :: string
  ar_path :: string
  ar_limit :: int
  ar_body :: string
  ar_id :: "string option"

text \<open>How the framework calls an endpoint. \<open>limit\<close> is the query parameter of the dead-letter listing
  (fifty when it is not given).\<close>

datatype app_end = Http http | Unprocessable | NotRouted

definition call_endpoint ::
    "'r redis \<Rightarrow> string \<Rightarrow> int \<Rightarrow> bool \<Rightarrow> (json \<Rightarrow> int option) \<Rightarrow> string \<Rightarrow> py_datetime \<Rightarrow> api_request \<Rightarrow>
     'r world \<Rightarrow> (app_end \<times> 'r world) option" where
  "call_endpoint R px cap up lax uuid_hex now rq w =
     (case route (ar_verb rq) (split_on CHR ''/'' (ar_path rq)) of
        None \<Rightarrow> Some (NotRouted, w)
      | Some ToEnqueue \<Rightarrow>
          Some (case loads (ar_body rq) of
             None \<Rightarrow> (Unprocessable, w)
           | Some body \<Rightarrow> (case parse_request lax body of
               None \<Rightarrow> (Unprocessable, w)
             | Some q \<Rightarrow> map_prod Http id (enqueue_job R px cap up uuid_hex now q w)))
      | Some (ToStatus i) \<Rightarrow> Some (map_prod Http id (get_job_status up now i w))
      | Some ToQueues \<Rightarrow> map_option (\<lambda>(h, r). (Http h, w\<lparr>server := r\<rparr>)) (list_queues_endpoint R px up (server w))
      | Some (ToDlq q) \<Rightarrow>
          Some (case list_dlq R px up q (ar_limit rq) (server w) of (h, r) \<Rightarrow> (Http h, w\<lparr>server := r\<rparr>))
      | Some (ToReplay q i) \<Rightarrow> Some (map_prod Http id (replay_dlq_job R px cap up now q i w)))"

section \<open>Middleware\<close>

record response =
  rs_status :: int
  rs_body :: json
  rs_headers :: "(string \<times> string) list"

text \<open>An endpoint's end as a response; \<open>own\<close> is the framework's own response.\<close>

definition to_response :: "response \<Rightarrow> app_end \<Rightarrow> exn + response" where
  "to_response own a = (case a of
     Http (Reply code body hs) \<Rightarrow> Inr \<lparr>rs_status = code, rs_body = body, rs_headers = hs\<rparr>
   | Http (HttpError code detail hs) \<Rightarrow>
       Inr \<lparr>rs_status = code, rs_body = JObj [(''detail'', detail)], rs_headers = hs\<rparr>
   | Http (Crash e) \<Rightarrow> Inl e
   | Unprocessable \<Rightarrow> Inr own
   | NotRouted \<Rightarrow> Inr own)"

text \<open>\<open>request_id_middleware\<close>, on the response of the endpoint.\<close>

definition with_request_id :: "string \<Rightarrow> response \<Rightarrow> response" where
  "with_request_id i rs = rs\<lparr>rs_headers := rs_headers rs @ [(''X-Request-Id'', i)]\<rparr>"

text \<open>\<open>request.url.path\<close>: the framework puts the URL together from the decoded path and splits it with
  \<open>urlsplit\<close>, which ends the path at a \<open>?\<close> or \<open>#\<close> that was quoted in the request and drops tabs and
  line ends.\<close>

definition url_path :: "string \<Rightarrow> string" where
  "url_path path = u_path (with_rest [] [] (filter (\<lambda>c. \<not> unsafe_char c) path))"

text \<open>\<open>structured_logging_middleware\<close>: the line it logs. \<open>elapsed\<close> is the float it prints.\<close>

definition access_line :: "string \<Rightarrow> api_request \<Rightarrow> response \<Rightarrow> string \<Rightarrow> string" where
  "access_line i rq rs elapsed = dumps (JObj [(''request_id'', JStr i), (''method'', JStr (ar_verb rq)),
     (''path'', JStr (url_path (ar_path rq))), (''status'', JInt (rs_status rs)), (''elapsed_seconds'', JFloat elapsed)])"

text \<open>One request through the application: the response or the exception that reaches the server, the
  lines logged, the limiter and the world after it; None when the endpoint never returns. Before the
  start there is no limiter.\<close>

definition serve ::
    "'r redis \<Rightarrow> string \<Rightarrow> int \<Rightarrow> bool \<Rightarrow> 'r script_client \<Rightarrow> (api_request \<Rightarrow> response) \<Rightarrow> (json \<Rightarrow> int option) \<Rightarrow>
     string \<Rightarrow> string \<Rightarrow> rat \<Rightarrow> py_datetime \<Rightarrow> string \<Rightarrow> api_request \<Rightarrow> limiter option \<times> 'r world \<Rightarrow>
     ((exn + response) \<times> string list \<times> limiter option \<times> 'r world) option" where
  "serve R px cap up C own lax uuid uuid_hex seconds now elapsed rq lw =
     (case lw of (l, w) \<Rightarrow>
      case (if up then (case rate_limit C seconds l (server w) of (stop, l, r) \<Rightarrow> (stop, Some l, w\<lparr>server := r\<rparr>))
            else (None, l, w)) of
        (Some stop, l, w) \<Rightarrow> Some (to_response (own rq) (Http stop), [], l, w)
      | (None, l, w) \<Rightarrow>
     (case call_endpoint R px cap up lax uuid_hex now rq w of
        None \<Rightarrow> None
      | Some (a, w) \<Rightarrow>
     (case to_response (own rq) a of
        Inl e \<Rightarrow> Some (Inl e, [], l, w)
      | Inr rs \<Rightarrow>
          (let i = request_id (ar_id rq) uuid; rs = with_request_id i rs
           in Some (Inr rs, [access_line i rq rs elapsed], l, w)))))"

section \<open>Laws\<close>

text \<open>The headers an endpoint sets, and the statuses it answers with.\<close>

definition plain_end :: "app_end \<Rightarrow> bool" where
  "plain_end a = (case a of
     Http (Reply code _ hs) \<Rightarrow> code \<noteq> 429 \<and> hs = []
   | Http (HttpError code _ hs) \<Rightarrow> code \<noteq> 429 \<and> (hs = [] \<or> hs = [(''Retry-After'', ''5'')])
   | _ \<Rightarrow> True)"

lemma plain_end_simps [simp]:
  "plain_end (Http (Reply code b hs)) \<longleftrightarrow> code \<noteq> 429 \<and> hs = []"
  "plain_end (Http (HttpError code b hs)) \<longleftrightarrow> code \<noteq> 429 \<and> (hs = [] \<or> hs = [(''Retry-After'', ''5'')])"
  "plain_end (Http (Crash e))" "plain_end Unprocessable" "plain_end NotRouted"
  by (simp_all add: plain_end_def)

lemma plain_enqueue_job: "plain_end (Http (fst (enqueue_job R px cap up u now q w)))"
  by (auto simp: enqueue_job_def not_ready_def enqueue_error_def split: prod.split sum.split exn.split)

lemma plain_get_job_status: "plain_end (Http (fst (get_job_status up now i w)))"
  by (auto simp: get_job_status_def not_found_def split: prod.split sum.split option.split)

lemma plain_list_queues: "list_queues_endpoint R px up r = Some (h, r') \<Longrightarrow> plain_end (Http h)"
  by (auto simp: list_queues_endpoint_def not_ready_def split: if_splits option.splits prod.splits sum.splits)

lemma plain_list_dlq: "plain_end (Http (fst (list_dlq R px up q n r)))"
  by (auto simp: list_dlq_def not_ready_def split: prod.split sum.split)

lemma plain_replay: "plain_end (Http (fst (replay_dlq_job R px cap up now q i w)))"
  by (auto simp: replay_dlq_job_def not_found_def split: prod.split sum.split option.split)

lemma plain_call_endpoint:
  assumes "call_endpoint R px cap up lax u now rq w = Some (a, w')"
  shows "plain_end a"
proof (cases "route (ar_verb rq) (split_on CHR ''/'' (ar_path rq))")
  case None
  with assms show ?thesis by (auto simp: call_endpoint_def)
next
  case (Some tgt)
  show ?thesis
  proof (cases tgt)
    case ToEnqueue
    have job: "map_prod Http id (enqueue_job R px cap up u now q w) = (b, w1) \<Longrightarrow> plain_end b" for q b w1
      using plain_enqueue_job [of R px cap up u now q w]
      by (cases "enqueue_job R px cap up u now q w") auto
    show ?thesis
    proof (cases "loads (ar_body rq)")
      case (Some v)
      with \<open>route _ _ = Some tgt\<close> ToEnqueue assms job show ?thesis
        by (cases "parse_request lax v") (auto simp: call_endpoint_def simp del: map_prod_simp)
    qed (use Some ToEnqueue assms in \<open>auto simp: call_endpoint_def\<close>)
  next
    case (ToStatus i)
    with assms Some show ?thesis
      using plain_get_job_status [of up now i w] by (auto simp: call_endpoint_def map_prod_def split: prod.splits)
  next
    case ToQueues
    with assms Some show ?thesis using plain_list_queues by (fastforce simp: call_endpoint_def)
  next
    case (ToDlq q)
    with assms Some show ?thesis
      using plain_list_dlq [of R px up q "ar_limit rq" "server w"] by (auto simp: call_endpoint_def split: prod.splits)
  next
    case (ToReplay q i)
    with assms Some show ?thesis
      using plain_replay [of R px cap up now q i w] by (auto simp: call_endpoint_def map_prod_def split: prod.splits)
  qed
qed

lemma plain_response:
  assumes "plain_end a" "to_response own a = Inr rs"
    and "rs_status own \<noteq> 429" "''X-Request-Id'' \<notin> fst ` set (rs_headers own)"
  shows "rs_status rs \<noteq> 429" "''X-Request-Id'' \<notin> fst ` set (rs_headers rs)"
  using assms by (auto simp: to_response_def plain_end_def split: app_end.splits http.splits)

lemma rate_limit_stop:
  assumes "rate_limit C t l r = (Some stop, l', r')" "to_response own (Http stop) = Inr rs"
  shows "rs_status rs = 429" "''X-Request-Id'' \<notin> fst ` set (rs_headers rs)"
  using assms by (auto simp: rate_limit_def limited_reply_def to_response_def split: prod.splits sum.splits bool.splits)

section \<open>Properties\<close>

text \<open>C31. A request is marked and logged exactly when the limiter lets it through and its endpoint does
  not crash. A response other than 429 (which the framework never writes itself) carries the request id, that of the client if it sent one,
  and one line is logged for it; a rate-limited request gets neither, and a crash is not logged.
  The middlewares say they do it for every request.\<close>

theorem served_requests_are_marked:
  assumes "serve R px cap up C own lax uuid u t now elapsed rq (l, w) = Some (out, logs, l', w')"
    and "rs_status (own rq) \<noteq> 429" "''X-Request-Id'' \<notin> fst ` set (rs_headers (own rq))"
  shows "case out of
      Inl e \<Rightarrow> logs = []
    | Inr rs \<Rightarrow>
        if rs_status rs = 429 then logs = [] \<and> map_of (rs_headers rs) ''X-Request-Id'' = None
        else logs = [access_line (request_id (ar_id rq) uuid) rq rs elapsed] \<and>
          map_of (rs_headers rs) ''X-Request-Id'' = Some (request_id (ar_id rq) uuid)"
proof -
  define gate where "gate = (if up then (case rate_limit C t l (server w) of (stop, l, r) \<Rightarrow> (stop, Some l, w\<lparr>server := r\<rparr>))
      else (None, l, w))"
  obtain stop l1 w1 where g: "gate = (stop, l1, w1)" by (cases gate)
  have s: "(case gate of
        (Some stop, l, w) \<Rightarrow> Some (to_response (own rq) (Http stop), [], l, w)
      | (None, l, w) \<Rightarrow>
     (case call_endpoint R px cap up lax u now rq w of
        None \<Rightarrow> None
      | Some (a, w) \<Rightarrow>
     (case to_response (own rq) a of
        Inl e \<Rightarrow> Some (Inl e, [], l, w)
      | Inr rs \<Rightarrow>
          (let i = request_id (ar_id rq) uuid; rs = with_request_id i rs
           in Some (Inr rs, [access_line i rq rs elapsed], l, w))))) = Some (out, logs, l', w')"
    using assms(1) unfolding serve_def gate_def by simp
  show ?thesis
  proof (cases stop)
    case (Some h)
    with s g have out: "out = to_response (own rq) (Http h)" "logs = []" by simp_all
    obtain l2 r2 where rl: "rate_limit C t l (server w) = (Some h, l2, r2)"
      using g Some by (auto simp: gate_def split: if_splits prod.splits)
    show ?thesis
    proof (cases out)
      case (Inr rs)
      then have "to_response (own rq) (Http h) = Inr rs" using out by simp
      note rate_limit_stop [OF rl this]
      with Inr out(2) show ?thesis by (simp add: map_of_eq_None_iff)
    qed (use out in simp)
  next
    case None
    with s g obtain a w2 where a: "call_endpoint R px cap up lax u now rq w1 = Some (a, w2)"
      by (auto split: option.splits)
    show ?thesis
    proof (cases "to_response (own rq) a")
      case (Inl e)
      with s g None a have "out = Inl e" "logs = []" by auto
      then show ?thesis by simp
    next
      case (Inr rs)
      let ?i = "request_id (ar_id rq) uuid"
      from s g None a Inr have "out = Inr (with_request_id ?i rs)"
        "logs = [access_line ?i rq (with_request_id ?i rs) elapsed]"
        by (simp_all add: Let_def)
      moreover have "rs_status rs \<noteq> 429" "map_of (rs_headers rs) ''X-Request-Id'' = None"
        using plain_response [OF plain_call_endpoint [OF a] Inr assms(2,3)] by (simp_all add: map_of_eq_None_iff)
      ultimately show ?thesis by (simp add: with_request_id_def map_add_def)
    qed
  qed
qed

definition open_client :: "mem script_client" where
  "open_client = \<lparr>sc_load = (\<lambda>r. (Inr ''sha'', r)), sc_eval = (\<lambda>h k now rate cap cost r. (Inr 1, r))\<rparr>"

definition shut_client :: "mem script_client" where
  "shut_client = open_client\<lparr>sc_eval := (\<lambda>h k now rate cap cost r. (Inr 0, r))\<rparr>"

lemma demo_limits [simp]:
  "rate_limit open_client t None r = (None, api_limiter\<lparr>l_hash := Some ''sha''\<rparr>, r)"
  "rate_limit shut_client t None r = (Some limited_reply, api_limiter\<lparr>l_hash := Some ''sha''\<rparr>, r)"
  by (simp_all add: rate_limit_def allow_def ensure_script_def open_client_def shut_client_def api_limiter_def)

definition bare_404 :: "api_request \<Rightarrow> response" where
  "bare_404 rq = \<lparr>rs_status = 404, rs_body = JNull, rs_headers = []\<rparr>"

definition demo_request :: api_request where
  "demo_request = \<lparr>ar_verb = ''GET'', ar_path = ''/jobs/job_1'', ar_limit = 50, ar_body = [], ar_id = None\<rparr>"

theorem served_requests_are_marked_witness:
  "\<exists>rs rs' w w'. serve mem_client ''relayq'' 10 True open_client bare_404 (\<lambda>_. None) ''u'' ''u'' 0 base_time ''0.0''
     demo_request (None, demo_world\<lparr>store := None\<rparr>) = Some (Inr rs, [access_line ''u'' demo_request rs ''0.0''], w) \<and>
   map_of (rs_headers rs) ''X-Request-Id'' = Some ''u'' \<and>
   serve mem_client ''relayq'' 10 True shut_client bare_404 (\<lambda>_. None) ''u'' ''u'' 0 base_time ''0.0''
     demo_request (None, demo_world\<lparr>store := None\<rparr>) = Some (Inr rs', [], w') \<and> rs_status rs' = 429"
proof -
  have r: "route ''GET'' (split_on CHR ''/'' ''/jobs/job_1'') = Some (ToStatus ''job_1'')"
    by (simp add: route_def)
  obtain rs logs l w where s: "serve mem_client ''relayq'' 10 True open_client bare_404 (\<lambda>_. None) ''u'' ''u'' 0 base_time ''0.0''
      demo_request (None, demo_world\<lparr>store := None\<rparr>) = Some (Inr rs, logs, l, w)" "rs_status rs = 200"
    using r by (auto simp: serve_def demo_request_def call_endpoint_def get_job_status_def demo_world_def
      to_response_def with_request_id_def Let_def)
  obtain rs' l' w' where s': "serve mem_client ''relayq'' 10 True shut_client bare_404 (\<lambda>_. None) ''u'' ''u'' 0 base_time ''0.0''
      demo_request (None, demo_world\<lparr>store := None\<rparr>) = Some (Inr rs', [], l', w')" "rs_status rs' = 429"
    by (auto simp: serve_def limited_reply_def to_response_def)
  have own: "rs_status (bare_404 demo_request) \<noteq> 429" "''X-Request-Id'' \<notin> fst ` set (rs_headers (bare_404 demo_request))"
    by (simp_all add: bare_404_def)
  from served_requests_are_marked [OF s(1) own] s served_requests_are_marked [OF s'(1) own] s'
  show ?thesis by (auto simp: demo_request_def request_id_def)
qed

lemma split_on_second: "c \<in> set s \<Longrightarrow> \<exists>a b r. split_on c s = a # b # r"
  by (metis split_list_first split_on_first split_on_not_Nil neq_Nil_conv)

lemma unquote_status: "unquote (''/jobs/'' @ quote i) = Some (''/jobs/'' @ i)"
  using unquote_plain [of "''/jobs/''" "quote i"] by simp

lemma unquote_dlq: "unquote (''/queues/'' @ quote q @ ''/dlq'') = Some (''/queues/'' @ q @ ''/dlq'')"
  using unquote_plain [of "''/queues/''" "quote q @ ''/dlq''"] unquote_quoted [of q "''/dlq''"]
    unquote_const [of "''/dlq''"]
  by simp

lemma unquote_replay: "unquote (''/queues/'' @ quote q @ ''/dlq/'' @ quote i @ ''/replay'') =
   Some (''/queues/'' @ q @ ''/dlq/'' @ i @ ''/replay'')"
  using unquote_plain [of "''/queues/''" "quote q @ ''/dlq/'' @ quote i @ ''/replay''"]
    unquote_quoted [of q "''/dlq/'' @ quote i @ ''/replay''"] unquote_plain [of "''/dlq/''" "quote i @ ''/replay''"]
    unquote_quoted [of i "''/replay''"] unquote_const [of "''/replay''"]
  by simp

text \<open>C30. The commands reach their endpoints. For a queue name and a job id that are not empty and
  contain no slash, the path of each request, decoded by the server, is routed to the endpoint the
  command means, with the arguments as they were typed. An id with a slash never is: quoting
  protects it in the URL, but the server decodes the path before it looks for the segments.\<close>

theorem cli_commands_reach_endpoints:
  "let to = (\<lambda>argv. case cli_main doc argv of
       Inr rq \<Rightarrow> (case unquote (rq_path rq) of
         Some p \<Rightarrow> route (rq_method rq) (split_on CHR ''/'' p) | None \<Rightarrow> None)
     | Inl _ \<Rightarrow> None);
     plain = (\<lambda>s. s \<noteq> [] \<and> CHR ''/'' \<notin> set s)
   in to [''enqueue'', q, text] = Some ToEnqueue \<and> to [''queues''] = Some ToQueues \<and>
      (plain i \<longrightarrow> to [''status'', i] = Some (ToStatus i)) \<and>
      (plain q \<longrightarrow> to [''dlq'', q] = Some (ToDlq q)) \<and>
      (plain q \<longrightarrow> plain i \<longrightarrow> to [''replay'', q, i] = Some (ToReplay q i)) \<and>
      (CHR ''/'' \<in> set i \<longrightarrow> to [''status'', i] = None)"
proof -
  have jobs: "unquote ''/jobs'' = Some ''/jobs''" "unquote ''/queues'' = Some ''/queues''"
    by (simp_all add: unquote_const)
  have status: "split_on CHR ''/'' (''/jobs/'' @ i) = [] # ''jobs'' # split_on CHR ''/'' i"
    using split_on_first [of "CHR ''/''" "''jobs''" i] by simp
  have dlq: "CHR ''/'' \<notin> set q \<Longrightarrow> split_on CHR ''/'' (''/queues/'' @ q @ ''/dlq'') = [[], ''queues'', q, ''dlq'']"
    by (simp add: split_on_first split_on_free)
  have replay: "CHR ''/'' \<notin> set q \<Longrightarrow> CHR ''/'' \<notin> set i \<Longrightarrow>
      split_on CHR ''/'' (''/queues/'' @ q @ ''/dlq/'' @ i @ ''/replay'') = [[], ''queues'', q, ''dlq'', i, ''replay'']"
    by (simp add: split_on_first split_on_free)
  have none: "CHR ''/'' \<in> set i \<Longrightarrow> route ''GET'' ([] # ''jobs'' # split_on CHR ''/'' i) = None"
    using split_on_second [of "CHR ''/''" i] by (auto simp: route_def split: list.split)
  have some: "CHR ''/'' \<notin> set i \<Longrightarrow> i \<noteq> [] \<Longrightarrow>
      route ''GET'' ([] # ''jobs'' # split_on CHR ''/'' i) = Some (ToStatus i)"
    by (simp add: split_on_free route_def)
  have "cli_main doc [''enqueue'', q, text] = cmd_enqueue [q, text]" "cli_main doc [''queues''] = cmd_queues []"
    "cli_main doc [''status'', i] = cmd_status [i]" "cli_main doc [''dlq'', q] = cmd_dlq [q]"
    "cli_main doc [''replay'', q, i] = cmd_replay [q, i]"
    by (simp_all add: cli_main_def)
  moreover have "route ''POST'' (split_on CHR ''/'' ''/jobs'') = Some ToEnqueue"
    "route ''GET'' (split_on CHR ''/'' ''/queues'') = Some ToQueues"
    by (simp_all add: route_def)
  moreover have "q \<noteq> [] \<Longrightarrow> route ''GET'' [[], ''queues'', q, ''dlq''] = Some (ToDlq q)"
    "q \<noteq> [] \<Longrightarrow> i \<noteq> [] \<Longrightarrow> route ''POST'' [[], ''queues'', q, ''dlq'', i, ''replay''] = Some (ToReplay q i)"
    by (simp_all add: route_def)
  ultimately show ?thesis
    unfolding Let_def cmd_enqueue_def cmd_status_def cmd_queues_def cmd_dlq_def cmd_replay_def get_request_def
    using jobs unquote_status [of i] unquote_dlq [of q] unquote_replay [of q i] status dlq replay none some
    by simp
qed

theorem cli_commands_reach_endpoints_witness:
  "\<exists>rq. cli_main [] [''status'', ''job_1''] = Inr rq \<and> unquote (rq_path rq) = Some ''/jobs/job_1'' \<and>
     route (rq_method rq) (split_on CHR ''/'' ''/jobs/job_1'') = Some (ToStatus ''job_1'')"
proof -
  have "\<exists>rq. cli_main [] [''status'', ''job_1''] = Inr rq \<and> unquote (rq_path rq) = Some ''/jobs/job_1''"
    using unquote_status [of "''job_1''"] by (simp add: cli_main_def cmd_status_def get_request_def)
  with cli_commands_reach_endpoints [of "[]" "''default''" "[]" "''job_1''", unfolded Let_def]
  show ?thesis by auto
qed

text \<open>The replies of the endpoints have the shape of the response models.\<close>

lemma queue_stats_fit:
  "queue_stats R px names r = (Inr stats, r') \<Longrightarrow> list_all (fits queue_stats_model) stats"
proof (induction names arbitrary: r stats r')
  case (Cons name names)
  then show ?case
    by (auto simp: io_bind_def io_ret_def fits_def queue_stats_model_def has_type_def
      split: prod.splits sum.splits)
qed (simp add: io_ret_def)

lemma dlq_json_fits: "fits dlq_entry_model (dlq_json d) \<longleftrightarrow> (\<exists>ms. d_job d = JObj ms)"
  by (cases "d_job d") (simp_all add: fits_def dlq_entry_model_def dlq_json_def has_type_def)

lemma status_body_fits: "status_body j = Inr b \<Longrightarrow> fits job_status_response b \<longleftrightarrow> (\<exists>ms. payload j = JObj ms)"
  by (cases "payload j")
     (auto simp: status_body_def res_bind_Inr_conv fits_def job_status_response_def has_type_def)

text \<open>C32. Which replies have the types of the response models. Every answer of the queue listing that is
  no error is a \<open>QueueListResponse\<close>. An answer of the dead-letter listing is a \<open>DLQListResponse\<close> exactly
  when every stored job it lists is an object. An answer of the job status is a
  \<open>JobStatusResponse\<close> exactly when the API has started with a store, the store holds the job and its
  payload is an object; the answer without a store, which is the only one as the API is started, never
  is.\<close>

theorem replies_fit_models:
  "(list_queues_endpoint R px up r = Some (Reply code b hs, r') \<longrightarrow> queue_list_response b) \<and>
   (list_dlq R px up q n r = (Reply code b hs, r') \<longrightarrow>
     (\<exists>ds. read_dlq R px q ''-'' ''+'' n r = (Inr ds, r') \<and>
       (dlq_list_response b \<longleftrightarrow> (\<forall>d\<in>set ds. \<exists>ms. d_job d = JObj ms)))) \<and>
   (get_job_status up now i w = (Reply code b hs, w') \<longrightarrow>
     (fits job_status_response b \<longleftrightarrow>
       up \<and> (\<exists>db j ms. store w = Some db \<and> fst (get_job now i db) = Inr (Some j) \<and> payload j = JObj ms)))"
proof (intro conjI impI)
  assume "list_queues_endpoint R px up r = Some (Reply code b hs, r')"
  then show "queue_list_response b"
    using queue_stats_fit
    by (fastforce simp: list_queues_endpoint_def not_ready_def queue_list_response_def fits_list_def
      split: if_splits option.splits prod.splits sum.splits)
next
  assume "list_dlq R px up q n r = (Reply code b hs, r')"
  then show "\<exists>ds. read_dlq R px q ''-'' ''+'' n r = (Inr ds, r') \<and>
      (dlq_list_response b \<longleftrightarrow> (\<forall>d\<in>set ds. \<exists>ms. d_job d = JObj ms))"
    by (auto simp: list_dlq_def not_ready_def dlq_list_response_def fits_list_def list_all_iff dlq_json_fits
      split: if_splits prod.splits sum.splits)
next
  assume a: "get_job_status up now i w = (Reply code b hs, w')"
  show "fits job_status_response b \<longleftrightarrow>
      up \<and> (\<exists>db j ms. store w = Some db \<and> fst (get_job now i db) = Inr (Some j) \<and> payload j = JObj ms)"
  proof (cases "if up then store w else None")
    case None
    with a show ?thesis
      by (auto simp: get_job_status_def fits_def job_status_response_def has_type_def split: if_splits)
  next
    case (Some db)
    then have w: "up" "store w = Some db" by (simp_all split: if_splits)
    obtain m db' where g: "get_job now i db = (m, db')" by fastforce
    with a w obtain j where j: "m = Inr (Some j)" "status_body j = Inr b"
      by (auto simp: get_job_status_def not_found_def split: sum.splits option.splits)
    from status_body_fits [OF j(2)] w g j(1) show ?thesis by simp
  qed
qed

theorem replies_fit_models_witness:
  "(\<exists>b. list_dlq mem_client ''relayq'' True ''q'' 50 mem_init = (Reply 200 b [], mem_init) \<and> dlq_list_response b) \<and>
   (\<exists>b w'. get_job_status True base_time ''job_0123456789abcdef''
       (demo_world\<lparr>store := Some (connect [row_of sample_job ''pending''] [])\<rparr>) = (Reply 200 b [], w') \<and>
     fits job_status_response b) \<and>
   (\<exists>b w'. get_job_status True base_time ''job_0123456789abcdef'' (demo_world\<lparr>store := None\<rparr>) =
       (Reply 200 b [], w') \<and> \<not> fits job_status_response b)"
proof -
  let ?db = "connect [row_of sample_job ''pending''] []"
  let ?w = "demo_world\<lparr>store := Some ?db\<rparr>"
  have row: "find (\<lambda>r. r_id r = ''job_0123456789abcdef'') (table ?db) = Some (row_of sample_job ''pending'')"
    by (simp add: connect_def row_of_def)
  have job: "get_job base_time ''job_0123456789abcdef'' ?db = (Inr (Some sample_job), ?db)"
    using job_of_row_of [of sample_job PENDING base_time] row
    by (simp add: get_job_def fetch_job_unlocked connect_def)
  obtain b where dlq: "list_dlq mem_client ''relayq'' True ''q'' 50 mem_init = (Reply 200 b [], mem_init)"
    "read_dlq mem_client ''relayq'' ''q'' ''-'' ''+'' 50 mem_init = (Inr [], mem_init)"
    by (simp add: list_dlq_def read_dlq_def io_bind_def)
  obtain b1 w1 where st: "get_job_status True base_time ''job_0123456789abcdef'' ?w = (Reply 200 b1 [], w1)"
    using job by (auto simp: get_job_status_def status_body_def status_attr_def)
  obtain b2 w2 where un: "get_job_status True base_time ''job_0123456789abcdef'' (demo_world\<lparr>store := None\<rparr>) =
      (Reply 200 b2 [], w2)"
    by (auto simp: get_job_status_def)
  note P = replies_fit_models [THEN conjunct2, THEN conjunct2, THEN mp]
  have "dlq_list_response b"
    using replies_fit_models [THEN conjunct2, THEN conjunct1, THEN mp, OF dlq(1)] dlq(2) by auto
  moreover have "fits job_status_response b1" using P [OF st] job by simp
  moreover have "\<not> fits job_status_response b2" using P [OF un] by simp
  ultimately show ?thesis using dlq(1) st un by blast
qed

section \<open>The command line tool and the application together\<close>

text \<open>
  HTTP between them: the server gets the path of the URL decoded and the body's text; \<open>urlopen\<close> raises
  \<open>HTTPError\<close> from status 400 on; an exception that reaches the server is answered 500. \<open>render\<close> is
  how the framework writes a body. Two cases that the tool's own requests to the five routes never
  reach are left out: a path that is no UTF-8 once decoded (here an error, a server replaces the bad
  bytes), and a redirect, which \<open>urlopen\<close> would follow (no endpoint answers with one).
\<close>

definition over_http ::
    "(string \<Rightarrow> exn option) \<Rightarrow> (json \<Rightarrow> string) \<Rightarrow> (api_request \<Rightarrow> exn + response) \<Rightarrow> string \<Rightarrow> http_request \<Rightarrow> http_end" where
  "over_http ip render app url rq =
     (case urlsplit ip url of
        Inl e \<Rightarrow> CallRaised e
      | Inr p \<Rightarrow>
     (case unquote (u_path p) of
        None \<Rightarrow> CallRaised UnicodeDecodeError
      | Some path \<Rightarrow>
     (case app \<lparr>ar_verb = rq_method rq, ar_path = path, ar_limit = 50,
            ar_body = (case rq_body rq of Some v \<Rightarrow> dumps v | None \<Rightarrow> []), ar_id = None\<rparr> of
        Inl e \<Rightarrow> HttpErrorRaised 500 ''Internal Server Error''
      | Inr rs \<Rightarrow>
          if rs_status rs < 400 then Answered (render (rs_body rs))
          else HttpErrorRaised (rs_status rs) (render (rs_body rs)))))"

text \<open>The request \<open>relayq enqueue\<close> makes.\<close>

definition cli_request :: "string \<Rightarrow> (string \<times> json) list \<Rightarrow> enqueue_request" where
  "cli_request q p = \<lparr>rq_kind = ''generic'', rq_payload = p, rq_queue = q, rq_key = None, rq_max_retries = 3\<rparr>"

text \<open>C15. An enqueue from the command line ends in the queue. Let the accepted base URL be that of the
  root of a server: it has no path but slashes at its end, no \<open>?\<close> or \<open>#\<close> (which would swallow the
  path), no space or control character at its beginning and no tab or line end. With a queue name
  and an object as payload that validate, a limiter that lets the request through and an enqueue
  that returns an entry id, \<open>relayq enqueue\<close> prints the id of the job it enqueued and the entry id,
  and the job that was enqueued is the one the arguments describe.\<close>

theorem cli_enqueue_end_to_end:
  assumes "validated_api_url ip url = Inr base" "clean_url url = url" "CHR ''?'' \<notin> set base" "CHR ''#'' \<notin> set base"
    and "urlsplit ip base = Inr parts" "u_path parts = []"
    and "\<And>v. wf_json v \<Longrightarrow> \<exists>s. utf8_decode (render v) = Some s \<and> loads s = Some v"
    and "valid_identifier q" "loads text = Some (JObj p)" "wf_json (JObj p)" "bounded_payload p"
    and "rate_limit C t l (server w) = (None, l', r)"
    and "enqueue R px cap now None None (request_job u now (cli_request q p)) (w\<lparr>server := r\<rparr>) = (Inr i, j, w')"
  shows "cli_run str ip doc
      (over_http ip render (\<lambda>rq. fst (the (serve R px cap True C own lax uuid u t now elapsed rq (l, w)))))
      (Some url) [''enqueue'', q, text] =
    ([utf8_encode (''Enqueued job job_'' @ take 16 u @ '' (stream: '' @ i @ '')'')], Done) \<and>
    kind j = ''generic'' \<and> payload j = JObj p \<and> queue j = q"
proof -
  define app where "app = (\<lambda>rq. fst (the (serve R px cap True C own lax uuid u t now elapsed rq (l, w))))"
  define body where "body = JObj [(''kind'', JStr ''generic''), (''payload'', JObj p), (''queue'', JStr q)]"
  define reply where "reply = JObj [(''job_id'', JStr (''job_'' @ take 16 u)), (''stream_entry_id'', JStr i),
      (''status'', JStr ''pending'')]"
  define rq where "rq = \<lparr>ar_verb = ''POST'', ar_path = ''/jobs'', ar_limit = 50, ar_body = dumps body, ar_id = None\<rparr>"
  have cmd: "cli_main doc [''enqueue'', q, text] = Inr \<lparr>rq_method = ''POST'', rq_path = ''/jobs'', rq_body = Some body\<rparr>"
    using assms(9) by (simp add: cli_main_def cmd_enqueue_def body_def)
  have "request_path ''/jobs''" by simp
  then obtain p' where p': "urlsplit ip base = Inr p'" "urlsplit ip (base @ ''/jobs'') = Inr
       (if no_delimiter base then p'\<lparr>u_path := u_path p' @ ''/jobs''\<rparr>
        else if CHR ''#'' \<in> set base then p'\<lparr>u_fragment := ''/jobs''\<rparr> else p'\<lparr>u_query := ''/jobs''\<rparr>)"
    by (rule urlsplit_request [OF assms(1)])
  have "no_delimiter base" using assms(3,4) by (simp add: no_delimiter_def)
  moreover have "p' = parts" using p'(1) assms(5) by simp
  ultimately have url: "urlsplit ip (base @ ''/jobs'') = Inr (parts\<lparr>u_path := ''/jobs''\<rparr>)"
    using p'(2) assms(6) by simp
  have jobs: "unquote ''/jobs'' = Some ''/jobs''" by (simp add: unquote_const)
  have "wf_json body" using assms(10) by (simp add: body_def)
  then have loaded: "loads (dumps body) = Some body" by (rule loads_dumps)
  have "valid_request (cli_request q p)"
    using assms(8,11)
    by (simp add: valid_request_def cli_request_def valid_identifier_def ident_char_def less_eq_char_def)
  then have parsed: "parse_request lax body = Some (cli_request q p)"
    by (simp add: parse_request_def body_def field_or_def as_int_def cli_request_def)
  have enq: "enqueue_job R px cap True u now (cli_request q p) (w\<lparr>server := r\<rparr>) = (Reply 201 reply [], w')"
    using enqueue_job_replies [of R px cap now "cli_request q p" u "w\<lparr>server := r\<rparr>" "Inr i" j w'] assms(13)
    by (simp add: cli_request_def reply_def)
  have "route ''POST'' (split_on CHR ''/'' ''/jobs'') = Some ToEnqueue" by (simp add: route_def)
  then have "call_endpoint R px cap True lax u now rq (w\<lparr>server := r\<rparr>) = Some (Http (Reply 201 reply []), w')"
    using loaded parsed enq by (simp add: call_endpoint_def rq_def)
  then obtain hs where app: "app rq = Inr \<lparr>rs_status = 201, rs_body = reply, rs_headers = hs\<rparr>"
    using assms(12) by (simp add: app_def serve_def to_response_def with_request_id_def Let_def)
  have "wf_json reply" by (simp add: reply_def)
  then obtain s where s: "utf8_decode (render reply) = Some s" "loads s = Some reply" using assms(7) by blast
  have "over_http ip render app (base @ ''/jobs'') \<lparr>rq_method = ''POST'', rq_path = ''/jobs'', rq_body = Some body\<rparr> =
      Answered (render reply)"
    using url jobs app by (simp add: over_http_def rq_def)
  then have "cli_run str ip doc (over_http ip render app) (Some url) [''enqueue'', q, text] =
      print_reply str [''enqueue'', q, text] reply"
    using assms(1) cmd s by (simp add: cli_run_def request_result_def decoded_def)
  moreover have "j = request_job u now (cli_request q p)"
    using assms(13) by (cases rule: enqueue_cases) (simp_all add: keyed_job_def given_key_def)
  ultimately show ?thesis
    by (simp add: app_def [symmetric] print_reply_def print_enqueued_def item_def reply_def show_value_def
      request_job_def cli_request_def)
qed

theorem cli_enqueue_end_to_end_witness:
  "\<exists>i. cli_run (\<lambda>_. []) (\<lambda>_. None) []
      (over_http (\<lambda>_. None) dumps (\<lambda>rq. fst (the (serve mem_client ''relayq'' 10 True open_client bare_404
        (\<lambda>_. None) ''u'' ''0123456789abcdef'' 0 base_time ''0.0'' rq (None, demo_world\<lparr>store := None\<rparr>)))))
      (Some ''http://localhost:8000'') [''enqueue'', ''default'', ''{}''] =
    ([utf8_encode (''Enqueued job job_'' @ take 16 ''0123456789abcdef'' @ '' (stream: '' @ i @ '')'')], Done)"
proof -
  let ?w = "(demo_world\<lparr>store := None\<rparr>)\<lparr>server := mem_init\<rparr>"
  let ?j = "request_job ''0123456789abcdef'' base_time (cli_request ''default'' [])"
  have v: "validated_api_url (\<lambda>_. None) ''http://localhost:8000'' = Inr ''http://localhost:8000''" by code_simp
  have c: "clean_url ''http://localhost:8000'' = ''http://localhost:8000''" by code_simp
  have p: "urlsplit (\<lambda>_. None) ''http://localhost:8000'' = Inr \<lparr>u_scheme = ''http'', u_netloc = ''localhost:8000'',
      u_path = [], u_query = [], u_fragment = []\<rparr>"
    by code_simp
  have "wf_job ?j" using valid_base_time by (simp add: wf_job_def request_job_def new_job_def cli_request_def)
  then obtain body where body: "job_text ?j = Inr body" using job_text_Inr by blast
  obtain i w' where enq: "enqueue mem_client ''relayq'' 10 base_time None None ?j ?w = (Inr i, ?j, w')"
    using body by (simp add: enqueue_def on_server_def stream_length_def keyed_job_def given_key_def check_key_def
      write_outbox_def xadd_def io_bind_def demo_world_def request_job_def cli_request_def Let_def)
  have payload_text: "loads ''{}'' = Some (JObj [])" by code_simp
  have q: "valid_identifier ''default''" by (simp add: valid_identifier_def ident_char_def less_eq_char_def)
  have bounded: "bounded_payload []" by (simp add: bounded_payload_def max_payload_bytes_def)
  have limit: "rate_limit open_client 0 None (server (demo_world\<lparr>store := None\<rparr>)) =
      (None, api_limiter\<lparr>l_hash := Some ''sha''\<rparr>, mem_init)"
    by (simp add: demo_world_def)
  have wf: "wf_json (JObj [])" by simp
  have render: "wf_json v \<Longrightarrow> \<exists>s. utf8_decode (dumps v) = Some s \<and> loads s = Some v" for v
    using is_ascii_dumps(1) loads_dumps by (metis utf8_decode_ascii)
  from cli_enqueue_end_to_end [OF v c _ _ p _ render q payload_text wf bounded limit enq,
      of "\<lambda>_. []" "[]" bare_404 "\<lambda>_. None" "''u''" "''0.0''"]
  show ?thesis by auto
qed

end
