(* ===== verification/Spec2Isabelle.thy ===== *)
theory Spec2Isabelle
  imports Prelude Bags Runs Errors PyTime Job Retry Clock Metrics SqliteStore SharedStore RedisStream MemRedis World
    Enqueue Execute ExecuteSteps Admission Recover Worker Pool Keeps Saturation Fleet Pending Entries Enqueuers Producers
    System RateLimiter Circuit Api Lifecycle Url Cli Serve
begin

text \<open>
  RelayQ, a job queue on Redis streams.

  \<^bold>\<open>The program.\<close> A client posts a job to the HTTP API (\<open>api/main.py\<close>), which validates the request and
  hands the job to \<open>Enqueuer\<close> (\<open>relayq/application/enqueue.py\<close>): depth check, idempotency check,
  outbox insert (\<open>relayq/infrastructure/sqlite_store.py\<close>), stream append
  (\<open>relayq/infrastructure/redis_stream.py\<close>). A worker (\<open>relayq/worker/runner.py\<close>) checks admission,
  reads entries from the stream through a consumer group, and runs each under a semaphore through
  \<open>Executor\<close> (\<open>relayq/application/execute.py\<close>), which acknowledges on success, leaves the entry
  pending on a failure with retries left, and moves the job to a dead-letter stream on the last
  one. A recovery task (\<open>relayq/application/recover.py\<close>) claims entries of dead workers; shutdown
  (\<open>relayq/worker/shutdown.py\<close>) drains the running tasks. The CLI (\<open>cli.py\<close>) is a client of the API.

  \<^bold>\<open>The theories\<close>, in dependency order.
  \<^item> \<open>Prelude\<close>: results (\<open>'e + 'a\<close>), effects (\<open>'s \<Rightarrow> ('e + 'a) \<times> 's\<close>) and shared list facts.
    \<open>PyText\<close>, \<open>PyTime\<close>, \<open>Json\<close>: the text, ISO date and JSON routines of Python the program uses,
    executable, with their round trips. \<open>Bags\<close>: facts on multisets. \<open>Runs\<close>: the runs of a step relation,
    and the interfaces through which they are reasoned about: a predicate every step keeps
    (\<open>step_invariant\<close>), a simulation of a specification (\<open>simulation\<close>), one given by a map of states
    (\<open>refinement_map\<close>), and a part of a system (\<open>projection\<close>); in \<open>Bags\<close>, an account of what goes in and out
    (\<open>account\<close>). \<open>SharedStore\<close> (\<open>serial\<close>), \<open>Pool\<close> (\<open>pool\<close>, \<open>pool_size\<close>), \<open>Fleet\<close> (\<open>fleet_account\<close>), \<open>Producers\<close>
    (\<open>call_account\<close>, \<open>site_db\<close>) and \<open>System\<close> (\<open>system_calls\<close>, \<open>system_workers\<close>) interpret them. \<open>Codec\<close>: the interface of an encoder and its decoder, and
    of two of them in sequence, interpreted for JSON (\<open>json_text\<close>), the dict form of a job
    (\<open>job_dict\<close>), the wire form of a job (\<open>job_wire\<close>) and the key of a stream (\<open>stream_name\<close>).
  \<^item> \<open>Errors\<close>, \<open>Job\<close>, \<open>Retry\<close>, \<open>Clock\<close>, \<open>Metrics\<close>: \<open>relayq/domain\<close>, \<open>relayq/infrastructure/clock.py\<close> and
    \<open>relayq/telemetry/metrics.py\<close>. An exception is a value of \<open>exn\<close>; \<open>except Exception\<close> is
    \<open>is_exception\<close>, everything but \<open>CancelledError\<close>. The metrics are the list of calls made.
  \<^item> \<open>Registry\<close>, \<open>SqliteStore\<close>: the interface of an operation that claims idempotency keys, and the
    outbox: committed rows, the connection's open transaction, and the locks to come. The outbox
    insert interprets the interface (\<open>outbox\<close>), and in \<open>Enqueue\<close> the whole enqueue does
    (\<open>enqueuer\<close>). \<open>SharedStore\<close>: any number of connections to one database, statement by statement,
    refined by the transactions run one after the other.
  \<^item> \<open>Redis\<close>, \<open>RedisStream\<close>: the commands of the client, a parameter of the model, and every
    method of the transport over them. \<open>MemRedis\<close> is a small in-memory client at which witnesses
    evaluate; no theorem about the program rests on it.
  \<^item> \<open>World\<close>, \<open>Enqueue\<close>, \<open>Execute\<close>, \<open>Admission\<close>, \<open>Recover\<close>: the services, acting on server, outbox
    and metrics together. The handler of a job is a parameter. \<open>ExecuteSteps\<close> cuts an execution at
    its awaits and shows that the pieces in sequence are the whole.
  \<^item> \<open>Worker\<close>: the loop, its tasks (each a piece of an execution at a time) and the drain as a step
    relation with events; invariants by rule induction over runs. \<open>Pool\<close>: what a worker promises, as a
    specification of its own that the step relation refines event by event.
  \<^item> \<open>Keeps\<close>: what every operation keeps of the server's state. On it rest \<open>Saturation\<close> (a worker beside
    enqueuers, and what the stream length does), \<open>Fleet\<close> (any number of workers on one server, each of
    which may crash), \<open>Pending\<close> (what stays unacknowledged while they run), \<open>Entries\<close> (that what they
    execute was appended) and \<open>Enqueuers\<close> (enqueue
    calls cut at their awaits, beside each other). \<open>Producers\<close>: enqueue calls of many processes on one
    database and one server, their transactions statement by statement; undisturbed, they are \<open>enqueue\<close>.
    \<open>System\<close>: those calls and the workers of a queue together, each part seeing a run of its own.
  \<^item> \<open>RateLimiter\<close>, \<open>Circuit\<close>, \<open>Api\<close>: the Lua token bucket and its caller, the circuit breaker with the
    specification it implements, request validation and endpoints. \<open>Url\<close>, \<open>Cli\<close>: the check of the base
    URL, the commands, their requests and what they print. \<open>Lifecycle\<close>: a job from its enqueue through its
    execution to the status the API answers. \<open>Serve\<close>: bodies, routes, response models
    and middlewares around the endpoints, and the command line tool talking to them.

  \<^bold>\<open>What is shown.\<close> Nothing is appended to a stream without its outbox row, and no key is accepted
  twice through a store. A delivery never raises into the worker; it acknowledges on success, sends
  nothing on a failure with retries left, and on the last failure acknowledges only after the
  dead-letter write. The worker refines a pool of bounded size, so it runs at most its concurrency, executes what it polls exactly once
  per poll, is never stuck, and an undisturbed shutdown finishes what was read. Over a server that
  delivers an entry to one consumer, no entry is executed twice by any number of workers, crashes
  included, and every entry read is executed or still pending: none is acknowledged before its handler
  returned in time or its job was written to the dead letters. However the enqueue calls of many
  processes on one database interleave, no idempotency key reaches the stream twice; with the workers
  beside them, the jobs executed are among those appended and these among those committed, so no key
  is executed twice. Enqueues that run at the same time pass the limit by at most the number of those past
  the check at the same time, less one. Jobs and dead letters read back as written. The store keeps ids and keys unique, its
  insert is atomic, and transactions of different connections are serializable. Backoff, rate limit and circuit breaker meet their bounds and their
  specification. An accepted base URL keeps every request on its host, each command reaches its
  endpoint, the replies that have the types of the response models are told apart from those that do
  not, and an enqueue typed at the command line, with the base URL of a server's root, ends in the
  queue.

  Some theorems state what the code does where it falls short of its comments: attempts are not
  persisted, so redelivery never exhausts retries; a delivery lost in a crash is never executed,
  since claimed entries are only logged, and stays pending; status updates are never committed, so a
  status is seen on the connection that noted it only, and block every
  later transaction, on their own connection and on all others, until it is closed; stream length counts acknowledged entries, so a full queue never
  empties and a worker that admission stopped never resumes; replay and the queue listing always
  fail; an unreadable entry loses the batch read with it; the in-flight gauge does not return to
  zero; clocks that disagree defeat the rate limit; a half-open breaker lets everything through;
  rate-limited requests get no id and no log line; a job's status asked without a store, as the API is
  started, is answered with no \<open>JobStatusResponse\<close>; a base URL that ends in an empty query swallows
  every path.

  \<^bold>\<open>Conventions and bounds.\<close> Integers are Python's and are \<open>int\<close>. Floats are \<open>rat\<close>, and how one prints
  is an argument where a message contains one; the overflow of \<open>2 ** n\<close> as a float (from 1024 on)
  is kept. Readings of the clock, random draws and fresh ids are arguments. A text has code
  points below 256. The JSON parser takes fuel, twice the length of the text plus one, which is
  enough for every text \<open>dumps\<close> prints (\<open>loads_dumps\<close>). The key scan may never end if the server
  never returns cursor 0, so it is a partial function, and the theorems on it say when it ends.
  Hypotheses on the server state documented behaviour of Redis commands or of redis-py
  (\<open>reports_length\<close>, \<open>adds_one\<close>, \<open>keeps_length\<close>, \<open>delivers_once\<close>, \<open>acks_explicitly\<close>, \<open>stores_entries\<close>, \<open>runs_script\<close>, \<open>kv_documented\<close>); each
  theorem with one has a witness at a concrete client. In \<open>Enqueuers\<close> the number of callers and of
  those past the check is arbitrary, in \<open>Producers\<close> that of calls and connections, in \<open>Fleet\<close> that of workers; an execution takes at most five pieces, which
  \<open>exec_run_execute\<close> gives it.

  \<^bold>\<open>Not modelled.\<close> The inside of FastAPI, Starlette, pydantic, urllib's connection and the Redis and
  Prometheus clients: what the code relies on of them is a parameter or stated as documented where
  it is used (\<open>Serve\<close>, \<open>Redis\<close>). The log lines of the services; the request log is. The readings of the system clock, the environment
  and the event loop's scheduling, which are arguments or left open in the step relations. The
  circuit breaker is modelled for a client that decodes responses, as the API builds it.
\<close>

end
